(* ===== verification/Prelude.thy ===== *)
theory Prelude
  imports Complex_Main "HOL-Library.Word" "HOL-Library.Monad_Syntax"
begin

text \<open>
  Shared vocabulary of the development: the C integer types as words of their width, the
  \<open>double\<close> type as exact rationals, C strings and byte buffers, the collections that the
  component theories add their rules to, and the generic lemmas on lists and words that
  several components use.
\<close>

unbundle bit_operations_syntax

named_theorems iperf_inv \<open>preservation of component invariants\<close>
named_theorems iperf_frame \<open>fields an operation leaves unchanged\<close>

type_synonym uint8 = "8 word"
type_synonym uint32 = "32 word"
type_synonym uint64 = "64 word"
type_synonym byte = "8 word"
type_synonym bytes = "byte list"

text \<open>
  A C \<open>double\<close> is an exact rational: rounding, infinities and NaN of the machine type are
  outside the model.
\<close>

type_synonym double = rat

subsection \<open>Lists\<close>

lemma take_append_drop_mid:
  "n \<le> length xs \<Longrightarrow> take n (xs @ ys) @ drop n (xs @ ys) = xs @ ys"
  by simp

lemma length_take_le [simp]: "length (take n xs) \<le> length xs"
  by simp

subsection \<open>Words\<close>

lemma unat_add_no_wrap:
  fixes a b :: "'a::len word"
  assumes "unat a + unat b < 2 ^ LENGTH('a)"
  shows "unat (a + b) = unat a + unat b"
  using assms by (simp add: unat_word_ariths)

lemma unat_sub_le:
  fixes a b :: "'a::len word"
  assumes "b \<le> a"
  shows "unat (a - b) = unat a - unat b"
  using assms by (rule unat_sub)

lemma unat_ucast_mod:
  fixes w :: "'a::len word"
  shows "unat (ucast w :: 'b::len word) = unat w mod 2 ^ LENGTH('b)"
  by (simp add: unsigned_ucast_eq take_bit_eq_mod)

lemma unat_lt_uint32 [simp]: "unat (w :: uint32) < 4294967296"
  using unsigned_less [of w, where ?'a = nat] by simp

lemma unat_lt_uint64 [simp]: "unat (w :: uint64) < 18446744073709551616"
  using unsigned_less [of w, where ?'a = nat] by simp

lemma unat_lt_byte [simp]: "unat (w :: byte) < 256"
  using unsigned_less [of w, where ?'a = nat] by simp

lemma unat_ucast_32_64 [simp]: "unat (ucast (w :: uint32) :: uint64) = unat w"
proof -
  have "unat w < 2 ^ 64" by (rule less_trans [OF unat_lt_uint32]) simp
  then show ?thesis by (simp add: unat_ucast_mod)
qed

lemma unat_ucast_8_32 [simp]: "unat (ucast (w :: byte) :: uint32) = unat w"
proof -
  have "unat w < 2 ^ 32" by (rule less_trans [OF unat_lt_byte]) simp
  then show ?thesis by (simp add: unat_ucast_mod)
qed

subsection \<open>Results of stateful operations\<close>

text \<open>
  A stateful operation of the code is a function from a state to an optional pair of result
  and new state; \<open>None\<close> stands for an invalid memory access or a loop that does not end.
  \<open>wp Q m\<close> says that \<open>m\<close> does return, with a result and a state that satisfy \<open>Q\<close>.
\<close>

definition wp :: "('r \<Rightarrow> 's \<Rightarrow> bool) \<Rightarrow> ('r \<times> 's) option \<Rightarrow> bool" where
  "wp Q m = (case m of None \<Rightarrow> False | Some (r, s) \<Rightarrow> Q r s)"

lemma wp_Some [simp]: "wp Q (Some (r, s)) = Q r s"
  by (simp add: wp_def)

lemma wp_SomeI: "Q (fst x) (snd x) \<Longrightarrow> wp Q (Some x)"
  by (cases x) simp

lemma wp_None [simp]: "\<not> wp Q None"
  by (simp add: wp_def)

lemma wp_bind [simp]: "wp Q (m \<bind> (\<lambda>(r, s). f r s)) = wp (\<lambda>r s. wp Q (f r s)) m"
  by (cases m) (auto simp: wp_def)

lemma wp_if: "wp Q (if b then x else y) = ((b \<longrightarrow> wp Q x) \<and> (\<not> b \<longrightarrow> wp Q y))"
  by simp

lemma wp_mono: "wp P m \<Longrightarrow> (\<And>r s. P r s \<Longrightarrow> Q r s) \<Longrightarrow> wp Q m"
  by (auto simp: wp_def split: option.splits)

lemma wp_ex: "wp Q m \<longleftrightarrow> (\<exists>r s. m = Some (r, s) \<and> Q r s)"
  by (auto simp: wp_def split: option.splits)

text \<open>
  The \<open>errno\<close> values the code sets or tests, and any other one.
\<close>

datatype errno = EPROTO | EFBIG | ENOMEM | EINVAL | EINTR | EAGAIN | ETIMEDOUT | ECANCELED
  | ECONNRESET | EMSGSIZE | EIO | EBADF | EPIPE | EOTHER nat

end
