(* ===== verification/Iperf_Time.thy ===== *)
theory Iperf_Time
  imports Prelude
begin

text \<open>
  Time stamps (\<open>iperf_time.c\<close>): a pair of 32-bit counters for seconds and microseconds.
  The clock of the operating system is an argument: the result of \<open>clock_gettime\<close>,
  \<open>None\<close> when the call fails. The record is an instance of \<open>linorder\<close> with exactly the
  order that \<open>iperf_time_compare\<close> computes, so that sortedness of the timer queue is the
  library's \<open>sorted\<close>.
\<close>

record iperf_time =
  secs :: uint32
  usecs :: uint32

text \<open>\<open>struct timespec\<close> as the kernel fills it in.\<close>

record timespec =
  tv_sec :: int
  tv_nsec :: int

definition clock_gettime_helper :: "timespec option \<Rightarrow> iperf_time \<Rightarrow> int \<times> iperf_time" where
  "clock_gettime_helper clk now =
     (case clk of
        Some ts \<Rightarrow> (0, now\<lparr>secs := word_of_int (tv_sec ts),
                         usecs := word_of_int (tv_nsec ts) div 1000\<rparr>)
      | None \<Rightarrow> (- 1, now))"

definition iperf_time_add_usecs :: "iperf_time \<Rightarrow> uint64 \<Rightarrow> iperf_time" where
  "iperf_time_add_usecs time1 us =
     (let total_usecs = ucast (usecs time1) + us in
      time1\<lparr>secs := secs time1 + ucast (total_usecs div 1000000),
            usecs := ucast (total_usecs mod 1000000)\<rparr>)"

definition iperf_time_in_usecs :: "iperf_time \<Rightarrow> uint64" where
  "iperf_time_in_usecs time = ucast (secs time) * 1000000 + ucast (usecs time)"

definition iperf_time_in_secs :: "iperf_time \<Rightarrow> double" where
  "iperf_time_in_secs time = of_nat (unat (secs time)) + of_nat (unat (usecs time)) / 1000000"

definition iperf_time_compare :: "iperf_time \<Rightarrow> iperf_time \<Rightarrow> int" where
  "iperf_time_compare time1 time2 =
     (if secs time1 < secs time2 then - 1
      else if secs time1 > secs time2 then 1
      else if usecs time1 < usecs time2 then - 1
      else if usecs time1 > usecs time2 then 1
      else 0)"

text \<open>The returned pair is the C return value \<open>past\<close> and the time stored through \<open>diff\<close>.\<close>

definition iperf_time_diff :: "iperf_time \<Rightarrow> iperf_time \<Rightarrow> bool \<times> iperf_time" where
  "iperf_time_diff time1 time2 =
     (let cmp = iperf_time_compare time1 time2 in
      if cmp = 0 then (True, \<lparr>secs = 0, usecs = 0\<rparr>)
      else if cmp = 1 then
        (let d_secs = secs time1 - secs time2; d_usecs = usecs time1 in
         (False,
          if d_usecs < usecs time2
          then \<lparr>secs = d_secs - 1, usecs = d_usecs + 1000000 - usecs time2\<rparr>
          else \<lparr>secs = d_secs, usecs = d_usecs - usecs time2\<rparr>))
      else
        (let d_secs = secs time2 - secs time1; d_usecs = usecs time2 in
         (True,
          if d_usecs < usecs time1
          then \<lparr>secs = d_secs - 1, usecs = d_usecs + 1000000 - usecs time1\<rparr>
          else \<lparr>secs = d_secs, usecs = d_usecs - usecs time1\<rparr>)))"

subsection \<open>Well-formed times and their value in microseconds\<close>

definition time_ok :: "iperf_time \<Rightarrow> bool" where
  "time_ok t \<longleftrightarrow> usecs t < 1000000"

definition time_us :: "iperf_time \<Rightarrow> nat" where
  "time_us t = unat (secs t) * 1000000 + unat (usecs t)"

lemma time_ok_unat: "time_ok t \<longleftrightarrow> unat (usecs t) < 1000000"
  by (simp add: time_ok_def word_less_nat_alt)

lemma time_us_bound: "time_us t < 4294971590967296"
  using unat_lt_uint32 [of "secs t"] unat_lt_uint32 [of "usecs t"] unfolding time_us_def
  by linarith

subsection \<open>The order of \<open>iperf_time_compare\<close>\<close>

instantiation iperf_time_ext :: (linorder) linorder
begin

definition less_eq_iperf_time_ext :: "'a iperf_time_scheme \<Rightarrow> 'a iperf_time_scheme \<Rightarrow> bool" where
  "s \<le> t \<longleftrightarrow> secs s < secs t \<or> secs s = secs t \<and>
     (usecs s < usecs t \<or> usecs s = usecs t \<and> iperf_time.more s \<le> iperf_time.more t)"

definition less_iperf_time_ext :: "'a iperf_time_scheme \<Rightarrow> 'a iperf_time_scheme \<Rightarrow> bool" where
  "s < t \<longleftrightarrow> s \<le> t \<and> \<not> t \<le> (s :: 'a iperf_time_scheme)"

instance
  by standard (auto simp: less_eq_iperf_time_ext_def less_iperf_time_ext_def)

end

lemma iperf_time_le_iff:
  fixes s t :: iperf_time
  shows "s \<le> t \<longleftrightarrow> secs s < secs t \<or> secs s = secs t \<and> usecs s \<le> usecs t"
  by (auto simp: less_eq_iperf_time_ext_def)

lemma iperf_time_less_iff:
  fixes s t :: iperf_time
  shows "s < t \<longleftrightarrow> secs s < secs t \<or> secs s = secs t \<and> usecs s < usecs t"
  by (auto simp: less_iperf_time_ext_def iperf_time_le_iff)

lemma iperf_time_eq_iff:
  fixes s t :: iperf_time
  shows "s = t \<longleftrightarrow> secs s = secs t \<and> usecs s = usecs t"
  by (cases s, cases t) simp

lemma compare_less: "iperf_time_compare s t < 0 \<longleftrightarrow> s < t"
  by (auto simp: iperf_time_compare_def iperf_time_less_iff)

lemma compare_greater: "0 < iperf_time_compare s t \<longleftrightarrow> t < s"
  by (auto simp: iperf_time_compare_def iperf_time_less_iff)

lemma compare_eq_0: "iperf_time_compare s t = 0 \<longleftrightarrow> s = t"
  by (auto simp: iperf_time_compare_def)

lemma compare_eq_1: "iperf_time_compare s t = 1 \<longleftrightarrow> t < s"
  by (auto simp: iperf_time_compare_def iperf_time_less_iff)

lemmas compare_simps = compare_less compare_greater compare_eq_0 compare_eq_1

lemma time_us_less:
  assumes "time_ok s" "time_ok t"
  shows "s < t \<longleftrightarrow> time_us s < time_us t"
  using assms unfolding time_ok_unat time_us_def iperf_time_less_iff
  by (auto simp: word_less_nat_alt word_unat_eq_iff)

lemma time_us_le:
  assumes "time_ok s" "time_ok t"
  shows "s \<le> t \<longleftrightarrow> time_us s \<le> time_us t"
  using time_us_less [OF assms(2,1)] by (simp add: linorder_not_less [symmetric])

lemma time_us_inject:
  assumes "time_ok s" "time_ok t"
  shows "time_us s = time_us t \<longleftrightarrow> s = t"
  using time_us_le [OF assms] time_us_le [OF assms(2,1)] by auto

subsection \<open>Arithmetic\<close>

lemma in_usecs_time_us: "unat (iperf_time_in_usecs t) = time_us t"
proof -
  have "unat (secs t) * 1000000 + unat (usecs t) < 18446744073709551616"
    using unat_lt_uint32 [of "secs t"] unat_lt_uint32 [of "usecs t"] by linarith
  then show ?thesis
    by (simp add: iperf_time_in_usecs_def time_us_def unat_word_ariths)
qed

lemma in_secs_time_us: "iperf_time_in_secs t = of_nat (time_us t) / 1000000"
  by (simp add: iperf_time_in_secs_def time_us_def add_divide_distrib)

lemma add_usecs_ok [simp]: "time_ok (iperf_time_add_usecs t us)"
proof -
  have "unat (((ucast (usecs t) :: uint64) + us) mod 1000000) < 1000000"
    by (simp add: unat_mod)
  then have "unat (ucast (((ucast (usecs t) :: uint64) + us) mod 1000000) :: uint32) < 1000000"
    unfolding unat_ucast_mod by (rule le_less_trans [OF mod_less_eq_dividend])
  then show ?thesis
    by (simp add: time_ok_unat iperf_time_add_usecs_def Let_def)
qed

text \<open>
  Adding a delay adds its microseconds, as long as neither the 64-bit sum of microseconds
  nor the 32-bit seconds counter wraps.
\<close>

lemma add_usecs_time_us:
  assumes "time_us t + unat us < 2 ^ 32 * 1000000"
  shows "time_us (iperf_time_add_usecs t us) = time_us t + unat us"
proof -
  define S U where "S = unat (secs t)" and "U = unat (usecs t)"
  have U: "U < 4294967296" and d: "unat us + U + S * 1000000 < 4294967296000000"
    using assms by (simp_all add: S_def U_def time_us_def)
  have tot: "unat (ucast (usecs t) + us) = U + unat us"
    using d by (simp add: unat_add_no_wrap U_def)
  have dv: "(U + unat us) div 1000000 + S < 4294967296" using d by linarith
  have s': "unat (secs (iperf_time_add_usecs t us)) = S + (U + unat us) div 1000000"
    using dv tot by (simp add: iperf_time_add_usecs_def Let_def unat_word_ariths unat_ucast_mod
        unat_div S_def)
  have u': "unat (usecs (iperf_time_add_usecs t us)) = (U + unat us) mod 1000000"
    using tot by (simp add: iperf_time_add_usecs_def Let_def unat_ucast_mod unat_mod)
  show ?thesis unfolding time_us_def s' u' using d by (simp add: S_def U_def algebra_simps)
qed

text \<open>
  The difference is the absolute distance in microseconds, and the returned flag says that
  the first time is not later than the second.
\<close>

lemma borrow_sub:
  fixes a b :: iperf_time
  defines "d \<equiv> (if usecs a < usecs b
                then \<lparr>secs = secs a - secs b - 1, usecs = usecs a + 1000000 - usecs b\<rparr>
                else \<lparr>secs = secs a - secs b, usecs = usecs a - usecs b\<rparr>)"
  assumes ok: "time_ok a" "time_ok b" and lt: "b < a"
  shows "time_ok d" and "time_us d = time_us a - time_us b"
proof -
  have S: "secs b \<le> secs a" using lt by (auto simp: iperf_time_less_iff)
  have u: "unat (usecs a) < 1000000" "unat (usecs b) < 1000000"
    using ok by (simp_all add: time_ok_unat)
  have "time_ok d \<and> time_us d = time_us a - time_us b"
  proof (cases "usecs a < usecs b")
    case True
    then have "secs b < secs a" using lt S by (auto simp: iperf_time_less_iff)
    then have lt': "unat (secs b) < unat (secs a)" by (simp add: word_less_nat_alt)
    then have "1 \<le> secs a - secs b" using S
      by (simp add: word_le_nat_alt unat_sub)
    then have s: "unat (secs a - secs b - 1) = unat (secs a) - unat (secs b) - 1"
      using S by (simp add: unat_sub)
    have "unat (usecs a + 1000000) = unat (usecs a) + 1000000"
      using u by (simp add: unat_word_ariths)
    moreover from this have "usecs b \<le> usecs a + 1000000" using u by (simp add: word_le_nat_alt)
    ultimately have us: "unat (usecs a + 1000000 - usecs b)
        = unat (usecs a) + 1000000 - unat (usecs b)" by (simp add: unat_sub)
    obtain k where k: "unat (secs a) = Suc (unat (secs b) + k)"
      using less_imp_Suc_add [OF lt'] by blast
    have "unat (usecs a) < unat (usecs b)" using True by (simp add: word_less_nat_alt)
    with True u show ?thesis
      unfolding d_def by (auto simp: time_ok_unat time_us_def s us k)
  next
    case False
    then have le: "usecs b \<le> usecs a" by simp
    have "unat (secs b) \<le> unat (secs a)" and k': "unat (usecs b) \<le> unat (usecs a)"
      using S le by (simp_all add: word_le_nat_alt)
    then obtain k where k: "unat (secs a) = unat (secs b) + k" using le_Suc_ex by blast
    have "unat (secs a - secs b) = k" using k S by (simp add: unat_sub)
    with False le u k k' show ?thesis
      unfolding d_def by (auto simp: time_ok_unat time_us_def unat_sub)
  qed
  then show "time_ok d" and "time_us d = time_us a - time_us b" by simp_all
qed

lemma diff_unfold:
  "iperf_time_diff t1 t2 =
     (if t1 = t2 then (True, \<lparr>secs = 0, usecs = 0\<rparr>)
      else let (a, b) = (if t2 < t1 then (t1, t2) else (t2, t1)) in
        (\<not> t2 < t1,
         if usecs a < usecs b
         then \<lparr>secs = secs a - secs b - 1, usecs = usecs a + 1000000 - usecs b\<rparr>
         else \<lparr>secs = secs a - secs b, usecs = usecs a - usecs b\<rparr>))"
  unfolding iperf_time_diff_def Let_def compare_simps by simp

lemma diff_past: "fst (iperf_time_diff t1 t2) \<longleftrightarrow> t1 \<le> t2"
  unfolding diff_unfold by (auto simp: Let_def)

lemma diff_ok:
  assumes "time_ok t1" "time_ok t2"
  shows "time_ok (snd (iperf_time_diff t1 t2))"
  using borrow_sub(1) [OF assms] borrow_sub(1) [OF assms(2,1)]
  unfolding diff_unfold by (auto simp: Let_def time_ok_def)

lemma diff_time_us:
  assumes "time_ok t1" "time_ok t2"
  shows "time_us (snd (iperf_time_diff t1 t2)) =
    (if t1 \<le> t2 then time_us t2 - time_us t1 else time_us t1 - time_us t2)"
proof -
  consider "t1 = t2" | "t2 < t1" | "t1 < t2" by (rule linorder_cases)
  then show ?thesis
  proof cases
    case 1
    then show ?thesis by (simp add: diff_unfold time_us_def)
  next
    case 2
    with borrow_sub(2) [OF assms 2] show ?thesis
      unfolding diff_unfold by (auto simp: Let_def time_us_def)
  next
    case 3
    with borrow_sub(2) [OF assms(2,1) 3] show ?thesis
      unfolding diff_unfold by (auto simp: Let_def time_us_def)
  qed
qed

subsection \<open>Properties\<close>

text \<open>
  C1. The deadline arithmetic is exact: for normalised times, adding a delay moves the time
  forward by exactly that many microseconds and keeps it normalised, the difference of two
  times is their absolute distance in microseconds, and the flag returned with it says
  whether the first time is not later than the second, as long as the 32-bit seconds do
  not overflow.
\<close>

theorem time_arithmetic_exact:
  assumes "time_ok t" "time_ok u" "time_us t + unat us < 2 ^ 32 * 1000000"
  shows "time_ok (iperf_time_add_usecs t us) \<and>
    time_us (iperf_time_add_usecs t us) = time_us t + unat us \<and>
    (case iperf_time_diff (iperf_time_add_usecs t us) u of (past, d) \<Rightarrow>
       (past \<longleftrightarrow> time_us t + unat us \<le> time_us u) \<and> time_ok d \<and>
       unat (iperf_time_in_usecs d) = (if past then time_us u - (time_us t + unat us)
                                       else time_us t + unat us - time_us u))"
  using diff_past [of "iperf_time_add_usecs t us" u] diff_ok [OF add_usecs_ok assms(2), of t us]
    diff_time_us [OF add_usecs_ok assms(2), of t us] add_usecs_time_us [OF assms(3)]
    time_us_le [OF add_usecs_ok assms(2), of t us]
  by (auto simp: in_usecs_time_us split: prod.splits)

theorem time_arithmetic_exact_witness:
  "let t = \<lparr>secs = 7, usecs = 999999\<rparr>; u = \<lparr>secs = 9, usecs = 3\<rparr> in
     time_us (iperf_time_add_usecs t 2) = 8000001 \<and>
     fst (iperf_time_diff (iperf_time_add_usecs t 2) u) \<and>
     unat (iperf_time_in_usecs (snd (iperf_time_diff (iperf_time_add_usecs t 2) u))) = 1000002"
  using time_arithmetic_exact [of "\<lparr>secs = 7, usecs = 999999\<rparr>" "\<lparr>secs = 9, usecs = 3\<rparr>" 2]
  by (auto simp: time_ok_def time_us_def Let_def split: prod.splits)

end
