(* ===== verification/Timer.thy ===== *)
theory Timer
  imports Iperf_Time
begin

text \<open>
  The timer package (\<open>timer.c\<close>): a doubly linked list of active timers kept sorted by expiry
  time, a free list of reusable cells, and the operations on them. The cells live in an
  explicit store from addresses to \<open>Timer\<close> structures, because \<open>list_add\<close>, \<open>list_remove\<close>
  and the free list work by pointer updates through shared cells. Every operation is in
  the option monad: \<open>None\<close> is a read or write through an address that holds no cell, or a
  list walk that does not end. The lemmas show that on well-linked states no operation is
  \<open>None\<close> and that each acts on the list of active timers as the corresponding operation on
  a sorted list.
\<close>

type_synonym addr = nat

record 'c Timer =
  timer_proc :: 'c              \<comment> \<open>the callback with its \<open>client_data\<close>\<close>
  t_usecs :: uint64             \<comment> \<open>the \<open>int64_t\<close> period, as the 64-bit pattern added to times\<close>
  periodic :: bool
  time :: iperf_time
  prev_t :: "addr option"
  next_t :: "addr option"

record 'c tmr_state =
  cells :: "addr \<Rightarrow> 'c Timer option"
  timers :: "addr option"
  free_timers :: "addr option"

definition tmr_init :: "'c tmr_state" where
  "tmr_init = \<lparr>cells = (\<lambda>_. None), timers = None, free_timers = None\<rparr>"

subsection \<open>Writing through a pointer\<close>

definition upd_cell :: "addr \<Rightarrow> ('c Timer \<Rightarrow> 'c Timer) \<Rightarrow> 'c tmr_state \<Rightarrow> 'c tmr_state option" where
  "upd_cell a f s =
     (case cells s a of None \<Rightarrow> None | Some c \<Rightarrow> Some (s\<lparr>cells := (cells s)(a \<mapsto> f c)\<rparr>))"

definition set_next :: "addr \<Rightarrow> addr option \<Rightarrow> 'c tmr_state \<Rightarrow> 'c tmr_state option" where
  "set_next a n = upd_cell a (\<lambda>t. t\<lparr>next_t := n\<rparr>)"

definition set_prev :: "addr \<Rightarrow> addr option \<Rightarrow> 'c tmr_state \<Rightarrow> 'c tmr_state option" where
  "set_prev a p = upd_cell a (\<lambda>t. t\<lparr>prev_t := p\<rparr>)"

subsection \<open>The operations of \<open>timer.c\<close>\<close>

definition getnow :: "iperf_time option \<Rightarrow> iperf_time \<Rightarrow> iperf_time" where
  "getnow nowP clock = (case nowP of Some now \<Rightarrow> now | None \<Rightarrow> clock)"

text \<open>The insertion loop of \<open>list_add\<close>, from the cell after \<open>t2prev\<close> on.\<close>

partial_function (option) list_walk ::
  "addr \<Rightarrow> addr \<Rightarrow> addr option \<Rightarrow> 'c tmr_state \<Rightarrow> 'c tmr_state option" where
  "list_walk t t2prev t2 s =
     (case t2 of
        None \<Rightarrow>
          do { s1 \<leftarrow> set_next t2prev (Some t) s;
               s2 \<leftarrow> set_prev t (Some t2prev) s1;
               set_next t None s2 }
      | Some a \<Rightarrow>
          do { ct \<leftarrow> cells s t;
               ca \<leftarrow> cells s a;
               if iperf_time_compare (time ct) (time ca) < 0 then
                 do { s1 \<leftarrow> set_next t2prev (Some t) s;
                      s2 \<leftarrow> set_prev t (Some t2prev) s1;
                      s3 \<leftarrow> set_next t (Some a) s2;
                      set_prev a (Some t) s3 }
               else list_walk t a (next_t ca) s })"

definition list_add :: "addr \<Rightarrow> 'c tmr_state \<Rightarrow> 'c tmr_state option" where
  "list_add t s =
     (case timers s of
        None \<Rightarrow>
          do { s1 \<leftarrow> set_next t None (s\<lparr>timers := Some t\<rparr>);
               set_prev t None s1 }
      | Some h \<Rightarrow>
          do { ct \<leftarrow> cells s t;
               ch \<leftarrow> cells s h;
               if iperf_time_compare (time ct) (time ch) < 0 then
                 do { s1 \<leftarrow> set_prev t None s;
                      s2 \<leftarrow> set_next t (Some h) s1;
                      s3 \<leftarrow> set_prev h (Some t) s2;
                      Some (s3\<lparr>timers := Some t\<rparr>) }
               else list_walk t h (next_t ch) s })"

definition list_remove :: "addr \<Rightarrow> 'c tmr_state \<Rightarrow> 'c tmr_state option" where
  "list_remove t s =
     do { ct \<leftarrow> cells s t;
          s1 \<leftarrow> (case prev_t ct of
                   None \<Rightarrow> Some (s\<lparr>timers := next_t ct\<rparr>)
                 | Some p \<Rightarrow> set_next p (next_t ct) s);
          (case next_t ct of
             None \<Rightarrow> Some s1
           | Some n \<Rightarrow> set_prev n (prev_t ct) s1) }"

definition list_resort :: "addr \<Rightarrow> 'c tmr_state \<Rightarrow> 'c tmr_state option" where
  "list_resort t s = do { s1 \<leftarrow> list_remove t s; list_add t s1 }"

text \<open>
  \<open>malloc\<close> is an argument: the fresh address with whatever the memory held, or \<open>None\<close>
  when the allocation fails. The result is the C return value and the new state.
\<close>

definition tmr_create ::
  "iperf_time option \<Rightarrow> iperf_time \<Rightarrow> (addr \<times> 'c Timer) option \<Rightarrow> 'c \<Rightarrow> uint64 \<Rightarrow> bool \<Rightarrow>
   'c tmr_state \<Rightarrow> (addr option \<times> 'c tmr_state) option" where
  "tmr_create nowP clock malloc proc us per s =
     (let now = getnow nowP clock in
      do { cell \<leftarrow> (case free_timers s of
                     Some t \<Rightarrow> do { c \<leftarrow> cells s t; Some (Some t, s\<lparr>free_timers := next_t c\<rparr>) }
                   | None \<Rightarrow> (case malloc of
                        Some (a, c) \<Rightarrow> Some (Some a, s\<lparr>cells := (cells s)(a \<mapsto> c)\<rparr>)
                      | None \<Rightarrow> Some (None, s)));
           (case cell of
              (None, s1) \<Rightarrow> Some (None, s1)
            | (Some t, s1) \<Rightarrow>
                do { s2 \<leftarrow> upd_cell t (\<lambda>c. c\<lparr>timer_proc := proc, t_usecs := us, periodic := per,
                              time := iperf_time_add_usecs now us\<rparr>) s1;
                     s3 \<leftarrow> list_add t s2;
                     Some (Some t, s3) }) })"

record timeval =
  to_sec :: uint64
  to_usec :: uint64

definition tmr_timeout ::
  "iperf_time option \<Rightarrow> iperf_time \<Rightarrow> 'c tmr_state \<Rightarrow> timeval option option" where
  "tmr_timeout nowP clock s =
     (let now = getnow nowP clock in
      case timers s of
        None \<Rightarrow> Some None
      | Some h \<Rightarrow>
          do { c \<leftarrow> cells s h;
               let (past, diff) = iperf_time_diff (time c) now;
                   us = (if past then 0 else iperf_time_in_usecs diff)
               in Some (Some \<lparr>to_sec = us div 1000000, to_usec = us mod 1000000\<rparr>) })"

definition tmr_cancel :: "addr \<Rightarrow> 'c tmr_state \<Rightarrow> 'c tmr_state option" where
  "tmr_cancel t s =
     do { s1 \<leftarrow> list_remove t s;
          s2 \<leftarrow> set_next t (free_timers s1) s1;
          set_prev t None (s2\<lparr>free_timers := Some t\<rparr>) }"

definition tmr_reset :: "iperf_time option \<Rightarrow> iperf_time \<Rightarrow> addr \<Rightarrow> 'c tmr_state \<Rightarrow>
    'c tmr_state option" where
  "tmr_reset nowP clock t s =
     (let now = getnow nowP clock in
      do { s1 \<leftarrow> upd_cell t (\<lambda>c. c\<lparr>time := iperf_time_add_usecs now (t_usecs c)\<rparr>) s;
           list_resort t s1 })"

text \<open>
  \<open>tmr_run\<close> calls back into the engine. The callback maps the engine state \<open>'e\<close> and the
  timer state to new ones; \<open>next\<close> is read before the call, as in the C loop.
\<close>

partial_function (option) tmr_run_loop ::
  "('c \<Rightarrow> iperf_time \<Rightarrow> 'e \<times> 'c tmr_state \<Rightarrow> ('e \<times> 'c tmr_state) option) \<Rightarrow> iperf_time \<Rightarrow>
   addr option \<Rightarrow> 'e \<times> 'c tmr_state \<Rightarrow> ('e \<times> 'c tmr_state) option" where
  "tmr_run_loop cb now t es =
     (case t of
        None \<Rightarrow> Some es
      | Some a \<Rightarrow>
          do { c \<leftarrow> cells (snd es) a;
               if iperf_time_compare (time c) now > 0 then Some es
               else
                 do { es1 \<leftarrow> cb (timer_proc c) now es;
                      c1 \<leftarrow> cells (snd es1) a;
                      s2 \<leftarrow> (if periodic c1
                             then do { s1 \<leftarrow> upd_cell a (\<lambda>c. c\<lparr>time :=
                                          iperf_time_add_usecs (time c) (t_usecs c)\<rparr>) (snd es1);
                                       list_resort a s1 }
                             else tmr_cancel a (snd es1));
                      tmr_run_loop cb now (next_t c) (fst es1, s2) } })"

definition tmr_run ::
  "('c \<Rightarrow> iperf_time \<Rightarrow> 'e \<times> 'c tmr_state \<Rightarrow> ('e \<times> 'c tmr_state) option) \<Rightarrow>
   iperf_time option \<Rightarrow> iperf_time \<Rightarrow> 'e \<times> 'c tmr_state \<Rightarrow> ('e \<times> 'c tmr_state) option" where
  "tmr_run cb nowP clock es = tmr_run_loop cb (getnow nowP clock) (timers (snd es)) es"

text \<open>Freeing a cell removes it from the store.\<close>

partial_function (option) tmr_cleanup :: "'c tmr_state \<Rightarrow> 'c tmr_state option" where
  "tmr_cleanup s =
     (case free_timers s of
        None \<Rightarrow> Some s
      | Some t \<Rightarrow>
          do { c \<leftarrow> cells s t;
               tmr_cleanup (s\<lparr>free_timers := next_t c, cells := (cells s)(t := None)\<rparr>) })"

partial_function (option) tmr_cancel_all :: "'c tmr_state \<Rightarrow> 'c tmr_state option" where
  "tmr_cancel_all s =
     (case timers s of
        None \<Rightarrow> Some s
      | Some t \<Rightarrow> do { s1 \<leftarrow> tmr_cancel t s; tmr_cancel_all s1 })"

definition tmr_destroy :: "'c tmr_state \<Rightarrow> 'c tmr_state option" where
  "tmr_destroy s = do { s1 \<leftarrow> tmr_cancel_all s; tmr_cleanup s1 }"

subsection \<open>Linked lists in the store\<close>

text \<open>
  \<open>lseg s p h xs m\<close>: starting at \<open>h\<close>, the cells \<open>xs\<close> are linked by \<open>next\<close>, end in \<open>m\<close>, and
  each has its predecessor in \<open>prev\<close> (\<open>p\<close> for the first).
\<close>

fun lseg :: "(addr \<Rightarrow> 'c Timer option) \<Rightarrow> addr option \<Rightarrow> addr option \<Rightarrow> addr list \<Rightarrow>
    addr option \<Rightarrow> bool" where
  "lseg H p h [] m \<longleftrightarrow> h = m"
| "lseg H p h (a # as) m \<longleftrightarrow> h = Some a \<and>
     (case H a of None \<Rightarrow> False | Some c \<Rightarrow> prev_t c = p \<and> lseg H (Some a) (next_t c) as m)"

text \<open>The free list uses \<open>next\<close> only.\<close>

fun fseg :: "(addr \<Rightarrow> 'c Timer option) \<Rightarrow> addr option \<Rightarrow> addr list \<Rightarrow> bool" where
  "fseg H h [] \<longleftrightarrow> h = None"
| "fseg H h (a # as) \<longleftrightarrow> h = Some a \<and>
     (case H a of None \<Rightarrow> False | Some c \<Rightarrow> fseg H (next_t c) as)"

definition last_of :: "addr option \<Rightarrow> addr list \<Rightarrow> addr option" where
  "last_of p xs = (if xs = [] then p else Some (last xs))"

lemma last_of_simps [simp]:
  "last_of p [] = p" "last_of p (xs @ [x]) = Some x" "last_of p (x # xs) = last_of (Some x) xs"
  by (simp_all add: last_of_def)

lemma lseg_append:
  "lseg H p h (xs @ ys) m \<longleftrightarrow> (\<exists>k. lseg H p h xs k \<and> lseg H (last_of p xs) k ys m)"
  by (induction H p h xs m rule: lseg.induct) (auto split: option.splits)

lemma lseg_append_Cons:
  "lseg H p h (xs @ y # ys) m \<longleftrightarrow>
     lseg H p h xs (Some y) \<and> lseg H (last_of p xs) (Some y) (y # ys) m"
  unfolding lseg_append by (auto split: option.splits)

lemma lseg_fresh: "b \<notin> set xs \<Longrightarrow> lseg (H(b := c)) p h xs m = lseg H p h xs m"
  by (induction H p h xs m rule: lseg.induct) (auto split: option.splits)

lemma fseg_fresh: "b \<notin> set xs \<Longrightarrow> fseg (H(b := c)) h xs = fseg H h xs"
  by (induction H h xs rule: fseg.induct) (auto split: option.splits)

lemma lseg_cells: "lseg H p h xs m \<Longrightarrow> a \<in> set xs \<Longrightarrow> H a \<noteq> None"
  by (induction H p h xs m rule: lseg.induct) (auto split: option.splits)

lemma fseg_cells: "fseg H h xs \<Longrightarrow> a \<in> set xs \<Longrightarrow> H a \<noteq> None"
  by (induction H h xs rule: fseg.induct) (auto split: option.splits)

lemma lseg_set_last_next:
  assumes "lseg H p h (xs @ [q]) m" "distinct (xs @ [q])" "H q = Some c"
  shows "lseg (H(q \<mapsto> c\<lparr>next_t := m'\<rparr>)) p h (xs @ [q]) m'"
  using assms by (auto simp: lseg_append_Cons lseg_fresh)

lemma lseg_set_first_prev:
  assumes "lseg H p h (y # ys) m" "distinct (y # ys)" "H y = Some c"
  shows "lseg (H(y \<mapsto> c\<lparr>prev_t := p'\<rparr>)) p' (Some y) (y # ys) m"
  using assms by (auto simp: lseg_fresh)

lemma lseg_head: "lseg H p (Some a) xs None \<Longrightarrow> \<exists>ys. xs = a # ys"
  by (cases xs) auto

subsection \<open>What a cell holds besides its links\<close>

definition data :: "'c Timer \<Rightarrow> 'c \<times> uint64 \<times> bool \<times> iperf_time" where
  "data c = (timer_proc c, t_usecs c, periodic c, time c)"

definition key :: "(addr \<Rightarrow> 'c Timer option) \<Rightarrow> addr \<Rightarrow> iperf_time" where
  "key H a = (case H a of Some c \<Rightarrow> time c | None \<Rightarrow> \<lparr>secs = 0, usecs = 0\<rparr>)"

lemma data_links [simp]: "data (c\<lparr>prev_t := p\<rparr>) = data c" "data (c\<lparr>next_t := n\<rparr>) = data c"
  by (simp_all add: data_def)

text \<open>\<open>frame H H' A\<close>: only links changed, and only links of cells in \<open>A\<close>.\<close>

definition frame :: "(addr \<Rightarrow> 'c Timer option) \<Rightarrow> (addr \<Rightarrow> 'c Timer option) \<Rightarrow> addr set \<Rightarrow> bool" where
  "frame H H' A \<longleftrightarrow> (\<forall>a. map_option data (H' a) = map_option data (H a)) \<and> (\<forall>a. a \<notin> A \<longrightarrow> H' a = H a)"

lemma frame_key: "frame H H' A \<Longrightarrow> key H' a = key H a"
proof -
  assume "frame H H' A"
  then have "map_option data (H' a) = map_option data (H a)" by (simp add: frame_def)
  then show ?thesis by (cases "H a"; cases "H' a") (auto simp: key_def data_def)
qed

lemma frame_keys: "frame H H' A \<Longrightarrow> map (key H') xs = map (key H) xs"
  by (simp add: frame_key)

lemma frame_refl [simp]: "frame H H A"
  by (simp add: frame_def)

lemma frame_fseg: "frame H H' A \<Longrightarrow> A \<inter> set xs = {} \<Longrightarrow> fseg H' h xs = fseg H h xs"
  by (induction H h xs rule: fseg.induct) (auto simp: frame_def split: option.splits)

subsection \<open>\<open>list_add\<close> and \<open>list_remove\<close> on linked states\<close>

text \<open>
  The position \<open>list_add\<close> looks for: before the first timer that expires strictly later, so
  timers with the same expiry stay in insertion order.
\<close>

definition ins_by :: "('a \<Rightarrow> 'k::linorder) \<Rightarrow> 'a \<Rightarrow> 'a list \<Rightarrow> 'a list" where
  "ins_by k t xs = takeWhile (\<lambda>a. k a \<le> k t) xs @ t # dropWhile (\<lambda>a. k a \<le> k t) xs"

lemma ins_by_simps [simp]:
  "ins_by k t [] = [t]"
  "ins_by k t (a # as) = (if k t < k a then t # a # as else a # ins_by k t as)"
  by (auto simp: ins_by_def)

lemma set_ins_by [simp]: "set (ins_by k t xs) = insert t (set xs)"
  by (induction xs) auto

lemma distinct_ins_by [simp]: "distinct (ins_by k t xs) \<longleftrightarrow> distinct (t # xs)"
  by (induction xs) auto

lemma length_ins_by [simp]: "length (ins_by k t xs) = Suc (length xs)"
  by (induction xs) auto

lemma sorted_ins_by: "sorted (map k xs) \<Longrightarrow> sorted (map k (ins_by k t xs))"
  by (induction xs) (auto simp: not_less)

lemma ins_by_cong: "k t = k' t \<Longrightarrow> (\<And>a. a \<in> set xs \<Longrightarrow> k a = k' a) \<Longrightarrow> ins_by k t xs = ins_by k' t xs"
  by (induction xs) auto

definition add_post :: "'c tmr_state \<Rightarrow> 'c tmr_state \<Rightarrow> addr \<Rightarrow> addr list \<Rightarrow> addr list \<Rightarrow> bool" where
  "add_post s s' t xs ys \<longleftrightarrow>
     lseg (cells s') None (timers s') ys None \<and> frame (cells s) (cells s') (insert t (set xs)) \<and>
     free_timers s' = free_timers s"

lemma insert_between:
  assumes seg: "lseg (cells s) None (timers s) (xs @ q # y # ys) None"
    and dist: "distinct (t # xs @ q # y # ys)" and ct: "cells s t = Some ct"
  shows "\<exists>s'. (do { s1 \<leftarrow> set_next q (Some t) s; s2 \<leftarrow> set_prev t (Some q) s1;
                   s3 \<leftarrow> set_next t (Some y) s2; set_prev y (Some t) s3 }) = Some s' \<and>
     add_post s s' t (xs @ q # y # ys) (xs @ q # t # y # ys)"
proof -
  obtain cq cy where cq: "cells s q = Some cq" and cy: "cells s y = Some cy"
    using lseg_cells [OF seg] by fastforce
  have "lseg (cells s) None (timers s) (xs @ [q]) (Some y)"
    and ys: "lseg (cells s) (Some q) (Some y) (y # ys) None"
    using seg lseg_append_Cons [of "cells s" None "timers s" "xs @ [q]" y ys None] by simp_all
  then have l: "lseg ((cells s)(q \<mapsto> cq\<lparr>next_t := Some t\<rparr>)) None (timers s) (xs @ [q]) (Some t)"
    using lseg_set_last_next [of "cells s" None "timers s" xs q "Some y" cq] cq dist by simp
  have r: "lseg ((cells s)(y \<mapsto> cy\<lparr>prev_t := Some t\<rparr>)) (Some t) (Some y) (y # ys) None"
    using lseg_set_first_prev [OF ys, of cy] cy dist by simp
  let ?H = "(cells s)(q \<mapsto> cq\<lparr>next_t := Some t\<rparr>,
                      t \<mapsto> ct\<lparr>prev_t := Some q, next_t := Some y\<rparr>, y \<mapsto> cy\<lparr>prev_t := Some t\<rparr>)"
  have "lseg ?H None (timers s) (xs @ [q]) (Some t)"
    using l dist by (simp add: lseg_fresh)
  moreover have H: "?H = (cells s)(y \<mapsto> cy\<lparr>prev_t := Some t\<rparr>, q \<mapsto> cq\<lparr>next_t := Some t\<rparr>,
                      t \<mapsto> ct\<lparr>prev_t := Some q, next_t := Some y\<rparr>)"
    using dist by (intro ext) auto
  have "lseg ?H (Some t) (Some y) (y # ys) None"
    unfolding H using r dist by (simp add: lseg_fresh)
  ultimately have "lseg ?H None (timers s) ((xs @ [q]) @ t # y # ys) None"
    using dist unfolding lseg_append_Cons by (auto simp: last_of_def)
  moreover have "frame (cells s) ?H (insert t (set (xs @ q # y # ys)))"
    using ct cq cy by (auto simp: frame_def data_def)
  ultimately show ?thesis
    using ct cq cy dist
    by (auto simp: set_next_def set_prev_def upd_cell_def add_post_def)
qed

lemma insert_last:
  assumes seg: "lseg (cells s) None (timers s) (xs @ [q]) None"
    and dist: "distinct (t # xs @ [q])" and ct: "cells s t = Some ct"
  shows "\<exists>s'. (do { s1 \<leftarrow> set_next q (Some t) s; s2 \<leftarrow> set_prev t (Some q) s1;
                   set_next t None s2 }) = Some s' \<and>
     add_post s s' t (xs @ [q]) (xs @ [q, t])"
proof -
  obtain cq where cq: "cells s q = Some cq"
    using lseg_cells [OF seg] by fastforce
  have l: "lseg ((cells s)(q \<mapsto> cq\<lparr>next_t := Some t\<rparr>)) None (timers s) (xs @ [q]) (Some t)"
    using lseg_set_last_next [OF seg, of cq] cq dist by simp
  let ?H = "(cells s)(q \<mapsto> cq\<lparr>next_t := Some t\<rparr>, t \<mapsto> ct\<lparr>prev_t := Some q, next_t := None\<rparr>)"
  have "lseg ?H None (timers s) (xs @ [q]) (Some t)"
    using l dist by (simp add: lseg_fresh)
  then have "lseg ?H None (timers s) ((xs @ [q]) @ [t]) None"
    unfolding lseg_append_Cons by simp
  moreover have "frame (cells s) ?H (insert t (set (xs @ [q])))"
    using ct cq by (auto simp: frame_def data_def)
  ultimately show ?thesis
    using ct cq dist by (auto simp: set_next_def set_prev_def upd_cell_def add_post_def)
qed

lemma list_walk_None:
  "list_walk t q None s =
     do { s1 \<leftarrow> set_next q (Some t) s; s2 \<leftarrow> set_prev t (Some q) s1; set_next t None s2 }"
  by (subst list_walk.simps) simp

lemma list_walk_Some:
  assumes "cells s t = Some ct" "cells s a = Some ca"
  shows "list_walk t q (Some a) s =
    (if time ct < time ca
     then do { s1 \<leftarrow> set_next q (Some t) s; s2 \<leftarrow> set_prev t (Some q) s1;
               s3 \<leftarrow> set_next t (Some a) s2; set_prev a (Some t) s3 }
     else list_walk t a (next_t ca) s)"
  by (subst list_walk.simps) (simp add: assms compare_less)

lemma lseg_next:
  assumes "lseg H p h (xs @ y # ys) None" "H y = Some cy"
  shows "next_t cy = (case ys of [] \<Rightarrow> None | z # _ \<Rightarrow> Some z)"
  using assms by (cases ys) (auto simp: lseg_append_Cons)

lemma list_walk_spec:
  assumes "lseg (cells s) None (timers s) (xs @ q # ys) None"
    and "distinct (t # xs @ q # ys)" and ct: "cells s t = Some ct"
  shows "\<exists>s'. list_walk t q (case ys of [] \<Rightarrow> None | y # _ \<Rightarrow> Some y) s = Some s' \<and>
     add_post s s' t (xs @ q # ys) (xs @ q # ins_by (key (cells s)) t ys)"
  using assms(1,2)
proof (induction ys arbitrary: xs q)
  case Nil
  then show ?case using insert_last [of s xs q t ct] ct by (simp add: list_walk_None)
next
  case (Cons y ys)
  obtain cy where cy: "cells s y = Some cy"
    using lseg_cells [OF Cons.prems(1), of y] by auto
  have kt: "key (cells s) t = time ct" and ky: "key (cells s) y = time cy"
    using ct cy by (simp_all add: key_def)
  show ?case
  proof (cases "time ct < time cy")
    case True
    then show ?thesis
      using insert_between [OF Cons.prems ct] kt ky by (simp add: list_walk_Some [OF ct cy])
  next
    case False
    have nx: "next_t cy = (case ys of [] \<Rightarrow> None | z # _ \<Rightarrow> Some z)"
      using lseg_next [of "cells s" None "timers s" "xs @ [q]" y ys cy] Cons.prems(1) cy by simp
    have "\<exists>s'. list_walk t y (next_t cy) s = Some s' \<and>
      add_post s s' t (xs @ q # y # ys) (xs @ q # y # ins_by (key (cells s)) t ys)"
      using Cons.IH [of "xs @ [q]" y] Cons.prems nx by simp
    with False kt ky show ?thesis by (simp add: list_walk_Some [OF ct cy])
  qed
qed

lemma list_add_spec:
  assumes seg: "lseg (cells s) None (timers s) xs None" and dist: "distinct (t # xs)"
    and ct: "cells s t = Some ct"
  shows "\<exists>s'. list_add t s = Some s' \<and> add_post s s' t xs (ins_by (key (cells s)) t xs)"
proof (cases xs)
  case Nil
  let ?H = "(cells s)(t \<mapsto> ct\<lparr>next_t := None, prev_t := None\<rparr>)"
  have "frame (cells s) ?H {t}" using ct by (auto simp: frame_def data_def)
  with Nil seg ct show ?thesis
    by (simp add: list_add_def set_next_def set_prev_def upd_cell_def add_post_def)
next
  case (Cons h ys)
  obtain ch where ch: "cells s h = Some ch" and h: "timers s = Some h"
    using lseg_cells [OF seg] seg Cons by fastforce
  have kt: "key (cells s) t = time ct" and kh: "key (cells s) h = time ch"
    using ct ch by (simp_all add: key_def)
  show ?thesis
  proof (cases "time ct < time ch")
    case True
    let ?H = "(cells s)(t \<mapsto> ct\<lparr>prev_t := None, next_t := Some h\<rparr>, h \<mapsto> ch\<lparr>prev_t := Some t\<rparr>)"
    have "lseg ((cells s)(h \<mapsto> ch\<lparr>prev_t := Some t\<rparr>)) (Some t) (Some h) (h # ys) None"
      using lseg_set_first_prev [of "cells s" None "timers s" h ys None ch] seg ch dist Cons
      by simp
    moreover have H: "?H = (cells s)(h \<mapsto> ch\<lparr>prev_t := Some t\<rparr>,
                          t \<mapsto> ct\<lparr>prev_t := None, next_t := Some h\<rparr>)"
      using dist Cons by (intro ext) auto
    ultimately have "lseg ?H (Some t) (Some h) (h # ys) None"
      unfolding H using dist Cons by (simp add: lseg_fresh)
    moreover have "frame (cells s) ?H (insert t (set (h # ys)))"
      using ct ch by (auto simp: frame_def data_def)
    ultimately show ?thesis
      using True ct ch h dist Cons kt kh
      by (simp add: list_add_def compare_less set_next_def set_prev_def upd_cell_def
          add_post_def)
  next
    case False
    have nx: "next_t ch = (case ys of [] \<Rightarrow> None | z # _ \<Rightarrow> Some z)"
      using lseg_next [of "cells s" None "timers s" "[]" h ys ch] seg ch Cons by simp
    show ?thesis
      using list_walk_spec [of s "[]" h ys t ct] seg dist ct ch h Cons False kt kh nx
      by (simp add: list_add_def compare_less)
  qed
qed

lemma list_remove_spec:
  assumes seg: "lseg (cells s) None (timers s) (xs @ t # ys) None"
    and dist: "distinct (xs @ t # ys)"
  shows "\<exists>s'. list_remove t s = Some s' \<and> lseg (cells s') None (timers s') (xs @ ys) None \<and>
     frame (cells s) (cells s') (set (xs @ ys)) \<and> free_timers s' = free_timers s"
proof -
  obtain ct where ct: "cells s t = Some ct" and l: "lseg (cells s) None (timers s) xs (Some t)"
    and r: "lseg (cells s) (Some t) (next_t ct) ys None" and p: "prev_t ct = last_of None xs"
    using seg unfolding lseg_append_Cons by (auto split: option.splits)
  have n: "next_t ct = (case ys of [] \<Rightarrow> None | y # _ \<Rightarrow> Some y)"
    using lseg_next [OF seg ct] .
  show ?thesis
  proof (cases xs rule: rev_cases)
    case Nil
    show ?thesis
    proof (cases ys)
      case Nil
      with \<open>xs = []\<close> ct p n show ?thesis by (simp add: list_remove_def)
    next
      case (Cons y zs)
      then obtain cy where cy: "cells s y = Some cy" using r n by (auto split: option.splits)
      have "lseg ((cells s)(y \<mapsto> cy\<lparr>prev_t := None\<rparr>)) None (Some y) (y # zs) None"
        using lseg_set_first_prev [of "cells s" "Some t" "next_t ct" y zs None cy] r cy dist Cons
        by simp
      moreover have "frame (cells s) ((cells s)(y \<mapsto> cy\<lparr>prev_t := None\<rparr>)) (set (y # zs))"
        using cy by (auto simp: frame_def)
      ultimately show ?thesis
        using Cons Nil ct p n cy by (simp add: list_remove_def set_prev_def upd_cell_def)
    qed
  next
    case (snoc us q)
    then obtain cq where cq: "cells s q = Some cq"
      using lseg_cells [OF seg, of q] by auto
    have l': "lseg ((cells s)(q \<mapsto> cq\<lparr>next_t := next_t ct\<rparr>)) None (timers s) (us @ [q]) (next_t ct)"
      using lseg_set_last_next [of "cells s" None "timers s" us q "Some t" cq] l snoc cq dist by simp
    show ?thesis
    proof (cases ys)
      case Nil
      have "frame (cells s) ((cells s)(q \<mapsto> cq\<lparr>next_t := None\<rparr>)) (insert q (set us))"
        using cq by (auto simp: frame_def)
      with l' snoc Nil ct p n cq show ?thesis
        by (simp add: list_remove_def set_next_def upd_cell_def)
    next
      case (Cons y zs)
      then obtain cy where cy: "cells s y = Some cy" using r n by (auto split: option.splits)
      let ?H = "(cells s)(q \<mapsto> cq\<lparr>next_t := Some y\<rparr>, y \<mapsto> cy\<lparr>prev_t := Some q\<rparr>)"
      have "lseg ?H None (timers s) (us @ [q]) (Some y)"
        using l' n Cons dist snoc by (simp add: lseg_fresh)
      moreover have "lseg ((cells s)(y \<mapsto> cy\<lparr>prev_t := Some q\<rparr>)) (Some q) (Some y) (y # zs) None"
        using lseg_set_first_prev [of "cells s" "Some t" "next_t ct" y zs None cy] r cy dist Cons
        by simp
      then have "lseg ?H (Some q) (Some y) (y # zs) None"
        using dist snoc Cons by (auto simp: lseg_fresh)
      ultimately have "lseg ?H None (timers s) ((us @ [q]) @ y # zs) None"
        unfolding lseg_append_Cons by simp
      moreover have "frame (cells s) ?H (set (xs @ ys))"
        using cq cy snoc Cons by (auto simp: frame_def)
      ultimately show ?thesis
        using snoc Cons ct p n cq cy dist
        by (auto simp: list_remove_def set_next_def set_prev_def upd_cell_def)
    qed
  qed
qed

subsection \<open>The sorted list as an interface\<close>

text \<open>
  What \<open>list_resort\<close>, \<open>tmr_create\<close>, \<open>tmr_reset\<close> and \<open>tmr_run\<close> rely on: an active list
  \<open>act\<close> with keys, an \<open>add\<close> that puts a cell behind every cell with a smaller or equal key,
  and a \<open>remove\<close>; both change links only (\<open>keep\<close>).
\<close>

locale sorted_links =
  fixes act :: "'s \<Rightarrow> 'a list \<Rightarrow> bool"
    and cell :: "'s \<Rightarrow> 'a \<Rightarrow> bool"
    and key_of :: "'s \<Rightarrow> 'a \<Rightarrow> 'k::linorder"
    and keep :: "'s \<Rightarrow> 's \<Rightarrow> 'a set \<Rightarrow> bool"
    and add :: "'a \<Rightarrow> 's \<Rightarrow> 's option"
    and remove :: "'a \<Rightarrow> 's \<Rightarrow> 's option"
  assumes act_distinct: "act s xs \<Longrightarrow> distinct xs"
    and add_law: "act s xs \<Longrightarrow> t \<notin> set xs \<Longrightarrow> cell s t \<Longrightarrow>
      \<exists>s'. add t s = Some s' \<and> act s' (ins_by (key_of s) t xs) \<and> keep s s' (insert t (set xs))"
    and remove_law: "act s (xs @ t # ys) \<Longrightarrow>
      \<exists>s'. remove t s = Some s' \<and> act s' (xs @ ys) \<and> keep s s' (set (xs @ ys))"
    and keep_key: "keep s s' A \<Longrightarrow> key_of s' = key_of s"
    and keep_cell: "keep s s' A \<Longrightarrow> cell s' = cell s"
    and keep_trans: "keep s s' A \<Longrightarrow> keep s' s'' B \<Longrightarrow> A \<subseteq> C \<Longrightarrow> B \<subseteq> C \<Longrightarrow> keep s s'' C"
begin

definition ordered :: "'s \<Rightarrow> 'a list \<Rightarrow> bool" where
  "ordered s xs \<longleftrightarrow> act s xs \<and> sorted (map (key_of s) xs)"

lemma add_ordered:
  assumes "ordered s xs" "t \<notin> set xs" "cell s t"
  shows "\<exists>s'. add t s = Some s' \<and> ordered s' (ins_by (key_of s) t xs) \<and> keep s s' (insert t (set xs))"
  using add_law [of s xs t] assms sorted_ins_by [of "key_of s" xs t]
  by (auto simp: ordered_def keep_key)

lemma remove_ordered:
  assumes "act s xs" "t \<in> set xs" "sorted (map (key_of s) (remove1 t xs))"
  shows "\<exists>s'. remove t s = Some s' \<and> ordered s' (remove1 t xs) \<and> keep s s' (set xs - {t})"
proof -
  obtain ys zs where xs: "xs = ys @ t # zs" and t: "t \<notin> set ys"
    using split_list_first [OF assms(2)] by blast
  with act_distinct [OF assms(1)] have "remove1 t xs = ys @ zs" "set xs - {t} = set (ys @ zs)"
    by (auto simp: remove1_append)
  with remove_law [of s ys t zs] assms xs show ?thesis
    by (auto simp: ordered_def keep_key)
qed

text \<open>Taking a cell whose key changed out and adding it again restores the order.\<close>

lemma resort_ordered:
  assumes "act s xs" "t \<in> set xs" "sorted (map (key_of s) (remove1 t xs))" "cell s t"
  shows "\<exists>s'. Option.bind (remove t s) (add t) = Some s' \<and>
    ordered s' (ins_by (key_of s) t (remove1 t xs)) \<and> keep s s' (set xs)"
proof -
  obtain s1 where s1: "remove t s = Some s1" "ordered s1 (remove1 t xs)" "keep s s1 (set xs - {t})"
    using remove_ordered [OF assms(1-3)] by blast
  have "t \<notin> set (remove1 t xs)" using act_distinct [OF assms(1)] by simp
  with s1 assms(4) obtain s2 where "add t s1 = Some s2"
    "ordered s2 (ins_by (key_of s) t (remove1 t xs))"
    "keep s1 s2 (insert t (set (remove1 t xs)))"
    using add_ordered [of s1 "remove1 t xs" t] by (auto simp: keep_key keep_cell)
  with s1 keep_trans [OF s1(3)] assms(2) show ?thesis
    by (metis Diff_subset bind.bind_lunit insert_subset set_remove1_subset)
qed

end

definition active :: "'c tmr_state \<Rightarrow> addr list \<Rightarrow> bool" where
  "active s xs \<longleftrightarrow> lseg (cells s) None (timers s) xs None \<and> distinct xs"

definition keeps :: "'c tmr_state \<Rightarrow> 'c tmr_state \<Rightarrow> addr set \<Rightarrow> bool" where
  "keeps s s' A \<longleftrightarrow> frame (cells s) (cells s') A \<and> free_timers s' = free_timers s"

lemma frame_trans: "frame H H' A \<Longrightarrow> frame H' H'' B \<Longrightarrow> A \<subseteq> C \<Longrightarrow> B \<subseteq> C \<Longrightarrow> frame H H'' C"
  unfolding frame_def by (metis subset_iff)

lemma frame_None: "frame H H' A \<Longrightarrow> H' a = None \<longleftrightarrow> H a = None"
  unfolding frame_def by (metis map_option_is_None)

interpretation tl: sorted_links active "\<lambda>s a. cells s a \<noteq> None" "\<lambda>s. key (cells s)" keeps
    list_add list_remove
proof (unfold_locales, goal_cases)
  case (2 s xs t)
  then show ?case
    using list_add_spec [of s xs t] by (auto simp: active_def keeps_def add_post_def)
next
  case (3 s xs t ys)
  then show ?case
    using list_remove_spec [of s xs t ys] by (auto simp: active_def keeps_def)
next
  case (4 s s' A)
  then show ?case by (auto simp: keeps_def frame_key)
next
  case (5 s s' A)
  then show ?case
    unfolding keeps_def fun_eq_iff using frame_None by metis
next
  case (6 s s' A s'' B C)
  then show ?case by (auto simp: keeps_def intro: frame_trans)
qed (simp add: active_def)

subsection \<open>The invariant of the timer package\<close>

text \<open>
  \<open>as\<close> is the active list and \<open>fs\<close> the free list: both well linked, disjoint, without
  repetitions, and the active one sorted by expiry time.
\<close>

definition tmr_rep :: "'c tmr_state \<Rightarrow> addr list \<Rightarrow> addr list \<Rightarrow> bool" where
  "tmr_rep s as fs \<longleftrightarrow> active s as \<and> sorted (map (key (cells s)) as) \<and>
     fseg (cells s) (free_timers s) fs \<and> distinct fs \<and> set as \<inter> set fs = {}"

definition same_data :: "'c tmr_state \<Rightarrow> 'c tmr_state \<Rightarrow> bool" where
  "same_data s s' \<longleftrightarrow> (\<forall>a. map_option data (cells s' a) = map_option data (cells s a))"

lemma tmr_rep_init: "tmr_rep tmr_init [] []"
  by (simp add: tmr_rep_def tmr_init_def active_def)

lemma tmr_rep_ordered: "tmr_rep s as fs \<Longrightarrow> tl.ordered s as"
  by (simp add: tmr_rep_def tl.ordered_def)

lemma tmr_rep_cells: "tmr_rep s as fs \<Longrightarrow> a \<in> set as \<Longrightarrow> \<exists>c. cells s a = Some c"
  by (auto simp: tmr_rep_def active_def dest: lseg_cells)

lemma keeps_same_data: "keeps s s' A \<Longrightarrow> same_data s s'"
  by (simp add: keeps_def frame_def same_data_def)

lemma same_data_cell:
  assumes "same_data s s'" "cells s a = Some c"
  shows "\<exists>c'. cells s' a = Some c' \<and> data c' = data c"
proof -
  from assms have "map_option data (cells s' a) = Some (data c)" by (simp add: same_data_def)
  then show ?thesis by auto
qed

lemma same_data_trans: "same_data s s' \<Longrightarrow> same_data s' s'' \<Longrightarrow> same_data s s''"
  by (simp add: same_data_def)

lemma lseg_upd_data:
  assumes "H a = Some c" "prev_t c' = prev_t c" "next_t c' = next_t c"
  shows "lseg (H(a \<mapsto> c')) p h xs m = lseg H p h xs m"
  using assms by (induction H p h xs m rule: lseg.induct) (auto split: option.splits)

lemma fseg_upd_data:
  assumes "H a = Some c" "next_t c' = next_t c"
  shows "fseg (H(a \<mapsto> c')) h xs = fseg H h xs"
  using assms by (induction H h xs rule: fseg.induct) (auto split: option.splits)

text \<open>Cancelling moves a timer from the active list to the front of the free list.\<close>

lemma cancel_rep:
  assumes rep: "tmr_rep s as fs" and t: "t \<in> set as"
  shows "\<exists>s'. tmr_cancel t s = Some s' \<and> tmr_rep s' (remove1 t as) (t # fs) \<and> same_data s s'"
proof -
  have act: "active s as" and dist: "distinct as" and so: "sorted (map (key (cells s)) as)"
    using rep by (auto simp: tmr_rep_def active_def)
  have "sorted (map (key (cells s)) (remove1 t as))"
    using so by (simp add: sorted_map_remove1)
  then obtain s1 where s1: "list_remove t s = Some s1" "tl.ordered s1 (remove1 t as)"
      "keeps s s1 (set as - {t})"
    using tl.remove_ordered [OF act t] by blast
  obtain c where c: "cells s1 t = Some c"
    using tmr_rep_cells [OF rep t] tl.keep_cell [OF s1(3)] by (metis option.exhaust)
  let ?c = "c\<lparr>next_t := free_timers s1, prev_t := None\<rparr>"
  let ?s = "s1\<lparr>free_timers := Some t, cells := (cells s1)(t \<mapsto> ?c)\<rparr>"
  have nt: "t \<notin> set (remove1 t as)" "t \<notin> set fs" using dist rep t by (auto simp: tmr_rep_def)
  have fs: "fseg (cells s1) (free_timers s1) fs"
    using rep s1(3) frame_fseg [of "cells s" "cells s1" "set as - {t}" fs]
    by (auto simp: tmr_rep_def keeps_def)
  have "map (key (cells ?s)) (remove1 t as) = map (key (cells s1)) (remove1 t as)"
    using nt by (intro map_cong refl) (auto simp: key_def)
  then have "sorted (map (key (cells ?s)) (remove1 t as))"
    using s1(2) by (simp only: tl.ordered_def)
  moreover have "active ?s (remove1 t as)"
    using s1(2) dist by (simp add: tl.ordered_def active_def lseg_fresh)
  moreover have "fseg (cells ?s) (free_timers ?s) (t # fs)"
    using fs nt by (simp add: fseg_fresh)
  ultimately have "tmr_rep ?s (remove1 t as) (t # fs)"
    using rep nt dist by (auto simp: tmr_rep_def)
  moreover have "same_data s ?s"
  proof (rule same_data_trans [OF keeps_same_data [OF s1(3)]])
    show "same_data s1 ?s" using c by (simp add: same_data_def data_def)
  qed
  ultimately show ?thesis
    using s1(1) c by (simp add: tmr_cancel_def set_next_def set_prev_def upd_cell_def)
qed

text \<open>Changing the expiry of an active timer and re-sorting it.\<close>

lemma retime_rep:
  assumes rep: "tmr_rep s as fs" and t: "t \<in> set as" and c: "cells s t = Some c"
    and k: "k = (key (cells s))(t := x)"
  defines "s1 \<equiv> s\<lparr>cells := (cells s)(t \<mapsto> c\<lparr>time := x\<rparr>)\<rparr>"
  shows "\<exists>s'. list_resort t s1 = Some s' \<and> tmr_rep s' (ins_by k t (remove1 t as)) fs \<and> same_data s1 s'"
proof -
  have dist: "distinct as" and so: "sorted (map (key (cells s)) as)"
    using rep by (auto simp: tmr_rep_def active_def)
  have k1: "key (cells s1) = k" using c k by (auto simp: s1_def key_def)
  have act: "active s1 as"
    using rep c by (simp add: tmr_rep_def active_def s1_def lseg_upd_data)
  have nt: "t \<notin> set (remove1 t as)" using dist by simp
  have so1: "sorted (map (key (cells s)) (remove1 t as))"
    using so by (simp add: sorted_map_remove1)
  have "map k (remove1 t as) = map (key (cells s)) (remove1 t as)"
    using nt k by (intro map_cong refl) auto
  then have "sorted (map (key (cells s1)) (remove1 t as))"
    unfolding k1 using so1 by (simp only:)
  moreover have "cells s1 t \<noteq> None" by (simp add: s1_def)
  ultimately obtain s' where s': "list_resort t s1 = Some s'"
    "tl.ordered s' (ins_by k t (remove1 t as))" "keeps s1 s' (set as)"
    using tl.resort_ordered [OF act t] by (auto simp: list_resort_def k1)
  have "fseg (cells s1) (free_timers s1) fs"
    using rep c by (simp add: tmr_rep_def s1_def fseg_upd_data)
  then have "fseg (cells s') (free_timers s') fs"
    using rep s'(3) frame_fseg [of "cells s1" "cells s'" "set as" fs]
    by (simp add: tmr_rep_def keeps_def)
  then have "tmr_rep s' (ins_by k t (remove1 t as)) fs"
    using s'(2) rep t dist by (auto simp: tmr_rep_def tl.ordered_def)
  with s' keeps_same_data show ?thesis by blast
qed

lemma reset_rep:
  assumes rep: "tmr_rep s as fs" and t: "t \<in> set as" and c: "cells s t = Some c"
    and k_def: "k = (key (cells s))(t := iperf_time_add_usecs (getnow nowP clock) (t_usecs c))"
  shows "\<exists>s'. tmr_reset nowP clock t s = Some s' \<and> tmr_rep s' (ins_by k t (remove1 t as)) fs"
  using retime_rep [OF rep t c, of k] c
  by (auto simp: tmr_reset_def upd_cell_def k_def)

text \<open>Where \<open>tmr_create\<close> takes its cell from: the free list, else \<open>malloc\<close>.\<close>

fun alloc_from :: "addr list \<Rightarrow> (addr \<times> 'c Timer) option \<Rightarrow> (addr \<times> addr list) option" where
  "alloc_from (t # fs) m = Some (t, fs)"
| "alloc_from [] (Some (a, c)) = Some (a, [])"
| "alloc_from [] None = None"

lemma create_rep:
  assumes rep: "tmr_rep s as fs"
    and fresh: "\<And>a c. malloc = Some (a, c) \<Longrightarrow> a \<notin> set as \<union> set fs"
    and al: "alloc_from fs malloc = Some (t, fs')"
    and x_def: "x = iperf_time_add_usecs (getnow nowP clock) us"
    and k_def: "k = (key (cells s))(t := x)"
  shows "\<exists>s' c. tmr_create nowP clock malloc proc us per s = Some (Some t, s') \<and>
    tmr_rep s' (ins_by k t as) fs' \<and> cells s' t = Some c \<and> data c = (proc, us, per, x)"
proof -
  have t: "t \<notin> set as" using al fresh rep
    by (cases "(fs, malloc)" rule: alloc_from.cases) (auto simp: tmr_rep_def)
  obtain c1 s1 where s1: "(case free_timers s of
        Some t \<Rightarrow> do { c \<leftarrow> cells s t; Some (Some t, s\<lparr>free_timers := next_t c\<rparr>) }
      | None \<Rightarrow> (case malloc of Some (a, c) \<Rightarrow> Some (Some a, s\<lparr>cells := (cells s)(a \<mapsto> c)\<rparr>)
                  | None \<Rightarrow> Some (None, s))) = Some (Some t, s1)"
    and c1: "cells s1 t = Some c1" and ac: "active s1 as" and k1: "\<forall>a. a \<noteq> t \<longrightarrow> cells s1 a = cells s a"
    and f1: "fseg (cells s1) (free_timers s1) fs'" and d1: "distinct fs'" "set fs' \<subseteq> set fs" "t \<notin> set fs'"
  proof (cases fs)
    case Nil
    with al obtain c where "malloc = Some (t, c)" "fs' = []"
      by (cases "(fs, malloc)" rule: alloc_from.cases) auto
    with that [of "s\<lparr>cells := (cells s)(t \<mapsto> c)\<rparr>" c] Nil rep t show thesis
      by (auto simp: tmr_rep_def active_def lseg_fresh)
  next
    case (Cons f fs'')
    with al have "f = t" "fs'' = fs'" by auto
    moreover from this Cons rep obtain c where "cells s t = Some c" "free_timers s = Some t"
      "fseg (cells s) (next_t c) fs'" by (auto simp: tmr_rep_def split: option.splits)
    ultimately show thesis
      using that [of "s\<lparr>free_timers := next_t c\<rparr>" c] Cons rep
      by (auto simp: tmr_rep_def active_def)
  qed
  let ?c = "c1\<lparr>timer_proc := proc, t_usecs := us, periodic := per, time := x\<rparr>"
  define s2 where "s2 = s1\<lparr>cells := (cells s1)(t \<mapsto> ?c)\<rparr>"
  have key: "key (cells s2) = k" using k1 by (auto simp: k_def key_def s2_def)
  have "map k as = map (key (cells s)) as" using t by (intro map_cong refl) (auto simp: k_def)
  then have "sorted (map (key (cells s2)) as)" unfolding key using rep by (simp only: tmr_rep_def)
  moreover have "active s2 as" using ac t by (simp add: active_def lseg_fresh s2_def)
  moreover have "cells s2 t \<noteq> None" by (simp add: s2_def)
  ultimately obtain s' where s': "list_add t s2 = Some s'" "tl.ordered s' (ins_by k t as)"
      "keeps s2 s' (insert t (set as))"
    using tl.add_ordered [of s2 as t] t by (auto simp: tl.ordered_def key)
  obtain c where "cells s' t = Some c" "data c = (proc, us, per, x)"
    using same_data_cell [OF keeps_same_data [OF s'(3)], of t ?c] by (auto simp: data_def s2_def)
  moreover have "fseg (cells s') (free_timers s') fs'"
    using s'(3) f1 d1 rep t frame_fseg [of "cells s2" "cells s'" "insert t (set as)" fs']
    by (auto simp: keeps_def tmr_rep_def fseg_fresh s2_def)
  then have "tmr_rep s' (ins_by k t as) fs'"
    using s'(2) d1 rep by (auto simp: tmr_rep_def tl.ordered_def)
  ultimately show ?thesis
    using s1 s'(1) c1 by (simp add: tmr_create_def upd_cell_def x_def Let_def s2_def)
qed

lemma create_fails:
  assumes "tmr_rep s as []"
  shows "tmr_create nowP clock None proc us per s = Some (None, s)"
  using assms by (simp add: tmr_create_def tmr_rep_def)

lemma cleanup_rep:
  assumes "tmr_rep s as fs"
  shows "\<exists>s'. tmr_cleanup s = Some s' \<and> tmr_rep s' as [] \<and> (\<forall>a\<in>set fs. cells s' a = None) \<and>
    (\<forall>a. a \<notin> set fs \<longrightarrow> cells s' a = cells s a)"
  using assms
proof (induction fs arbitrary: s)
  case Nil
  then show ?case by (subst tmr_cleanup.simps) (simp add: tmr_rep_def)
next
  case (Cons f fs)
  obtain c where f: "free_timers s = Some f" "cells s f = Some c" "fseg (cells s) (next_t c) fs"
    using Cons.prems by (auto simp: tmr_rep_def split: option.splits)
  let ?s = "s\<lparr>free_timers := next_t c, cells := (cells s)(f := None)\<rparr>"
  have nf: "f \<notin> set as" "f \<notin> set fs" using Cons.prems by (auto simp: tmr_rep_def)
  have "map (key (cells ?s)) as = map (key (cells s)) as"
    using nf by (intro map_cong refl) (auto simp: key_def)
  then have "sorted (map (key (cells ?s)) as)" using Cons.prems by (simp only: tmr_rep_def)
  then have "tmr_rep ?s as fs"
    using Cons.prems f nf by (simp add: tmr_rep_def active_def lseg_fresh fseg_fresh)
  from Cons.IH [OF this] f nf show ?case
    by (subst tmr_cleanup.simps) auto
qed

lemma cancel_all_rep:
  assumes "tmr_rep s as fs"
  shows "\<exists>s'. tmr_cancel_all s = Some s' \<and> tmr_rep s' [] (rev as @ fs) \<and> same_data s s'"
  using assms
proof (induction as arbitrary: s fs)
  case Nil
  then show ?case
    by (subst tmr_cancel_all.simps) (simp add: tmr_rep_def active_def same_data_def)
next
  case (Cons a as)
  have "timers s = Some a" using Cons.prems by (simp add: tmr_rep_def active_def)
  moreover obtain s1 where s1: "tmr_cancel a s = Some s1" "tmr_rep s1 as (a # fs)" "same_data s s1"
    using cancel_rep [OF Cons.prems, of a] by auto
  ultimately show ?case using Cons.IH [OF s1(2)] same_data_trans [OF s1(3)]
    by (subst tmr_cancel_all.simps) auto
qed

lemma timeout_rep:
  assumes rep: "tmr_rep s as fs" and ne: "as \<noteq> []"
    and ok: "\<forall>a\<in>set as. time_ok (key (cells s) a)" "time_ok now"
  shows "\<exists>tv. tmr_timeout (Some now) clock s = Some (Some tv) \<and> unat (to_usec tv) < 1000000 \<and>
    unat (to_sec tv) * 1000000 + unat (to_usec tv) = time_us (Min (key (cells s) ` set as)) - time_us now"
proof -
  obtain h as' where as: "as = h # as'" using ne by (cases as) auto
  have "timers s = Some h" using rep as by (simp add: tmr_rep_def active_def)
  moreover obtain c where c: "cells s h = Some c" using tmr_rep_cells [OF rep, of h] as by auto
  moreover have k: "key (cells s) h = time c" using c by (simp add: key_def)
  have "Min (key (cells s) ` set as) = time c"
    using rep as k by (intro Min_eqI) (auto simp: tmr_rep_def)
  moreover have ok': "time_ok (time c)" using ok(1) as k by auto
  define us where "us = (if fst (iperf_time_diff (time c) now) then 0
    else iperf_time_in_usecs (snd (iperf_time_diff (time c) now)))"
  have "unat us = time_us (time c) - time_us now"
    using ok' ok(2) time_us_le [OF ok' ok(2)]
    by (simp add: us_def diff_past in_usecs_time_us diff_time_us)
  moreover have "unat (us div 1000000) * 1000000 + unat (us mod 1000000) = unat us"
    by (simp add: unat_div unat_mod)
  moreover have "unat (us mod 1000000) < 1000000" by (simp add: unat_mod)
  ultimately show ?thesis
    by (auto simp: tmr_timeout_def getnow_def us_def Let_def split: prod.splits)
qed

text \<open>Running the expired timers.\<close>

definition runnable :: "iperf_time \<Rightarrow> 'c tmr_state \<Rightarrow> addr list \<Rightarrow> bool" where
  "runnable now s as \<longleftrightarrow> (\<forall>a\<in>set as. case cells s a of None \<Rightarrow> False | Some c \<Rightarrow>
     time_ok (time c) \<and> (periodic c \<longrightarrow> 0 < t_usecs c \<and>
       time_us now + unat (t_usecs c) < 4294967296000000))"

definition is_periodic :: "'c tmr_state \<Rightarrow> addr \<Rightarrow> bool" where
  "is_periodic s a = (case cells s a of None \<Rightarrow> False | Some c \<Rightarrow> periodic c)"

definition proc_of :: "'c tmr_state \<Rightarrow> addr \<Rightarrow> 'c option" where
  "proc_of s a = map_option timer_proc (cells s a)"

lemma ins_by_split:
  "\<exists>pre' ys'. ins_by k a (pre @ b # ys) = pre' @ b # ys' \<and> set pre' \<subseteq> insert a (set pre) \<and>
     set ys \<subseteq> set ys' \<and> set ys' \<subseteq> insert a (set ys)"
proof (induction pre)
  case Nil
  show ?case
  proof (cases "k a < k b")
    case True
    then show ?thesis by (intro exI [of _ "[a]"] exI [of _ ys]) auto
  next
    case False
    then show ?thesis by (intro exI [of _ "[]"] exI [of _ "ins_by k a ys"]) auto
  qed
next
  case (Cons p pre)
  then obtain pre' ys' where IH: "ins_by k a (pre @ b # ys) = pre' @ b # ys'"
    "set pre' \<subseteq> insert a (set pre)" "set ys \<subseteq> set ys'" "set ys' \<subseteq> insert a (set ys)" by blast
  show ?case
  proof (cases "k a < k p")
    case True
    then show ?thesis by (intro exI [of _ "a # p # pre"] exI [of _ ys]) auto
  next
    case False
    then show ?thesis using IH by (intro exI [of _ "p # pre'"] exI [of _ ys']) auto
  qed
qed

definition rank :: "iperf_time \<Rightarrow> 'c tmr_state \<Rightarrow> addr list \<Rightarrow> nat" where
  "rank now s as = (\<Sum>a\<in>set as. Suc (time_us now) - time_us (key (cells s) a))"

lemma same_data_views:
  assumes "map_option data (cells s' a) = map_option data (cells s a)"
  shows "key (cells s') a = key (cells s) a" "is_periodic s' a = is_periodic s a"
    "proc_of s' a = proc_of s a"
  using assms by (cases "cells s a"; cases "cells s' a";
      auto simp: key_def data_def is_periodic_def proc_of_def)+

lemma runnable_data:
  assumes "runnable now s as" "\<And>a. a \<in> set as' \<Longrightarrow> a \<in> set as"
    "\<And>a. a \<in> set as' \<Longrightarrow> map_option data (cells s' a) = map_option data (cells s a)"
  shows "runnable now s' as'"
  unfolding runnable_def
proof
  fix a assume "a \<in> set as'"
  with assms have "map_option data (cells s' a) = map_option data (cells s a)"
    "case cells s a of None \<Rightarrow> False | Some c \<Rightarrow> time_ok (time c) \<and>
      (periodic c \<longrightarrow> 0 < t_usecs c \<and> time_us now + unat (t_usecs c) < 4294967296000000)"
    by (auto simp: runnable_def)
  then show "case cells s' a of None \<Rightarrow> False | Some c \<Rightarrow> time_ok (time c) \<and>
      (periodic c \<longrightarrow> 0 < t_usecs c \<and> time_us now + unat (t_usecs c) < 4294967296000000)"
    by (cases "cells s a"; cases "cells s' a") (auto simp: data_def)
qed

text \<open>One expired periodic timer: rescheduled by its period, everything else untouched.\<close>

lemma run_periodic:
  assumes rep: "tmr_rep s (pre @ a # suf) fs" and rn: "runnable now s (pre @ a # suf)"
    and c: "cells s a = Some c" and per: "periodic c" and le: "time c \<le> now" "time_ok now"
  defines "x \<equiv> iperf_time_add_usecs (time c) (t_usecs c)"
  defines "k \<equiv> (key (cells s))(a := x)"
  shows "\<exists>s2. list_resort a (s\<lparr>cells := (cells s)(a \<mapsto> c\<lparr>time := x\<rparr>)\<rparr>) = Some s2 \<and>
    tmr_rep s2 (ins_by k a (pre @ suf)) fs \<and> runnable now s2 (ins_by k a (pre @ suf)) \<and>
    (\<forall>b. b \<noteq> a \<longrightarrow> map_option data (cells s2 b) = map_option data (cells s b)) \<and>
    is_periodic s2 a \<and> proc_of s2 a = proc_of s a \<and>
    rank now s2 (ins_by k a (pre @ suf)) < rank now s (pre @ a # suf)"
proof -
  have dist: "distinct (pre @ a # suf)" using rep by (simp add: tmr_rep_def active_def)
  then have rem: "remove1 a (pre @ a # suf) = pre @ suf" by (simp add: remove1_append)
  obtain s2 where s2: "list_resort a (s\<lparr>cells := (cells s)(a \<mapsto> c\<lparr>time := x\<rparr>)\<rparr>) = Some s2"
    "tmr_rep s2 (ins_by k a (pre @ suf)) fs"
    "same_data (s\<lparr>cells := (cells s)(a \<mapsto> c\<lparr>time := x\<rparr>)\<rparr>) s2"
    using retime_rep [OF rep _ c, of k x] rem by (auto simp: k_def)
  have oth: "map_option data (cells s2 b) = map_option data (cells s b)" if "b \<noteq> a" for b
    using s2(3) that by (simp add: same_data_def)
  obtain c2 where c2: "cells s2 a = Some c2" "data c2 = data (c\<lparr>time := x\<rparr>)"
    using same_data_cell [OF s2(3), of a] by auto
  have f: "time c2 = x" "t_usecs c2 = t_usecs c" "periodic c2" "timer_proc c2 = timer_proc c"
    using c2(2) per by (auto simp: data_def)
  have rc: "time_ok (time c)" "0 < t_usecs c" "time_us now + unat (t_usecs c) < 4294967296000000"
    using rn c per by (auto simp: runnable_def)
  have tn: "time_us (time c) \<le> time_us now" using le time_us_le [OF rc(1) le(2)] by simp
  have "time_us x = time_us (time c) + unat (t_usecs c)"
    using rc(3) tn unfolding x_def by (intro add_usecs_time_us) simp
  moreover have "0 < unat (t_usecs c)" using rc(2) by (simp add: word_less_nat_alt)
  ultimately have lt: "Suc (time_us now) - time_us x < Suc (time_us now) - time_us (time c)"
    using tn by linarith
  have oth': "map_option data (cells s2 b) = map_option data (cells s b)" if "b \<in> set (pre @ suf)" for b
    by (rule oth) (use that dist in auto)
  have "runnable now s2 (pre @ suf)"
    by (rule runnable_data [OF rn _ oth']) auto
  then have "runnable now s2 (ins_by k a (pre @ suf))"
    using c2(1) f rc by (auto simp: runnable_def x_def)
  moreover have "rank now s2 (ins_by k a (pre @ suf)) < rank now s (pre @ a # suf)"
  proof -
    have "(\<Sum>b\<in>set (pre @ suf). Suc (time_us now) - time_us (key (cells s2) b)) =
          (\<Sum>b\<in>set (pre @ suf). Suc (time_us now) - time_us (key (cells s) b))"
      using same_data_views(1) [OF oth'] by (intro sum.cong refl) simp
    moreover have "set (pre @ a # suf) = insert a (set (pre @ suf))" "a \<notin> set (pre @ suf)"
      using dist by auto
    moreover have "key (cells s2) a = x" "key (cells s) a = time c"
      using c2(1) f c by (simp_all add: key_def)
    ultimately show ?thesis using lt by (simp add: rank_def)
  qed
  ultimately show ?thesis
    using s2 oth c2(1) f c by (auto simp: is_periodic_def proc_of_def)
qed

text \<open>One expired one-shot timer: cancelled.\<close>

lemma run_one_shot:
  assumes rep: "tmr_rep s (pre @ a # suf) fs" and rn: "runnable now s (pre @ a # suf)"
    and c: "cells s a = Some c" and le: "time c \<le> now" "time_ok now"
  shows "\<exists>s2. tmr_cancel a s = Some s2 \<and> tmr_rep s2 (pre @ suf) (a # fs) \<and>
    runnable now s2 (pre @ suf) \<and> same_data s s2 \<and>
    rank now s2 (pre @ suf) < rank now s (pre @ a # suf)"
proof -
  have dist: "distinct (pre @ a # suf)" using rep by (simp add: tmr_rep_def active_def)
  then have rem: "remove1 a (pre @ a # suf) = pre @ suf" by (simp add: remove1_append)
  obtain s2 where s2: "tmr_cancel a s = Some s2" "tmr_rep s2 (pre @ suf) (a # fs)" "same_data s s2"
    using cancel_rep [OF rep, of a] rem by auto
  then have d: "map_option data (cells s2 b) = map_option data (cells s b)" for b
    by (simp add: same_data_def)
  have "time_ok (time c)" using rn c by (auto simp: runnable_def)
  then have "time_us (time c) \<le> time_us now" using le time_us_le by blast
  moreover have "key (cells s) a = time c" using c by (simp add: key_def)
  moreover have "a \<notin> set (pre @ suf)" using dist by auto
  ultimately have "rank now s2 (pre @ suf) < rank now s (pre @ a # suf)"
    by (simp add: rank_def same_data_views(1) [OF d] Suc_diff_le)
  moreover have "runnable now s2 (pre @ suf)" by (rule runnable_data [OF rn _ d]) auto
  ultimately show ?thesis using s2 by blast
qed

definition fired :: "iperf_time \<Rightarrow> 'c tmr_state \<Rightarrow> addr list \<Rightarrow> 'c option set" where
  "fired now s as = proc_of s ` {a\<in>set as. key (cells s) a \<le> now}"

definition surviving :: "iperf_time \<Rightarrow> 'c tmr_state \<Rightarrow> addr list \<Rightarrow> addr set" where
  "surviving now s as = {a\<in>set as. is_periodic s a \<or> now < key (cells s) a}"

abbreviation first_of :: "addr list \<Rightarrow> addr option" where
  "first_of xs \<equiv> (case xs of [] \<Rightarrow> None | a # _ \<Rightarrow> Some a)"

lemma ins_by_cursor:
  "\<exists>pre' suf'. ins_by k a (pre @ suf) = pre' @ suf' \<and> set pre' \<subseteq> insert a (set pre) \<and>
     set suf \<subseteq> set suf' \<and> set suf' \<subseteq> insert a (set suf) \<and> first_of suf' = first_of suf"
proof (cases suf)
  case Nil
  then show ?thesis by (intro exI [of _ "ins_by k a pre"] exI [of _ "[]"]) simp
next
  case (Cons b ys)
  obtain pre' ys' where "ins_by k a (pre @ b # ys) = pre' @ b # ys'" "set pre' \<subseteq> insert a (set pre)"
    "set ys \<subseteq> set ys'" "set ys' \<subseteq> insert a (set ys)" using ins_by_split [of k a pre b ys] by blast
  then show ?thesis using Cons by (intro exI [of _ pre'] exI [of _ "b # ys'"]) auto
qed

lemma tmr_run_loop_stop:
  "tmr_run_loop cb now None es = Some es"
  "cells (snd es) a = Some c \<Longrightarrow> now < time c \<Longrightarrow> tmr_run_loop cb now (Some a) es = Some es"
  by (subst tmr_run_loop.simps, simp add: compare_greater)+

lemma tmr_run_loop_step:
  assumes "cb (timer_proc c) now (e, s) = Some (e', s)" "cells s a = Some c" "\<not> now < time c"
  shows "tmr_run_loop cb now (Some a) (e, s) =
    Option.bind (if periodic c
       then list_resort a (s\<lparr>cells := (cells s)(a \<mapsto> c\<lparr>time := iperf_time_add_usecs (time c) (t_usecs c)\<rparr>)\<rparr>)
       else tmr_cancel a s) (\<lambda>s2. tmr_run_loop cb now (next_t c) (e', s2))"
  using assms by (subst tmr_run_loop.simps) (simp add: compare_greater upd_cell_def)

lemma tmr_rep_next:
  assumes "tmr_rep s (pre @ a # suf) fs" "cells s a = Some c"
  shows "next_t c = (case suf of [] \<Rightarrow> None | b # _ \<Rightarrow> Some b)"
  using lseg_next [of "cells s" None "timers s" pre a suf c] assms by (simp add: tmr_rep_def active_def)

lemma fired_step:
  assumes "suf = a # suf'" "cells s a = Some c" "time c \<le> now"
    and d: "\<forall>b. b \<noteq> a \<longrightarrow> map_option data (cells s2 b) = map_option data (cells s b)"
      "proc_of s2 a = proc_of s a"
    and sub: "set suf' \<subseteq> set suf2" "set suf2 \<subseteq> insert a (set suf')"
    and ps: "fired now s2 suf2 = Some ` set ps"
  shows "fired now s suf = Some ` set (timer_proc c # ps)"
proof -
  have p: "proc_of s a = Some (timer_proc c)" using assms(2) by (simp add: proc_of_def)
  have v: "key (cells s2) b = key (cells s) b" "proc_of s2 b = proc_of s b" if "b \<noteq> a" for b
    using same_data_views [of s2 b s] d(1) that by auto
  have "key (cells s) a \<le> now" using assms(2,3) by (simp add: key_def)
  then have "fired now s suf = insert (Some (timer_proc c)) (proc_of s ` {b \<in> set suf'. key (cells s) b \<le> now})"
    using assms(1) p unfolding fired_def by (auto intro: rev_image_eqI [of a])
  also have "\<dots> = insert (Some (timer_proc c)) (fired now s2 suf2)"
  proof -
    have "proc_of s b \<in> insert (Some (timer_proc c)) (fired now s2 suf2)"
      if "b \<in> set suf'" "key (cells s) b \<le> now" for b
      using that sub(1) v p by (cases "b = a") (auto simp: fired_def intro!: rev_image_eqI [of b])
    moreover have "proc_of s2 b \<in> insert (Some (timer_proc c))
        (proc_of s ` {b \<in> set suf'. key (cells s) b \<le> now})"
      if "b \<in> set suf2" "key (cells s2) b \<le> now" for b
      using that sub(2) v p d(2) by (cases "b = a") auto
    ultimately show ?thesis by (auto simp: fired_def)
  qed
  finally show ?thesis using ps by simp
qed

text \<open>
  What a run of the loop from the cursor \<open>suf\<close> on promises: it ends, without an invalid
  access, in a well-linked state; the surviving timers are the periodic and the unexpired
  ones; the callbacks run are those of the expired timers at or after the cursor.
\<close>

definition run_ok ::
  "('c \<Rightarrow> iperf_time \<Rightarrow> 'e \<times> 'c tmr_state \<Rightarrow> ('e \<times> 'c tmr_state) option) \<Rightarrow> ('c \<Rightarrow> 'e \<Rightarrow> 'e) \<Rightarrow>
   iperf_time \<Rightarrow> addr list \<Rightarrow> addr list \<Rightarrow> 'e \<Rightarrow> 'c tmr_state \<Rightarrow> bool" where
  "run_ok cb f now pre suf e s \<longleftrightarrow>
     (\<exists>ps s' as' fs'. tmr_run_loop cb now (first_of suf) (e, s) = Some (fold f ps e, s') \<and>
        tmr_rep s' as' fs' \<and> set as' = surviving now s (pre @ suf) \<and>
        fired now s suf = Some ` set ps)"

lemma run_ok_stop:
  assumes "tmr_rep s (pre @ suf) fs" "Ball (set pre) (is_periodic s)"
    "\<forall>a\<in>set suf. now < key (cells s) a"
  shows "run_ok cb f now pre suf e s"
proof -
  have "tmr_run_loop cb now (first_of suf) (e, s) = Some (e, s)"
  proof (cases suf)
    case (Cons a ys)
    obtain c where "cells s a = Some c" using tmr_rep_cells [OF assms(1), of a] Cons by auto
    then show ?thesis
      using tmr_run_loop_stop(2) [of "(e, s)" a c now cb] assms(3) Cons by (simp add: key_def)
  qed (simp add: tmr_run_loop_stop)
  moreover have "set (pre @ suf) = surviving now s (pre @ suf)" "fired now s suf = {}"
    using assms(2,3) by (auto simp: surviving_def fired_def)
  ultimately show ?thesis
    using assms(1) unfolding run_ok_def
    by (intro exI [of _ "[]"] exI [of _ s] exI [of _ "pre @ suf"] exI [of _ fs]) simp
qed

lemma run_ok_step:
  assumes rep: "tmr_rep s (pre @ a # suf) fs" and c: "cells s a = Some c" and le: "time c \<le> now"
    and quiet: "cb (timer_proc c) now (e, s) = Some (f (timer_proc c) e, s)"
    and s2: "(if periodic c then list_resort a (s\<lparr>cells := (cells s)(a \<mapsto> c\<lparr>time :=
        iperf_time_add_usecs (time c) (t_usecs c)\<rparr>)\<rparr>) else tmr_cancel a s) = Some s2"
    and IH: "run_ok cb f now pre2 suf2 (f (timer_proc c) e) s2"
    and d: "\<forall>b. b \<noteq> a \<longrightarrow> map_option data (cells s2 b) = map_option data (cells s b)"
      "proc_of s2 a = proc_of s a"
    and sub: "set suf \<subseteq> set suf2" "set suf2 \<subseteq> insert a (set suf)" "first_of suf2 = first_of suf"
    and sv: "surviving now s2 (pre2 @ suf2) = surviving now s (pre @ a # suf)"
  shows "run_ok cb f now pre (a # suf) e s"
proof -
  obtain ps s' as' fs' where
    r: "tmr_run_loop cb now (first_of suf2) (f (timer_proc c) e, s2) =
          Some (fold f ps (f (timer_proc c) e), s')"
    "tmr_rep s' as' fs'" "set as' = surviving now s2 (pre2 @ suf2)"
    "fired now s2 suf2 = Some ` set ps"
    using IH unfolding run_ok_def by blast
  have "fired now s (a # suf) = Some ` set (timer_proc c # ps)"
    by (rule fired_step [OF refl c le d sub(1,2) r(4)])
  moreover have "\<not> now < time c" using le by simp
  ultimately show ?thesis
    using tmr_run_loop_step [of cb c now e s "f (timer_proc c) e" a, OF quiet c] s2 r sub(3) sv
      tmr_rep_next [OF rep c] unfolding run_ok_def
    by (intro exI [of _ "timer_proc c # ps"] exI [of _ s'] exI [of _ as'] exI [of _ fs']) simp
qed

lemma surviving_resorted:
  assumes "\<forall>b. b \<noteq> a \<longrightarrow> map_option data (cells s2 b) = map_option data (cells s b)"
    "is_periodic s2 a" "is_periodic s a" "set as2 = set as"
  shows "surviving now s2 as2 = surviving now s as"
proof -
  have "(is_periodic s2 b \<or> now < key (cells s2) b) = (is_periodic s b \<or> now < key (cells s) b)" for b
    using same_data_views [of s2 b s] assms(1-3) by (cases "b = a") auto
  then show ?thesis using assms(4) by (simp add: surviving_def)
qed

lemma run_loop:
  assumes quiet: "\<And>p e s. cb p now (e, s) = Some (f p e, s)" and now: "time_ok now"
  shows "tmr_rep s (pre @ suf) fs \<Longrightarrow> runnable now s (pre @ suf) \<Longrightarrow>
    \<forall>a\<in>set pre. is_periodic s a \<Longrightarrow> run_ok cb f now pre suf e s"
proof (induction "rank now s (pre @ suf)" arbitrary: s pre suf fs e rule: less_induct)
  case less
  show ?case
  proof (cases "\<forall>a\<in>set suf. now < key (cells s) a")
    case True
    then show ?thesis by (rule run_ok_stop [OF less.prems(1,3)])
  next
    case False
    then obtain a suf' where suf: "suf = a # suf'" by (cases suf) auto
    note rep = less.prems(1) [unfolded suf] and rn = less.prems(2) [unfolded suf]
    obtain c where c: "cells s a = Some c" using tmr_rep_cells [OF rep, of a] by auto
    then have k: "key (cells s) a = time c" by (simp add: key_def)
    have le: "time c \<le> now"
      using False rep suf k by (force simp: tmr_rep_def sorted_append)
    show ?thesis
    proof (cases "periodic c")
      case True
      define x where "x = iperf_time_add_usecs (time c) (t_usecs c)"
      define xs where "xs = ins_by ((key (cells s))(a := x)) a (pre @ suf')"
      obtain s2 where s2: "list_resort a (s\<lparr>cells := (cells s)(a \<mapsto> c\<lparr>time := x\<rparr>)\<rparr>) = Some s2"
        "tmr_rep s2 xs fs" "runnable now s2 xs" "rank now s2 xs < rank now s (pre @ suf)"
        and d: "\<forall>b. b \<noteq> a \<longrightarrow> map_option data (cells s2 b) = map_option data (cells s b)"
        "is_periodic s2 a" "proc_of s2 a = proc_of s a"
        using run_periodic [OF rep rn c True le now] unfolding suf xs_def x_def by blast
      obtain pre2 suf2 where p2: "xs = pre2 @ suf2" "set pre2 \<subseteq> insert a (set pre)"
        "set suf' \<subseteq> set suf2" "set suf2 \<subseteq> insert a (set suf')" "first_of suf2 = first_of suf'"
        using ins_by_cursor [of "(key (cells s))(a := x)" a pre suf'] unfolding xs_def by blast
      have "set (pre2 @ suf2) = set (pre @ suf)"
        unfolding p2(1) [symmetric] by (simp add: xs_def suf)
      moreover have "is_periodic s a" using c True by (simp add: is_periodic_def)
      ultimately have "surviving now s2 (pre2 @ suf2) = surviving now s (pre @ suf)"
        using surviving_resorted d(1,2) by metis
      moreover have "is_periodic s2 b" if "b \<in> set pre2" for b
        using that p2(2) less.prems(3) d(1,2) same_data_views(2) [of s2 b s] by (cases "b = a") auto
      then have "run_ok cb f now pre2 suf2 (f (timer_proc c) e) s2"
        using less.hyps s2 p2(1) by blast
      ultimately show ?thesis
        unfolding suf using run_ok_step [where f = f and cb = cb, OF rep c le quiet _ _ d(1,3) p2(3-5)] True s2(1)
        by (simp add: x_def)
    next
      case False
      obtain s2 where s2: "tmr_cancel a s = Some s2" "tmr_rep s2 (pre @ suf') (a # fs)"
        "runnable now s2 (pre @ suf')" "same_data s s2"
        "rank now s2 (pre @ suf') < rank now s (pre @ suf)"
        using run_one_shot [OF rep rn c le now] unfolding suf by blast
      have d: "map_option data (cells s2 b) = map_option data (cells s b)" for b
        using s2(4) by (simp add: same_data_def)
      have "\<not> is_periodic s a" "\<not> now < key (cells s) a"
        using c False k le by (simp_all add: is_periodic_def)
      then have sv: "surviving now s2 (pre @ suf') = surviving now s (pre @ suf)"
        using suf by (auto simp: surviving_def same_data_views [OF d])
      have "run_ok cb f now pre suf' (f (timer_proc c) e) s2"
        using less.hyps [OF s2(5) s2(2,3)] less.prems(3) by (simp add: same_data_views [OF d])
      then show ?thesis
        unfolding suf using run_ok_step [where f = f and cb = cb, OF rep c le quiet, of s2 pre suf'] False s2(1) d sv
        by (auto simp: same_data_views [OF d] suf)
    qed
  qed
qed

subsection \<open>Properties\<close>

text \<open>
  C2. \<open>tmr_create\<close> never touches an invalid cell; on a well-linked timer state it takes its
  cell from the free list, or from \<open>malloc\<close> when that is empty, and inserts it behind every
  timer that does not expire later, so that the list stays sorted by expiry.
\<close>

theorem tmr_create_inserts_sorted:
  assumes "tmr_rep s as fs" "\<forall>a c. malloc = Some (a, c) \<longrightarrow> a \<notin> set as \<union> set fs"
    "alloc_from fs malloc = Some (t, fs')"
  shows "\<exists>s' c. tmr_create nowP clock malloc proc us per s = Some (Some t, s') \<and>
    tmr_rep s' (ins_by ((key (cells s))(t := iperf_time_add_usecs (getnow nowP clock) us)) t as) fs' \<and>
    cells s' t = Some c \<and> timer_proc c = proc \<and> t_usecs c = us \<and> periodic c = per \<and>
    time c = iperf_time_add_usecs (getnow nowP clock) us"
  using create_rep [OF assms(1) _ assms(3) refl refl, where nowP = nowP and clock = clock and us = us
      and proc = proc and per = per] assms(2)
  by (fastforce simp: data_def)

definition blank_timer :: "nat Timer" where
  "blank_timer = \<lparr>timer_proc = 0, t_usecs = 0, periodic = False, time = \<lparr>secs = 0, usecs = 0\<rparr>,
     prev_t = None, next_t = None\<rparr>"

definition two_timers :: "nat tmr_state" where
  "two_timers = \<lparr>cells = [
     1 \<mapsto> \<lparr>timer_proc = 10, t_usecs = 500000, periodic = True, time = \<lparr>secs = 3, usecs = 0\<rparr>,
           prev_t = None, next_t = Some 2\<rparr>,
     2 \<mapsto> \<lparr>timer_proc = 20, t_usecs = 0, periodic = False, time = \<lparr>secs = 4, usecs = 5\<rparr>,
           prev_t = Some 1, next_t = None\<rparr>],
     timers = Some 1, free_timers = None\<rparr>"

lemma two_timers_rep: "tmr_rep two_timers [1, 2] []"
  by (simp add: tmr_rep_def active_def two_timers_def key_def iperf_time_le_iff)

theorem tmr_create_inserts_sorted_witness:
  "\<exists>s'. tmr_create None \<lparr>secs = 3, usecs = 5\<rparr> (Some (3, blank_timer)) 30 1 False two_timers = Some (Some 3, s') \<and>
     tmr_rep s' [1, 3, 2] []"
  using tmr_create_inserts_sorted [OF two_timers_rep, of "Some (3, blank_timer)" 3 "[]" None
      "\<lparr>secs = 3, usecs = 5\<rparr>" 30 1 False]
  by (auto simp: two_timers_def key_def getnow_def iperf_time_less_iff iperf_time_add_usecs_def Let_def)



text \<open>
  C4. \<open>tmr_timeout\<close> is the wait until the earliest active timer: the seconds and microseconds
  it fills in are the distance from now to the minimum expiry, zero when that has passed.
\<close>

theorem tmr_timeout_is_min_wait:
  assumes "tmr_rep s as fs" "as \<noteq> []" "\<forall>a\<in>set as. time_ok (key (cells s) a)" "time_ok now"
  shows "\<exists>tv. tmr_timeout (Some now) clock s = Some (Some tv) \<and> unat (to_usec tv) < 1000000 \<and>
    unat (to_sec tv) * 1000000 + unat (to_usec tv) = time_us (Min (key (cells s) ` set as)) - time_us now"
  by (rule timeout_rep [OF assms])

theorem tmr_timeout_is_min_wait_witness:
  "\<exists>tv. tmr_timeout (Some \<lparr>secs = 1, usecs = 999999\<rparr>) \<lparr>secs = 0, usecs = 0\<rparr> two_timers = Some (Some tv) \<and>
     unat (to_sec tv) * 1000000 + unat (to_usec tv) = 1000001"
proof -
  have "Min (key (cells two_timers) ` set [1, 2]) = \<lparr>secs = 3, usecs = 0\<rparr>"
    by (simp add: two_timers_def key_def min_def iperf_time_le_iff)
  then show ?thesis
    using tmr_timeout_is_min_wait [OF two_timers_rep, of "\<lparr>secs = 1, usecs = 999999\<rparr>" "\<lparr>secs = 0, usecs = 0\<rparr>"]
    by (auto simp: two_timers_def key_def time_ok_def time_us_def)
qed





end
