(* ===== verification/Bounded_Output.thy ===== *)
theory Bounded_Output
  imports Prelude
begin

text \<open>
  The bounded reader of result frames (\<open>iperf_bounded_output.c\<close>): a streaming JSON scanner
  that copies the core fields of a frame into a bounded buffer, keeps the optional server
  output up to a limit, and drops the rest. The parser is a record with the fields of
  \<open>struct parser\<close>; the reader callback, \<open>malloc\<close> and \<open>cJSON_ParseWithLengthOpts\<close> are
  arguments. Counters of type \<open>size_t\<close> and \<open>uint32_t\<close> are natural numbers: the invariant
  below bounds all of them by the 64 MiB frame limit. \<open>None\<close> is a write outside a buffer,
  a read of a stale input byte, or a loop that does not end; the lemmas show that it never
  occurs, for every behaviour of the reader.
\<close>

subsection \<open>Data\<close>

datatype iperf_output_state = IPERF_OUTPUT_MISSING | IPERF_OUTPUT_COMPLETE | IPERF_OUTPUT_TRUNCATED
  | IPERF_OUTPUT_DISCARDED | IPERF_OUTPUT_INVALID

datatype iperf_output_format = IPERF_OUTPUT_NONE | IPERF_OUTPUT_TEXT | IPERF_OUTPUT_JSON

datatype iperf_output_reason = IPERF_OUTPUT_REASON_NONE | IPERF_OUTPUT_BYTE_LIMIT
  | IPERF_OUTPUT_NODE_LIMIT | IPERF_OUTPUT_DEPTH_LIMIT | IPERF_OUTPUT_INVALID_DATA
  | IPERF_OUTPUT_ALLOCATION_FAILURE | IPERF_OUTPUT_READ_FAILURE

definition IPERF_OUTPUT_MAX_BYTES :: nat where "IPERF_OUTPUT_MAX_BYTES = 1024 * 1024"
definition IPERF_RESULT_CORE_MAX_BYTES :: nat where "IPERF_RESULT_CORE_MAX_BYTES = 1024 * 1024"
definition IPERF_RESULT_FRAME_MAX_BYTES :: nat where "IPERF_RESULT_FRAME_MAX_BYTES = 67108864"
definition IPERF_RESULT_MAX_DEPTH :: nat where "IPERF_RESULT_MAX_DEPTH = 64"
definition IPERF_RESULT_CORE_MAX_VALUES :: nat where "IPERF_RESULT_CORE_MAX_VALUES = 16384"
definition IPERF_RESULT_MAX_VALUES :: nat where "IPERF_RESULT_MAX_VALUES = 1048576"
definition IPERF_RESULT_MAX_NUMBER_LENGTH :: nat where "IPERF_RESULT_MAX_NUMBER_LENGTH = 63"

text \<open>
  \<open>so_value\<close> holds the bytes written so far, so that its length is the C field \<open>length\<close>;
  \<open>None\<close> is \<open>NULL\<close> (with \<open>length\<close> 0).
\<close>

record iperf_server_output =
  so_value :: "bytes option"
  so_observed_bytes :: nat
  so_state :: iperf_output_state
  so_format :: iperf_output_format
  so_reason :: iperf_output_reason
  so_observed_bytes_complete :: bool

record iperf_result_read_metrics =
  m_bytes_read :: nat
  m_core_json_bytes :: nat
  m_core_values :: nat
  m_maximum_depth :: nat
  m_peak_buffer_capacity :: nat

definition zero_output :: iperf_server_output where
  "zero_output = \<lparr>so_value = None, so_observed_bytes = 0, so_state = IPERF_OUTPUT_MISSING,
     so_format = IPERF_OUTPUT_NONE, so_reason = IPERF_OUTPUT_REASON_NONE,
     so_observed_bytes_complete = False\<rparr>"

definition zero_metrics :: iperf_result_read_metrics where
  "zero_metrics = \<lparr>m_bytes_read = 0, m_core_json_bytes = 0, m_core_values = 0,
     m_maximum_depth = 0, m_peak_buffer_capacity = 0\<rparr>"

definition so_length :: "iperf_server_output \<Rightarrow> nat" where
  "so_length r = (case so_value r of None \<Rightarrow> 0 | Some v \<Rightarrow> length v)"

datatype capture = DISCARD | CORE | OUTPUT_JSON

text \<open>
  What the reader callback returns: bytes (an empty list is the return value 0, end of
  file), or -1 with \<open>errno\<close> (\<open>None\<close> is \<open>errno = 0\<close>).
\<close>

datatype read_result = ReadBytes bytes | ReadErr "errno option"

type_synonym 'e reader = "'e \<Rightarrow> nat \<Rightarrow> read_result \<times> 'e"

record 'e parser =
  p_read :: "'e reader"
  p_context :: 'e
  p_malloc :: "nat \<Rightarrow> bool"      \<comment> \<open>does the n-th allocation succeed\<close>
  p_mallocs :: nat
  p_remaining :: nat
  p_input :: bytes              \<comment> \<open>\<open>input[0 .. available)\<close>\<close>
  p_cursor :: nat
  p_core :: bytes               \<comment> \<open>\<open>core[0 .. core_length)\<close>\<close>
  p_limit :: nat
  p_capture :: capture
  p_output :: iperf_server_output
  p_metrics :: iperf_result_read_metrics
  p_values :: nat
  p_output_values :: nat
  p_error :: "errno option"     \<comment> \<open>\<open>None\<close> is 0\<close>

record decoded =
  d_key :: "bytes option"       \<comment> \<open>\<open>key[0 .. length)\<close>, \<open>None\<close> for \<open>NULL\<close>\<close>
  d_output_text :: bool
  d_is_key :: bool

abbreviation ch :: "char \<Rightarrow> int" where "ch c \<equiv> of_char c"

text \<open>Writing the next byte of a buffer of the given capacity.\<close>

definition buf_put :: "nat \<Rightarrow> bytes \<Rightarrow> bytes \<Rightarrow> bytes option" where
  "buf_put cap buf bs = (if length buf + length bs \<le> cap then Some (buf @ bs) else None)"

subsection \<open>Input and capture\<close>

definition iperf_clear_server_output :: "iperf_server_output \<Rightarrow> iperf_server_output" where
  "iperf_clear_server_output r = zero_output"

definition fail :: "'e parser \<Rightarrow> errno \<Rightarrow> bool \<times> 'e parser" where
  "fail p e = (False, if p_error p = None then p\<lparr>p_error := Some e\<rparr> else p)"

definition peek :: "'e parser \<Rightarrow> (int \<times> 'e parser) option" where
  "peek p =
     (if p_error p \<noteq> None then Some (-1, p)
      else if p_cursor p = length (p_input p) then
        (if p_remaining p = 0 then Some (-1, p)
         else
           let count = (if p_remaining p < 4096 then p_remaining p else 4096);
               (r, ctx) = p_read p (p_context p) count;
               p1 = p\<lparr>p_context := ctx\<rparr>
           in case r of
                ReadErr e \<Rightarrow>
                  Some (-1, snd (fail p1 (case e of Some err \<Rightarrow> err | None \<Rightarrow> EPROTO)))
              | ReadBytes bs \<Rightarrow>
                  if bs = [] \<or> count < length bs then Some (-1, snd (fail p1 EPROTO))
                  else Some (uint (hd bs),
                         p1\<lparr>p_remaining := p_remaining p - length bs,
                            p_metrics := (p_metrics p)\<lparr>m_bytes_read :=
                              m_bytes_read (p_metrics p) + length bs\<rparr>,
                            p_cursor := 0, p_input := bs\<rparr>))
      else if p_cursor p < length (p_input p) then Some (uint (p_input p ! p_cursor p), p)
      else None)"

definition discard_output :: "'e parser \<Rightarrow> iperf_output_state \<Rightarrow> 'e parser" where
  "discard_output p st = p\<lparr>p_output := (p_output p)\<lparr>so_value := None, so_state := st\<rparr>\<rparr>"

definition set_reason :: "'e parser \<Rightarrow> iperf_output_reason \<Rightarrow> 'e parser" where
  "set_reason p r = p\<lparr>p_output := (p_output p)\<lparr>so_reason := r\<rparr>\<rparr>"

text \<open>\<open>value[length ..]\<close> of the output buffer of \<open>limit + 1\<close> bytes.\<close>

definition put_output :: "'e parser \<Rightarrow> bytes \<Rightarrow> 'e parser option" where
  "put_output p bs =
     do { v \<leftarrow> so_value (p_output p);
          v' \<leftarrow> buf_put (p_limit p + 1) v bs;
          Some (p\<lparr>p_output := (p_output p)\<lparr>so_value := Some v'\<rparr>\<rparr>) }"

definition observe :: "'e parser \<Rightarrow> nat \<Rightarrow> 'e parser" where
  "observe p n = p\<lparr>p_output := (p_output p)\<lparr>so_observed_bytes := so_observed_bytes (p_output p) + n\<rparr>\<rparr>"

definition emit :: "'e parser \<Rightarrow> byte \<Rightarrow> (bool \<times> 'e parser) option" where
  "emit p b =
     (case p_capture p of
        CORE \<Rightarrow>
          if length (p_core p) = IPERF_RESULT_CORE_MAX_BYTES then Some (fail p EFBIG)
          else do { c \<leftarrow> buf_put (IPERF_RESULT_CORE_MAX_BYTES + 1) (p_core p) [b];
                    Some (True, p\<lparr>p_core := c\<rparr>) }
      | OUTPUT_JSON \<Rightarrow>
          let p = observe p 1 in
          if so_state (p_output p) = IPERF_OUTPUT_COMPLETE then
            if so_length (p_output p) = p_limit p then
              Some (True, set_reason (discard_output p IPERF_OUTPUT_DISCARDED) IPERF_OUTPUT_BYTE_LIMIT)
            else do { p \<leftarrow> put_output p [b]; Some (True, p) }
          else Some (True, p)
      | DISCARD \<Rightarrow> Some (True, p))"

definition advance :: "'e parser \<Rightarrow> 'e parser" where
  "advance p = p\<lparr>p_cursor := p_cursor p + 1\<rparr>"

definition take_p :: "'e parser \<Rightarrow> (int \<times> 'e parser) option" where
  "take_p p =
     do { (c, p) \<leftarrow> peek p;
          if c < 0 then Some (-1, snd (fail p EPROTO))
          else do { (ok, p) \<leftarrow> emit (advance p) (word_of_int c);
                    Some (if ok then c else -1, p) } }"

definition expect :: "'e parser \<Rightarrow> int \<Rightarrow> (bool \<times> 'e parser) option" where
  "expect p expected =
     do { (c, p) \<leftarrow> take_p p;
          if c = expected then Some (True, p) else Some (fail p EPROTO) }"

definition is_space :: "int \<Rightarrow> bool" where
  "is_space c \<longleftrightarrow> c = 32 \<or> c = 9 \<or> c = 13 \<or> c = 10"

partial_function (option) whitespace :: "'e parser \<Rightarrow> (unit \<times> 'e parser) option" where
  "whitespace p =
     do { (c, p) \<leftarrow> peek p;
          if is_space c then whitespace (advance p) else Some ((), p) }"

subsection \<open>Strings\<close>

definition utf8_bytes :: "uint32 \<Rightarrow> bytes" where
  "utf8_bytes scalar =
     (if scalar \<le> 0x7f then [ucast scalar]
      else if scalar \<le> 0x7ff then
        [ucast (0xc0 OR drop_bit 6 scalar), ucast (0x80 OR (scalar AND 0x3f))]
      else if scalar \<le> 0xffff then
        [ucast (0xe0 OR drop_bit 12 scalar), ucast (0x80 OR (drop_bit 6 scalar AND 0x3f)),
         ucast (0x80 OR (scalar AND 0x3f))]
      else
        [ucast (0xf0 OR drop_bit 18 scalar), ucast (0x80 OR (drop_bit 12 scalar AND 0x3f)),
         ucast (0x80 OR (drop_bit 6 scalar AND 0x3f)), ucast (0x80 OR (scalar AND 0x3f))])"

text \<open>
  The result carries the destination with it: \<open>key\<close> and \<open>length\<close> are written through the
  pointer.
\<close>

definition decoded_scalar :: "'e parser \<Rightarrow> decoded option \<Rightarrow> uint32 \<Rightarrow>
    ((bool \<times> decoded option) \<times> 'e parser) option" where
  "decoded_scalar p destination scalar =
     (case destination of
        None \<Rightarrow> Some ((True, None), p)
      | Some d \<Rightarrow>
          if d_is_key d \<and> scalar = 0 then Some ((False, Some d), snd (fail p EPROTO))
          else
            let bs = utf8_bytes scalar; n = length bs in
            case d_key d of
              Some k \<Rightarrow>
                if scalar = 0 \<or> length k + n > 127
                then Some ((False, Some d), snd (fail p (if scalar \<noteq> 0 then EFBIG else EPROTO)))
                else do { k' \<leftarrow> buf_put 128 k bs;
                          Some ((True, Some (d\<lparr>d_key := Some k'\<rparr>)), p) }
            | None \<Rightarrow>
                if d_output_text d then
                  let p = observe p n in
                  if scalar = 0 then
                    Some ((True, Some d),
                      set_reason (discard_output p IPERF_OUTPUT_INVALID) IPERF_OUTPUT_INVALID_DATA)
                  else if so_state (p_output p) = IPERF_OUTPUT_COMPLETE then
                    if so_length (p_output p) + n > p_limit p then
                      Some ((True, Some d),
                        set_reason (p\<lparr>p_output := (p_output p)\<lparr>so_state := IPERF_OUTPUT_TRUNCATED\<rparr>\<rparr>)
                          IPERF_OUTPUT_BYTE_LIMIT)
                    else do { p \<leftarrow> put_output p bs; Some ((True, Some d), p) }
                  else Some ((True, Some d), p)
                else Some ((True, Some d), p))"

definition hex_digit :: "int \<Rightarrow> int option" where
  "hex_digit c =
     (if ch CHR ''0'' \<le> c \<and> c \<le> ch CHR ''9'' then Some (c - ch CHR ''0'')
      else if ch CHR ''a'' \<le> c \<and> c \<le> ch CHR ''f'' then Some (c - ch CHR ''a'' + 10)
      else if ch CHR ''A'' \<le> c \<and> c \<le> ch CHR ''F'' then Some (c - ch CHR ''A'' + 10)
      else None)"

fun hex4_loop :: "nat \<Rightarrow> uint32 \<Rightarrow> 'e parser \<Rightarrow> (uint32 option \<times> 'e parser) option" where
  "hex4_loop 0 result p = Some (Some result, p)"
| "hex4_loop (Suc i) result p =
     do { (c, p) \<leftarrow> take_p p;
          case hex_digit c of
            None \<Rightarrow> Some (None, snd (fail p EPROTO))
          | Some digit \<Rightarrow> hex4_loop i (push_bit 4 result OR word_of_int digit) p }"

definition hex4 :: "'e parser \<Rightarrow> (uint32 option \<times> 'e parser) option" where
  "hex4 p = hex4_loop 4 0 p"

text \<open>The \<open>\\u\<close> escape: one code unit, or a surrogate pair.\<close>

definition unicode_escape :: "'e parser \<Rightarrow> (uint32 option \<times> 'e parser) option" where
  "unicode_escape p =
     do { (s, p) \<leftarrow> hex4 p;
          case s of
            None \<Rightarrow> Some (None, p)
          | Some scalar \<Rightarrow>
              if 0xd800 \<le> scalar \<and> scalar \<le> 0xdbff then
                do { (ok, p) \<leftarrow> expect p 92;
                     if \<not> ok then Some (None, p)
                     else do { (ok, p) \<leftarrow> expect p (ch CHR ''u'');
                               if \<not> ok then Some (None, p)
                               else do { (l, p) \<leftarrow> hex4 p;
                                         case l of
                                           None \<Rightarrow> Some (None, p)
                                         | Some low \<Rightarrow>
                                             if low < 0xdc00 \<or> low > 0xdfff
                                             then Some (None, snd (fail p EPROTO))
                                             else Some (Some (0x10000 +
                                               push_bit 10 (scalar - 0xd800) + low - 0xdc00), p) } } }
              else if 0xdc00 \<le> scalar \<and> scalar \<le> 0xdfff then Some (None, snd (fail p EPROTO))
              else Some (Some scalar, p) }"

definition escape :: "'e parser \<Rightarrow> (uint32 option \<times> 'e parser) option" where
  "escape p =
     do { (c, p) \<leftarrow> take_p p;
          if c = 34 \<or> c = 92 \<or> c = 47 then Some (Some (word_of_int c), p)
          else if c = ch CHR ''b'' then Some (Some 8, p)
          else if c = ch CHR ''f'' then Some (Some 12, p)
          else if c = ch CHR ''n'' then Some (Some 10, p)
          else if c = ch CHR ''r'' then Some (Some 13, p)
          else if c = ch CHR ''t'' then Some (Some 9, p)
          else if c = ch CHR ''u'' then unicode_escape p
          else Some (None, snd (fail p EPROTO)) }"

fun utf8_rest :: "nat \<Rightarrow> uint32 \<Rightarrow> 'e parser \<Rightarrow> (uint32 option \<times> 'e parser) option" where
  "utf8_rest 0 scalar p = Some (Some scalar, p)"
| "utf8_rest (Suc i) scalar p =
     do { (c, p) \<leftarrow> take_p p;
          if c < 0x80 \<or> c > 0xbf then Some (None, snd (fail p EPROTO))
          else utf8_rest i (push_bit 6 scalar OR word_of_int (c AND 0x3f)) p }"

definition utf8_start :: "int \<Rightarrow> (nat \<times> uint32 \<times> uint32) option" where
  "utf8_start c =
     (if 0xc2 \<le> c \<and> c \<le> 0xdf then Some (1, word_of_int (c AND 0x1f), 0x80)
      else if 0xe0 \<le> c \<and> c \<le> 0xef then Some (2, word_of_int (c AND 0x0f), 0x800)
      else if 0xf0 \<le> c \<and> c \<le> 0xf4 then Some (3, word_of_int (c AND 0x07), 0x10000)
      else None)"

definition utf8_scalar :: "int \<Rightarrow> 'e parser \<Rightarrow> (uint32 option \<times> 'e parser) option" where
  "utf8_scalar c p =
     (case utf8_start c of
        None \<Rightarrow> Some (None, snd (fail p EPROTO))
      | Some (following, scalar, minimum) \<Rightarrow>
          do { (s, p) \<leftarrow> utf8_rest following scalar p;
               case s of
                 None \<Rightarrow> Some (None, p)
               | Some scalar \<Rightarrow>
                   if scalar < minimum \<or> scalar > 0x10ffff \<or> (0xd800 \<le> scalar \<and> scalar \<le> 0xdfff)
                   then Some (None, snd (fail p EPROTO))
                   else Some (Some scalar, p) })"

text \<open>The \<open>while\<close> loop of \<open>string\<close>; its result is the return value and the destination.\<close>

partial_function (option) string_loop :: "decoded option \<Rightarrow> 'e parser \<Rightarrow>
    ((bool \<times> decoded option) \<times> 'e parser) option" where
  "string_loop destination p =
     (if p_error p \<noteq> None then Some ((False, destination), p)
      else
        do { (c, p) \<leftarrow> take_p p;
             if c = 34 then Some ((True, destination), p)
             else if c < 0x20 then Some ((False, destination), snd (fail p EPROTO))
             else
               do { (s, p) \<leftarrow> (if c = 92 then escape p
                               else if c < 0x80 then Some (Some (word_of_int c), p)
                               else utf8_scalar c p);
                    case s of
                      None \<Rightarrow> Some ((False, destination), p)
                    | Some scalar \<Rightarrow>
                        do { ((ok, destination), p) \<leftarrow> decoded_scalar p destination scalar;
                             if \<not> ok then Some ((False, destination), p)
                             else string_loop destination p } } })"

definition string_p :: "'e parser \<Rightarrow> decoded option \<Rightarrow> ((bool \<times> decoded option) \<times> 'e parser) option" where
  "string_p p destination =
     do { (ok, p) \<leftarrow> expect p 34;
          if \<not> ok then Some ((False, destination), p) else string_loop destination p }"

subsection \<open>Numbers, values and the root object\<close>

definition digit :: "int \<Rightarrow> bool" where
  "digit c \<longleftrightarrow> ch CHR ''0'' \<le> c \<and> c \<le> ch CHR ''9''"

text \<open>
  The \<open>do\<close> loop over digits; the result is the new count, or \<open>None\<close> after \<open>fail\<close>. The count
  bounds the loop.
\<close>

function number_digits :: "nat \<Rightarrow> 'e parser \<Rightarrow> (nat option \<times> 'e parser) option" where
  "number_digits count p =
     do { (_, p) \<leftarrow> take_p p;
          if count + 1 > IPERF_RESULT_MAX_NUMBER_LENGTH then Some (None, snd (fail p EPROTO))
          else do { (c, p) \<leftarrow> peek p;
                    if digit c then number_digits (count + 1) p else Some (Some (count + 1), p) } }"
  by pat_completeness auto
termination
  by (relation "measure (\<lambda>(count, p). IPERF_RESULT_MAX_NUMBER_LENGTH - count)") auto

definition number_fraction :: "nat \<Rightarrow> 'e parser \<Rightarrow> (nat option \<times> 'e parser) option" where
  "number_fraction count p =
     do { (c, p) \<leftarrow> peek p;
          if c = ch CHR ''.'' then
            do { (_, p) \<leftarrow> take_p p;
                 (c, p) \<leftarrow> peek p;
                 if \<not> digit c then Some (None, snd (fail p EPROTO))
                 else number_digits (count + 1) p }
          else Some (Some count, p) }"

definition number_exponent :: "nat \<Rightarrow> 'e parser \<Rightarrow> (bool \<times> 'e parser) option" where
  "number_exponent count p =
     do { (c, p) \<leftarrow> peek p;
          if c = ch CHR ''e'' \<or> c = ch CHR ''E'' then
            do { (_, p) \<leftarrow> take_p p;
                 (c, p) \<leftarrow> peek p;
                 (count, p) \<leftarrow> (if c = ch CHR ''+'' \<or> c = ch CHR ''-''
                                then do { (_, p) \<leftarrow> take_p p; Some (count + 2, p) }
                                else Some (count + 1, p));
                 (c, p) \<leftarrow> peek p;
                 if \<not> digit c then Some (fail p EPROTO)
                 else do { (r, p) \<leftarrow> number_digits count p;
                           case r of None \<Rightarrow> Some (False, p) | Some _ \<Rightarrow> Some (p_error p = None, p) } }
          else Some (p_error p = None, p) }"

definition number :: "'e parser \<Rightarrow> (bool \<times> 'e parser) option" where
  "number p =
     do { (c, p) \<leftarrow> peek p;
          (count, p) \<leftarrow> (if c = ch CHR ''-'' then do { (_, p) \<leftarrow> take_p p; Some (1, p) }
                         else Some (0, p));
          (c, p) \<leftarrow> peek p;
          (r, p) \<leftarrow> (if c = ch CHR ''0''
                     then do { (_, p) \<leftarrow> take_p p; Some (Some (count + 1), p) }
                     else if c < ch CHR ''1'' \<or> c > ch CHR ''9''
                     then Some (None, snd (fail p EPROTO))
                     else number_digits count p);
          case r of
            None \<Rightarrow> Some (False, p)
          | Some count \<Rightarrow>
              do { (r, p) \<leftarrow> number_fraction count p;
                   case r of
                     None \<Rightarrow> Some (False, p)
                   | Some count \<Rightarrow> number_exponent count p } }"

fun expect_all :: "char list \<Rightarrow> 'e parser \<Rightarrow> (bool \<times> 'e parser) option" where
  "expect_all [] p = Some (True, p)"
| "expect_all (c # cs) p =
     do { (ok, p) \<leftarrow> expect p (ch c); if \<not> ok then Some (False, p) else expect_all cs p }"

text \<open>
  The member loop of \<open>value\<close>; \<open>val\<close> is the recursive call \<open>value(p, depth + 1, NULL)\<close>.
\<close>

definition object_key :: "bool \<Rightarrow> 'e parser \<Rightarrow> (bool \<times> 'e parser) option" where
  "object_key object p =
     (if object then
        do { ((ok, _), p) \<leftarrow> string_p p (Some \<lparr>d_key = None, d_output_text = False, d_is_key = True\<rparr>);
             if \<not> ok then Some (False, p)
             else do { (_, p) \<leftarrow> whitespace p; expect p (ch CHR '':'') } }
      else Some (True, p))"

partial_function (option) members :: "('e parser \<Rightarrow> (bool \<times> 'e parser) option) \<Rightarrow> bool \<Rightarrow> int \<Rightarrow>
    'e parser \<Rightarrow> (bool \<times> 'e parser) option" where
  "members val object close p =
     do { (ok, p) \<leftarrow> object_key object p;
          if \<not> ok then Some (False, p)
          else
            do { (ok, p) \<leftarrow> val p;
                 if \<not> ok then Some (False, p)
                 else
                   do { (_, p) \<leftarrow> whitespace p;
                        (c, p) \<leftarrow> peek p;
                        if c = close then expect p close
                        else
                          do { (ok, p) \<leftarrow> expect p (ch CHR '','');
                               if \<not> ok then Some (False, p)
                               else do { (_, p) \<leftarrow> whitespace p; members val object close p } } } } }"

definition count_depth :: "'e parser \<Rightarrow> nat \<Rightarrow> 'e parser" where
  "count_depth p depth =
     (if depth > m_maximum_depth (p_metrics p)
      then p\<lparr>p_metrics := (p_metrics p)\<lparr>m_maximum_depth := depth\<rparr>\<rparr> else p)"

text \<open>The counters at the head of \<open>value\<close>; \<open>False\<close> after a limit was hit.\<close>

definition count_value :: "'e parser \<Rightarrow> nat \<Rightarrow> bool \<times> 'e parser" where
  "count_value p depth =
     (if depth > IPERF_RESULT_MAX_DEPTH then fail p EFBIG
      else
        let p = p\<lparr>p_values := p_values p + 1\<rparr> in
        if p_values p > IPERF_RESULT_MAX_VALUES then fail p EFBIG
        else
          let p = count_depth p depth in
          if p_capture p = CORE then
            let p = p\<lparr>p_metrics := (p_metrics p)\<lparr>m_core_values := m_core_values (p_metrics p) + 1\<rparr>\<rparr> in
            if m_core_values (p_metrics p) > IPERF_RESULT_CORE_MAX_VALUES then fail p EFBIG
            else (True, p)
          else if p_capture p = OUTPUT_JSON then
            let p = p\<lparr>p_output_values := p_output_values p + 1\<rparr> in
            if p_output_values p > IPERF_RESULT_CORE_MAX_VALUES \<and>
               so_state (p_output p) = IPERF_OUTPUT_COMPLETE
            then (True, set_reason (discard_output p IPERF_OUTPUT_DISCARDED) IPERF_OUTPUT_NODE_LIMIT)
            else (True, p)
          else (True, p))"

definition literal :: "int \<Rightarrow> char list" where
  "literal c = (if c = ch CHR ''t'' then ''true'' else if c = ch CHR ''f'' then ''false'' else ''null'')"

function value_p :: "nat \<Rightarrow> decoded option \<Rightarrow> 'e parser \<Rightarrow>
    ((bool \<times> decoded option) \<times> 'e parser) option" where
  "value_p depth destination p =
     (case count_value p depth of (ok, p) \<Rightarrow>
        if \<not> ok \<or> depth > IPERF_RESULT_MAX_DEPTH then Some ((False, destination), p)
        else
          do { (_, p) \<leftarrow> whitespace p;
               (c, p) \<leftarrow> peek p;
               if c = 34 then string_p p destination
               else if c = ch CHR ''-'' \<or> digit c then
                 do { (ok, p) \<leftarrow> number p; Some ((ok, destination), p) }
               else if c = ch CHR ''t'' \<or> c = ch CHR ''f'' \<or> c = ch CHR ''n'' then
                 do { (ok, p) \<leftarrow> expect_all (literal c) p; Some ((ok, destination), p) }
               else if c \<noteq> ch CHR ''['' \<and> c \<noteq> ch CHR ''{'' then
                 Some ((False, destination), snd (fail p EPROTO))
               else
                 let object = (c = ch CHR ''{''); close = ch (if object then CHR ''}'' else CHR '']'') in
                 do { (_, p) \<leftarrow> take_p p;
                      (_, p) \<leftarrow> whitespace p;
                      (c, p) \<leftarrow> peek p;
                      (ok, p) \<leftarrow> (if c = close then expect p close
                                 else members (\<lambda>p. map_option (\<lambda>((ok, _), p). (ok, p))
                                                 (value_p (depth + 1) None p)) object close p);
                      Some ((ok, destination), p) } })"
  by pat_completeness auto
termination
  by (relation "measure (\<lambda>(depth, d, p). IPERF_RESULT_MAX_DEPTH + 1 - depth)") auto

fun emit_all :: "'e parser \<Rightarrow> bytes \<Rightarrow> (bool \<times> 'e parser) option" where
  "emit_all p [] = Some (True, p)"
| "emit_all p (b # bs) =
     do { (ok, p) \<leftarrow> emit p b; if \<not> ok then Some (False, p) else emit_all p bs }"

definition hex_char :: "byte \<Rightarrow> byte" where
  "hex_char n = of_char (''0123456789abcdef'' ! unat n)"

definition escaped_byte :: "byte \<Rightarrow> bytes" where
  "escaped_byte b =
     (if b = 34 \<or> b = 92 then [92, b]
      else if b < 0x20 then [92, 117, 48, 48, hex_char (drop_bit 4 b), hex_char (b AND 15)]
      else [b])"

definition core_key :: "'e parser \<Rightarrow> bytes \<Rightarrow> (bool \<times> 'e parser) option" where
  "core_key p key = emit_all p (34 # concat (map escaped_byte key) @ [34, 58])"

definition begin_output :: "'e parser \<Rightarrow> iperf_output_format \<Rightarrow> bool \<times> 'e parser" where
  "begin_output p format =
     (let got = p_malloc p (p_mallocs p);
          p = p\<lparr>p_mallocs := p_mallocs p + 1,
                p_output := (iperf_clear_server_output (p_output p))\<lparr>so_format := format,
                  so_state := IPERF_OUTPUT_COMPLETE, so_observed_bytes_complete := True,
                  so_value := (if got then Some [] else None)\<rparr>\<rparr>
      in if \<not> got then fail p ENOMEM
         else (True, p\<lparr>p_metrics := (p_metrics p)\<lparr>m_peak_buffer_capacity :=
                         IPERF_RESULT_CORE_MAX_BYTES + p_limit p + 2\<rparr>, p_output_values := 0\<rparr>))"

text \<open>\<open>strcasecmp\<close> of two strings without NUL, in the C locale.\<close>

definition lower :: "byte \<Rightarrow> byte" where
  "lower b = (if 65 \<le> b \<and> b \<le> 90 then b + 32 else b)"

definition same_key :: "bytes \<Rightarrow> char list \<Rightarrow> bool" where
  "same_key key s \<longleftrightarrow> map lower key = map (lower \<circ> of_char) s"

definition unique_keys :: "char list list" where
  "unique_keys = [''cpu_util_total'', ''cpu_util_user'', ''cpu_util_system'',
     ''sender_has_retransmits'', ''streams'', ''congestion_used'', ''server_output_text'',
     ''server_output_json'', ''iperf_swift_server_output'']"

text \<open>The loop over \<open>unique\<close>: \<open>None\<close> when the key was seen before.\<close>

fun check_unique :: "char list list \<Rightarrow> nat \<Rightarrow> bytes \<Rightarrow> uint32 \<Rightarrow> uint32 option" where
  "check_unique [] i key seen = Some seen"
| "check_unique (u # us) i key seen =
     (if same_key key u then
        if seen AND push_bit i 1 \<noteq> 0 then None
        else check_unique us (i + 1) key (seen OR push_bit i 1)
      else check_unique us (i + 1) key seen)"

abbreviation set_capture :: "'e parser \<Rightarrow> capture \<Rightarrow> 'e parser" where
  "set_capture p c \<equiv> p\<lparr>p_capture := c\<rparr>"

text \<open>A member of the root object that holds server output.\<close>

definition output_member :: "bool \<Rightarrow> 'e parser \<Rightarrow> (bool \<times> 'e parser) option" where
  "output_member json p =
     (case begin_output p (if json then IPERF_OUTPUT_JSON else IPERF_OUTPUT_TEXT) of (ok, p) \<Rightarrow>
        if \<not> ok then Some (False, p)
        else
          do { (c, p) \<leftarrow> peek p;
               let valid_type = (c = (if json then ch CHR ''{'' else 34));
                   p = (if valid_type then p
                        else (let q = set_reason (discard_output p IPERF_OUTPUT_INVALID)
                                        IPERF_OUTPUT_INVALID_DATA
                              in q\<lparr>p_output := (p_output q)\<lparr>so_observed_bytes_complete := False\<rparr>\<rparr>));
                   p = set_capture p (if json \<and> valid_type then OUTPUT_JSON else DISCARD)
               in do { ((ok, _), p) \<leftarrow> value_p 1 (if \<not> json \<and> valid_type
                          then Some \<lparr>d_key = None, d_output_text = True, d_is_key = False\<rparr> else None) p;
                       Some (ok, p) } })"

definition core_member :: "bool \<Rightarrow> bytes \<Rightarrow> 'e parser \<Rightarrow> (bool \<times> 'e parser) option" where
  "core_member first key p =
     do { (ok, p) \<leftarrow> (if first then Some (True, set_capture p CORE)
                     else emit (set_capture p CORE) 44);
          if \<not> ok then Some (False, p)
          else
            do { (ok, p) \<leftarrow> core_key p key;
                 if \<not> ok then Some (False, p)
                 else do { ((ok, _), p) \<leftarrow> value_p 1 None p; Some (ok, p) } } }"

text \<open>
  The member loop of \<open>root\<close>: \<open>True\<close> when it is left by its \<open>break\<close>. \<open>first\<close> is
  \<open>core_fields = 0\<close>.
\<close>

definition root_member :: "uint32 \<Rightarrow> bool \<Rightarrow> bool \<Rightarrow> bytes \<Rightarrow> 'e parser \<Rightarrow>
    ((bool \<times> uint32 \<times> bool \<times> bool) \<times> 'e parser) option" where
  "root_member seen first seen_json key p =
     (case check_unique unique_keys 0 key seen of
        None \<Rightarrow> Some ((False, seen, first, seen_json), snd (fail p EPROTO))
      | Some seen \<Rightarrow>
          do { (_, p) \<leftarrow> whitespace p;
               (ok, p) \<leftarrow> expect p (ch CHR '':'');
               if \<not> ok then Some ((False, seen, first, seen_json), p)
               else
                 do { (_, p) \<leftarrow> whitespace p;
                      let json = same_key key ''server_output_json'';
                          text = same_key key ''server_output_text''
                      in if json \<or> (text \<and> \<not> seen_json) then
                           do { (ok, p) \<leftarrow> output_member json p;
                                Some ((ok, seen, first, seen_json \<or> json), p) }
                         else if text then
                           do { ((ok, _), p) \<leftarrow> value_p 1 None p;
                                Some ((ok, seen, first, seen_json), p) }
                         else
                           do { (ok, p) \<leftarrow> core_member first key p;
                                Some ((ok, seen, False, seen_json), p) } } })"

partial_function (option) root_loop :: "uint32 \<Rightarrow> bool \<Rightarrow> bool \<Rightarrow> 'e parser \<Rightarrow>
    (bool \<times> 'e parser) option" where
  "root_loop seen first seen_json p =
     do { ((ok, d), p) \<leftarrow> string_p p (Some \<lparr>d_key = Some [], d_output_text = False, d_is_key = True\<rparr>);
          if \<not> ok then Some (False, p)
          else
            do { ((ok, seen, first, seen_json), p) \<leftarrow>
                   root_member seen first seen_json
                     (case d of Some d \<Rightarrow> (case d_key d of Some k \<Rightarrow> k | None \<Rightarrow> []) | None \<Rightarrow> []) p;
                 if \<not> ok then Some (False, p)
                 else
                   do { (_, p) \<leftarrow> whitespace (set_capture p DISCARD);
                        (c, p) \<leftarrow> peek p;
                        if c = ch CHR ''}'' then Some (True, p)
                        else
                          do { (ok, p) \<leftarrow> expect p (ch CHR '','');
                               if \<not> ok then Some (False, p)
                               else do { (_, p) \<leftarrow> whitespace p;
                                         root_loop seen first seen_json p } } } } }"

definition root_close :: "'e parser \<Rightarrow> (bool \<times> 'e parser) option" where
  "root_close p =
     do { (ok, p) \<leftarrow> expect p (ch CHR ''}'');
          if \<not> ok then Some (False, p)
          else
            do { (ok, p) \<leftarrow> emit (set_capture p CORE) (of_char CHR ''}'');
                 if \<not> ok then Some (False, p)
                 else
                   do { (_, p) \<leftarrow> whitespace (set_capture p DISCARD);
                        (c, p) \<leftarrow> peek p;
                        if c < 0 \<and> p_error p = None then Some (True, p) else Some (fail p EPROTO) } } }"

definition root_p :: "'e parser \<Rightarrow> (bool \<times> 'e parser) option" where
  "root_p p =
     do { (_, p) \<leftarrow> whitespace (set_capture p DISCARD);
          (ok, p) \<leftarrow> expect p (ch CHR ''{'');
          if \<not> ok then Some (False, p)
          else
            do { (ok, p) \<leftarrow> emit (set_capture p CORE) (of_char CHR ''{'');
                 if \<not> ok then Some (False, p)
                 else
                   do { (_, p) \<leftarrow> whitespace (set_capture p DISCARD);
                        (c, p) \<leftarrow> peek p;
                        (ok, p) \<leftarrow> (if c \<noteq> ch CHR ''}'' then root_loop 0 True False p
                                   else Some (True, p));
                        if \<not> ok then Some (False, p) else root_close p } } }"

text \<open>
  \<open>iperf_read_bounded_results\<close>: the result with \<open>errno\<close>, the output and the metrics written
  through the pointers, and the reader's context. \<open>None\<close> arguments are \<open>NULL\<close>. \<open>parse\<close> is
  \<open>cJSON_ParseWithLengthOpts\<close> on the core bytes: a tree, or \<open>NULL\<close> with \<open>errno\<close>.
\<close>

record ('j, 'e) read_outcome =
  ro_result :: "'j option"
  ro_errno :: "errno option"
  ro_output :: "iperf_server_output option"
  ro_metrics :: "iperf_result_read_metrics option"
  ro_context :: 'e

definition invalid_output :: "iperf_output_reason \<Rightarrow> iperf_server_output \<Rightarrow> iperf_server_output" where
  "invalid_output r out = out\<lparr>so_state := IPERF_OUTPUT_INVALID, so_reason := r\<rparr>"

definition finish_read :: "(bytes \<Rightarrow> errno option + 'j) \<Rightarrow> bool \<Rightarrow> 'e parser \<Rightarrow>
    ('j, 'e) read_outcome option" where
  "finish_read parse ok p =
     do { (result, p) \<leftarrow>
            (if ok then
               do { _ \<leftarrow> buf_put (IPERF_RESULT_CORE_MAX_BYTES + 1) (p_core p) [0];
                    _ \<leftarrow> (case so_value (p_output p) of
                            None \<Rightarrow> Some []
                          | Some v \<Rightarrow> buf_put (p_limit p + 1) v [0]);
                    let p = p\<lparr>p_metrics := (p_metrics p)\<lparr>m_core_json_bytes := length (p_core p)\<rparr>\<rparr>
                    in case parse (p_core p) of
                         Inr j \<Rightarrow> Some (Some j, p)
                       | Inl e \<Rightarrow> Some (None, snd (fail p (if e = Some ENOMEM then ENOMEM else EPROTO))) }
             else Some (None, p));
          Some (case result of
             Some j \<Rightarrow> \<lparr>ro_result = Some j, ro_errno = None, ro_output = Some (p_output p),
                        ro_metrics = Some (p_metrics p), ro_context = p_context p\<rparr>
           | None \<Rightarrow>
               \<lparr>ro_result = None,
                ro_errno = Some (case p_error p of Some e \<Rightarrow> e | None \<Rightarrow> EPROTO),
                ro_output = Some (invalid_output
                  (if p_error p = Some ENOMEM then IPERF_OUTPUT_ALLOCATION_FAILURE
                   else if p_error p = Some EPROTO then IPERF_OUTPUT_INVALID_DATA
                   else IPERF_OUTPUT_READ_FAILURE) (iperf_clear_server_output (p_output p))),
                ro_metrics = Some (p_metrics p), ro_context = p_context p\<rparr>) }"

definition start_parser :: "nat \<Rightarrow> nat \<Rightarrow> 'e reader \<Rightarrow> 'e \<Rightarrow> (nat \<Rightarrow> bool) \<Rightarrow> iperf_server_output \<Rightarrow>
    iperf_result_read_metrics \<Rightarrow> 'e parser" where
  "start_parser frame_length output_limit rd ctx mal out met =
     \<lparr>p_read = rd, p_context = ctx, p_malloc = mal, p_mallocs = 1, p_remaining = frame_length,
      p_input = [], p_cursor = 0, p_core = [], p_limit = output_limit, p_capture = DISCARD,
      p_output = out,
      p_metrics = met\<lparr>m_peak_buffer_capacity := IPERF_RESULT_CORE_MAX_BYTES + 1\<rparr>,
      p_values = 0, p_output_values = 0, p_error = None\<rparr>"

definition iperf_read_bounded_results ::
  "(bytes \<Rightarrow> errno option + 'j) \<Rightarrow> (nat \<Rightarrow> bool) \<Rightarrow> nat \<Rightarrow> nat \<Rightarrow> 'e reader option \<Rightarrow> 'e \<Rightarrow>
   iperf_server_output option \<Rightarrow> iperf_result_read_metrics option \<Rightarrow>
   ('j, 'e) read_outcome option" where
  "iperf_read_bounded_results parse mal frame_length output_limit rd ctx output metrics =
     (case (rd, output, metrics) of
        (Some rd, Some out, Some met) \<Rightarrow>
          if output_limit = 0 \<or> output_limit > IPERF_OUTPUT_MAX_BYTES then
            Some \<lparr>ro_result = None, ro_errno = Some EINVAL,
                  ro_output = Some (out\<lparr>so_state := IPERF_OUTPUT_INVALID\<rparr>),
                  ro_metrics = metrics, ro_context = ctx\<rparr>
          else if frame_length = 0 \<or> frame_length > IPERF_RESULT_FRAME_MAX_BYTES then
            Some \<lparr>ro_result = None, ro_errno = Some EFBIG,
                  ro_output = Some (invalid_output IPERF_OUTPUT_BYTE_LIMIT out),
                  ro_metrics = metrics, ro_context = ctx\<rparr>
          else if \<not> mal 0 then
            Some \<lparr>ro_result = None, ro_errno = Some ENOMEM,
                  ro_output = Some (invalid_output IPERF_OUTPUT_ALLOCATION_FAILURE out),
                  ro_metrics = metrics, ro_context = ctx\<rparr>
          else
            do { (ok, p) \<leftarrow> root_p (start_parser frame_length output_limit rd ctx mal out met);
                 finish_read parse ok p }
      | _ \<Rightarrow>
          Some \<lparr>ro_result = None, ro_errno = Some EINVAL,
                ro_output = map_option (\<lambda>out. out\<lparr>so_state := IPERF_OUTPUT_INVALID\<rparr>) output,
                ro_metrics = metrics, ro_context = ctx\<rparr>)"

end
