(* ===== verification/Bounded_Output_Safe.thy ===== *)
theory Bounded_Output_Safe
  imports Bounded_Output
begin

text \<open>
  Correctness of the bounded result reader: an invariant \<open>p_ok\<close> of the parser, the relation
  \<open>rel\<close> between the parser states before and after an operation, a specification of every
  operation in weakest-precondition form, and the resulting properties of
  \<open>iperf_read_bounded_results\<close>: it always returns, never writes outside its buffers, reads
  at most the declared frame, and delivers output only as its status says.
\<close>

subsection \<open>The invariant\<close>

text \<open>Scalars that may appear in text output: no NUL, no surrogates, at most 0x10ffff.\<close>

definition scalar_ok :: "uint32 \<Rightarrow> bool" where
  "scalar_ok s \<longleftrightarrow> s \<le> 0x10ffff \<and> \<not> (0xd800 \<le> s \<and> s \<le> 0xdfff)"

definition utf8_text :: "bytes \<Rightarrow> bool" where
  "utf8_text v \<longleftrightarrow> (\<exists>ss. v = concat (map utf8_bytes ss) \<and> (\<forall>s\<in>set ss. scalar_ok s \<and> s \<noteq> 0))"

lemma utf8_text_Nil [simp]: "utf8_text []"
  unfolding utf8_text_def by (intro exI [of _ "[]"]) simp

lemma utf8_text_snoc: "utf8_text v \<Longrightarrow> scalar_ok s \<Longrightarrow> s \<noteq> 0 \<Longrightarrow> utf8_text (v @ utf8_bytes s)"
  unfolding utf8_text_def
proof (elim exE)
  fix ss assume "scalar_ok s" "s \<noteq> 0" "v = concat (map utf8_bytes ss) \<and> (\<forall>s\<in>set ss. scalar_ok s \<and> s \<noteq> 0)"
  then show "\<exists>ss. v @ utf8_bytes s = concat (map utf8_bytes ss) \<and> (\<forall>s\<in>set ss. scalar_ok s \<and> s \<noteq> 0)"
    by (intro exI [of _ "ss @ [s]"]) auto
qed

text \<open>
  What the output record means in each of its states, for the limit \<open>L\<close>. An allocation
  failure leaves a complete output without a buffer, together with an error.
\<close>

definition out_ok :: "nat \<Rightarrow> errno option \<Rightarrow> iperf_server_output \<Rightarrow> bool" where
  "out_ok L err r \<longleftrightarrow>
     (case so_state r of
        IPERF_OUTPUT_MISSING \<Rightarrow> so_value r = None \<and> so_format r = IPERF_OUTPUT_NONE
      | IPERF_OUTPUT_COMPLETE \<Rightarrow>
          (case so_value r of
             None \<Rightarrow> err \<noteq> None
           | Some v \<Rightarrow> length v \<le> L \<and> so_observed_bytes r = length v \<and>
                       so_reason r = IPERF_OUTPUT_REASON_NONE)
      | IPERF_OUTPUT_TRUNCATED \<Rightarrow>
          so_format r = IPERF_OUTPUT_TEXT \<and> so_reason r = IPERF_OUTPUT_BYTE_LIMIT \<and>
          so_value r \<noteq> None \<and> so_length r \<le> L \<and> L < so_observed_bytes r
      | IPERF_OUTPUT_DISCARDED \<Rightarrow>
          so_format r = IPERF_OUTPUT_JSON \<and> so_value r = None \<and>
          (so_reason r = IPERF_OUTPUT_BYTE_LIMIT \<and> L < so_observed_bytes r \<or>
           so_reason r = IPERF_OUTPUT_NODE_LIMIT)
      | IPERF_OUTPUT_INVALID \<Rightarrow> so_value r = None \<and> so_reason r = IPERF_OUTPUT_INVALID_DATA) \<and>
     (so_format r = IPERF_OUTPUT_TEXT \<longrightarrow> (\<forall>v. so_value r = Some v \<longrightarrow> utf8_text v))"

definition left :: "'e parser \<Rightarrow> nat" where
  "left p = length (p_input p) - p_cursor p + p_remaining p"

lemma left_simps [simp]:
  "left (p\<lparr>p_values := x1\<rparr>) = left p" "left (p\<lparr>p_output_values := x1\<rparr>) = left p"
  "left (p\<lparr>p_metrics := x2\<rparr>) = left p" "left (p\<lparr>p_output := x3\<rparr>) = left p"
  "left (p\<lparr>p_error := x4\<rparr>) = left p" "left (p\<lparr>p_core := x5\<rparr>) = left p"
  "left (p\<lparr>p_mallocs := x1\<rparr>) = left p" "left (p\<lparr>p_capture := x6\<rparr>) = left p"
  "left (p\<lparr>p_context := x7\<rparr>) = left p"
  by (simp_all add: left_def)

definition p_ok :: "nat \<Rightarrow> 'e parser \<Rightarrow> bool" where
  "p_ok F p \<longleftrightarrow>
     p_cursor p \<le> length (p_input p) \<and> m_bytes_read (p_metrics p) + p_remaining p = F \<and>
     length (p_core p) \<le> IPERF_RESULT_CORE_MAX_BYTES \<and> m_maximum_depth (p_metrics p) \<le> IPERF_RESULT_MAX_DEPTH \<and>
     m_peak_buffer_capacity (p_metrics p) \<le> IPERF_RESULT_CORE_MAX_BYTES + p_limit p + 2 \<and>
     (p_error p = None \<longrightarrow> m_core_values (p_metrics p) \<le> IPERF_RESULT_CORE_MAX_VALUES \<and>
        p_values p \<le> IPERF_RESULT_MAX_VALUES) \<and>
     (p_capture p = OUTPUT_JSON \<longrightarrow> so_format (p_output p) = IPERF_OUTPUT_JSON) \<and>
     out_ok (p_limit p) (p_error p) (p_output p)"

text \<open>
  \<open>rel F p p'\<close>: the parser went from \<open>p\<close> to \<open>p'\<close> by scanner operations. The first error
  stays.
\<close>

definition called :: "'e reader \<Rightarrow> 'e \<Rightarrow> 'e \<Rightarrow> bool" where
  "called rd c c' \<longleftrightarrow> (\<forall>I. (\<forall>x n. I x \<longrightarrow> I (snd (rd x n))) \<longrightarrow> I c \<longrightarrow> I c')"

lemma called_refl [simp]: "called rd c c"
  by (simp add: called_def)

lemma called_trans: "called rd a b \<Longrightarrow> called rd b c \<Longrightarrow> called rd a c"
  by (auto simp: called_def)

lemma called_once: "rd c n = (r, c') \<Longrightarrow> called rd c c'"
  unfolding called_def by (metis snd_conv)

definition rel :: "nat \<Rightarrow> 'e parser \<Rightarrow> 'e parser \<Rightarrow> bool" where
  "rel F p p' \<longleftrightarrow> p_ok F p' \<and> left p' \<le> left p \<and> p_limit p' = p_limit p \<and>
     p_capture p' = p_capture p \<and> so_format (p_output p') = so_format (p_output p) \<and>
     (p_error p \<noteq> None \<longrightarrow> p_error p' = p_error p) \<and> p_read p' = p_read p \<and>
     called (p_read p) (p_context p) (p_context p')"

lemma rel_refl: "p_ok F p \<Longrightarrow> rel F p p"
  by (simp add: rel_def)

lemma rel_trans: "rel F p q \<Longrightarrow> rel F q r \<Longrightarrow> rel F p r"
  unfolding rel_def by (auto intro: called_trans)

lemma rel_ok: "rel F p q \<Longrightarrow> p_ok F q"
  by (simp add: rel_def)

lemma rel_capture: "rel F p q \<Longrightarrow> p_capture q = p_capture p"
  by (simp add: rel_def)

lemma rel_format: "rel F p q \<Longrightarrow> so_format (p_output q) = so_format (p_output p)"
  by (simp add: rel_def)

lemma rel_error: "rel F p q \<Longrightarrow> p_error q = None \<Longrightarrow> p_error p = None"
  unfolding rel_def by (metis not_None_eq)

text \<open>
  Specifications are stated from the state of the call; this rule lets them be used with any
  earlier state \<open>q\<close> as the reference point.
\<close>

lemma wp_rel:
  assumes "wp (\<lambda>r p'. rel F p p' \<and> P r p') m" "rel F q p"
    "\<And>r p'. rel F q p' \<Longrightarrow> left p' \<le> left p \<Longrightarrow> P r p' \<Longrightarrow> Q r p'"
  shows "wp Q m"
  using assms(1)
proof (rule wp_mono)
  fix r p' assume a: "rel F p p' \<and> P r p'"
  then have "left p' \<le> left p" by (simp add: rel_def)
  then show "Q r p'" using assms(3) rel_trans [OF assms(2)] a by blast
qed

lemma out_ok_error: "out_ok L err r \<Longrightarrow> err = None \<or> err' \<noteq> None \<Longrightarrow> out_ok L err' r"
  by (auto simp: out_ok_def split: iperf_output_state.splits option.splits)

lemma fail_simps [simp]:
  "fst (fail p e) = False" "\<not> p_error (snd (fail p e)) = None" "left (snd (fail p e)) = left p"
  "p_core (snd (fail p e)) = p_core p" "\<exists>y. p_error (snd (fail p e)) = Some y"
  by (auto simp: fail_def)

lemma fail_Some [simp]: "Some (fail p e) = Some (False, snd (fail p e))"
  by (simp add: fail_def)

lemma fail_rel: "rel F q p \<Longrightarrow> rel F q (snd (fail p e))"
  using out_ok_error [of "p_limit p" "p_error p" "p_output p" "Some e"]
  by (auto simp: fail_def rel_def p_ok_def)

lemma advance_rel:
  assumes "p_ok F p" "p_cursor p < length (p_input p)"
  shows "rel F p (advance p)" "left (advance p) < left p"
  using assms by (auto simp: advance_def rel_def p_ok_def left_def)

lemma refill_rel:
  assumes "p_ok F p" "p_cursor p = length (p_input p)" "length bs \<le> p_remaining p"
    "called (p_read p) (p_context p) ctx"
  shows "rel F p (p\<lparr>p_context := ctx, p_remaining := p_remaining p - length bs,
    p_metrics := (p_metrics p)\<lparr>m_bytes_read := m_bytes_read (p_metrics p) + length bs\<rparr>,
    p_cursor := 0, p_input := bs\<rparr>)"
  using assms by (auto simp: rel_def p_ok_def left_def)

lemma context_rel: "p_ok F p \<Longrightarrow> called (p_read p) (p_context p) ctx \<Longrightarrow> rel F p (p\<lparr>p_context := ctx\<rparr>)"
  by (auto simp: rel_def p_ok_def)

definition peeked :: "nat \<Rightarrow> 'e parser \<Rightarrow> int \<Rightarrow> 'e parser \<Rightarrow> bool" where
  "peeked F p c p' \<longleftrightarrow> c < 256 \<and>
     (0 \<le> c \<longrightarrow> p_error p = None \<and> p_error p' = None \<and> left (advance p') < left p \<and>
        rel F p (advance p')) \<and>
     (c < 0 \<and> p_error p' = None \<longrightarrow> left p' = 0)"

lemma peeked_byte:
  assumes "p_error p = None" "p_error p' = None" "rel F p p'" "p_cursor p' < length (p_input p')"
  shows "peeked F p (uint (b :: byte)) p'"
proof -
  note a = advance_rel [OF rel_ok [OF assms(3)] assms(4)]
  have "left (advance p') < left p" using a(2) assms(3) by (simp add: rel_def)
  moreover have "uint b < 256" using uint_lt2p [of b] by simp
  ultimately show ?thesis
    using rel_trans [OF assms(3) a(1)] assms(1,2) by (simp add: peeked_def)
qed

lemma peek_peeked:
  assumes "p_ok F p"
  shows "wp (\<lambda>c p'. rel F p p' \<and> peeked F p c p') (peek p)"
proof -
  let ?n = "if p_remaining p < 4096 then p_remaining p else 4096"
  obtain r ctx where rd: "p_read p (p_context p) ?n = (r, ctx)" by fastforce
  have c: "called (p_read p) (p_context p) ctx" by (rule called_once) (rule rd)
  note f = fail_rel [OF context_rel [OF assms c]]
  have cursor: "p_cursor p < length (p_input p) \<or> p_cursor p = length (p_input p)"
    using assms by (auto simp: p_ok_def)
  consider (err) "p_error p \<noteq> None" | (buf) "p_error p = None" "p_cursor p < length (p_input p)"
    | (eof) "p_error p = None" "p_cursor p = length (p_input p)" "p_remaining p = 0"
    | (read) "p_error p = None" "p_cursor p = length (p_input p)" "p_remaining p \<noteq> 0"
    using cursor by blast
  then show ?thesis
  proof cases
    case err
    then show ?thesis by (auto simp: peek_def rel_refl assms peeked_def)
  next
    case buf
    then show ?thesis using peeked_byte [OF buf(1,1) rel_refl [OF assms] buf(2)]
      by (simp add: peek_def rel_refl assms)
  next
    case eof
    then show ?thesis by (simp add: peek_def rel_refl assms peeked_def left_def)
  next
    case read
    show ?thesis
    proof (cases r)
      case (ReadErr e)
      then show ?thesis using read rd f by (simp add: peek_def Let_def peeked_def)
    next
      case (ReadBytes bs)
      show ?thesis
      proof (cases "bs = [] \<or> ?n < length bs")
        case True
        then show ?thesis using read rd f ReadBytes by (simp add: peek_def Let_def peeked_def)
      next
        case False
        let ?p = "p\<lparr>p_context := ctx, p_remaining := p_remaining p - length bs,
          p_metrics := (p_metrics p)\<lparr>m_bytes_read := m_bytes_read (p_metrics p) + length bs\<rparr>,
          p_cursor := 0, p_input := bs\<rparr>"
        have "length bs \<le> p_remaining p" using False by (auto split: if_splits)
        then have r: "rel F p ?p" by (rule refill_rel [OF assms read(2) _ c])
        have "peek p = Some (uint (hd bs), ?p)"
          using read rd ReadBytes False by (simp add: peek_def)
        then show ?thesis using r peeked_byte [OF read(1) _ r] read(1) False by simp
      qed
    qed
  qed
qed

lemmas peek_spec = peek_peeked [unfolded peeked_def]

lemmas peek_wp = wp_rel [OF peek_spec [OF rel_ok]]


lemma put_output_wp:
  assumes "so_value (p_output p) = Some v" "length v + length bs \<le> p_limit p + 1"
  shows "put_output p bs = Some (p\<lparr>p_output := (p_output p)\<lparr>so_value := Some (v @ bs)\<rparr>\<rparr>)"
  using assms by (simp add: put_output_def buf_put_def)

lemma emit_spec:
  assumes ok: "p_ok F p" and pre: "p_error p = None \<or> p_capture p = CORE"
  shows "wp (\<lambda>b p'. rel F p p' \<and> left p' = left p \<and> (b \<longrightarrow> p_error p' = p_error p) \<and>
    (\<not> b \<longrightarrow> p_error p' \<noteq> None)) (emit p c)"
proof (cases "p_capture p")
  case DISCARD
  then show ?thesis using ok by (simp add: emit_def rel_refl)
next
  case CORE
  then show ?thesis
    using ok fail_rel [OF rel_refl [OF ok], of EFBIG]
    by (cases "length (p_core p) = IPERF_RESULT_CORE_MAX_BYTES")
      (simp add: emit_def, auto simp: emit_def buf_put_def rel_def p_ok_def)
next
  case OUTPUT_JSON
  then have none: "p_error p = None" and js: "so_format (p_output p) = IPERF_OUTPUT_JSON"
    using pre ok by (auto simp: p_ok_def)
  show ?thesis
  proof (cases "so_state (p_output p) = IPERF_OUTPUT_COMPLETE")
    case True
    then obtain v where v: "so_value (p_output p) = Some v" "length v \<le> p_limit p"
      "so_observed_bytes (p_output p) = length v" "so_reason (p_output p) = IPERF_OUTPUT_REASON_NONE"
      using ok none by (auto simp: p_ok_def out_ok_def split: option.splits)
    then show ?thesis
      using ok OUTPUT_JSON True none js
      by (auto simp: emit_def Let_def observe_def so_length_def set_reason_def discard_output_def
          put_output_wp rel_def p_ok_def out_ok_def)
  next
    case False
    then show ?thesis
      using ok OUTPUT_JSON none js
      by (auto simp: emit_def Let_def observe_def rel_def p_ok_def out_ok_def so_length_def
          split: iperf_output_state.splits option.splits)
  qed
qed

lemmas emit_wp = wp_rel [OF emit_spec [OF rel_ok]]

lemma take_spec:
  assumes "p_ok F p"
  shows "wp (\<lambda>c p'. rel F p p' \<and> -1 \<le> c \<and> c < 256 \<and>
    (0 \<le> c \<longrightarrow> p_error p' = None \<and> left p' < left p) \<and> (c < 0 \<longrightarrow> p_error p' \<noteq> None)) (take_p p)"
  unfolding take_p_def wp_bind
proof (rule peek_wp [OF rel_refl [OF assms]  rel_refl [OF assms]], goal_cases)
  case (1 c p')
  show ?case
  proof (cases "c < 0")
    case True
    then show ?thesis using 1 fail_rel [of F p p'] by simp
  next
    case False
    with 1 have a: "rel F p (advance p')" "left (advance p') < left p" "p_error (advance p') = None"
      by (simp_all add: advance_def)
    show ?thesis
      unfolding if_not_P [OF False] wp_bind
      by (rule emit_wp [OF a(1) _ a(1)]) (use 1 a False in auto)
  qed
qed

lemmas take_wp = wp_rel [OF take_spec [OF rel_ok]]

definition good :: "bool \<Rightarrow> 'e parser \<Rightarrow> bool" where
  "good b p \<longleftrightarrow> b = (p_error p = None)"

lemma expect_spec:
  assumes "p_ok F p" "0 \<le> e"
  shows "wp (\<lambda>b p'. rel F p p' \<and> good b p' \<and> (b \<longrightarrow> left p' < left p)) (expect p e)"
  unfolding expect_def wp_bind
  by (rule take_wp [OF rel_refl [OF assms(1)] rel_refl [OF assms(1)]])
    (use assms(2) in \<open>auto simp: good_def intro: fail_rel\<close>)

lemmas expect_wp = wp_rel [OF expect_spec [OF rel_ok]]

lemma whitespace_spec:
  assumes "p_ok F p"
  shows "wp (\<lambda>_ p'. rel F p p') (whitespace p)"
  using assms
proof (induction "left p" arbitrary: p rule: less_induct)
  case less
  show ?case
    apply (subst whitespace.simps)
    unfolding wp_bind
  proof (rule peek_wp [OF rel_refl [OF less.prems] rel_refl [OF less.prems]], goal_cases)
    case (1 c p')
    show ?case
    proof (cases "is_space c")
      case True
      then have "0 \<le> c" by (auto simp: is_space_def)
      with 1 have a: "rel F p (advance p')" "left (advance p') < left p" by auto
      show ?thesis
        unfolding if_P [OF True]
        by (rule wp_mono [OF less.hyps [OF a(2) rel_ok [OF a(1)]]], rule rel_trans [OF a(1)])
    next
      case False
      then show ?thesis using 1 by simp
    qed
  qed
qed

lemma whitespace_wp:
  assumes "rel F q p" "\<And>p'. rel F q p' \<Longrightarrow> left p' \<le> left p \<Longrightarrow> Q () p'"
  shows "wp Q (whitespace p)"
  using wp_rel [of F p "\<lambda>_ _. True" "whitespace p" q Q] whitespace_spec [OF rel_ok [OF assms(1)]] assms
  by (simp add: wp_mono)

subsection \<open>Strings and scalars\<close>

lemma or_nat_less: "(a::nat) < 2 ^ k \<Longrightarrow> b < 2 ^ k \<Longrightarrow> a OR b < 2 ^ k"
  by (metis take_bit_nat_eq_self_iff take_bit_or)

lemma hex_digit_bounds: "hex_digit c = Some d \<Longrightarrow> 0 \<le> c \<and> 0 \<le> d \<and> d < 16"
  by (auto simp: hex_digit_def split: if_splits)

lemma hex_shift:
  assumes "unat (r :: uint32) < 2 ^ n" "n \<le> 28" "0 \<le> d" "d < 16"
  shows "unat (push_bit 4 r OR word_of_int d) < 2 ^ (n + 4)"
proof -
  have "(2::nat) ^ (n + 4) \<le> 2 ^ 32" using assms(2) by (intro power_increasing) auto
  then have lt: "unat r * 16 < 4294967296" using assms(1) by (simp add: power_add)
  have "unat (push_bit 4 r) = unat r * 16"
    using lt by (simp add: push_bit_eq_mult unat_word_ariths)
  then have "unat (push_bit 4 r) < 2 ^ (n + 4)" using assms(1) by (simp add: power_add)
  moreover have "unat (word_of_int d :: uint32) = nat d"
    using assms(3,4) by (simp add: unsigned_of_int take_bit_int_eq_self)
  then have "unat (word_of_int d :: uint32) < 2 ^ (n + 4)"
    using assms(3,4) by (auto simp: power_add intro: order.strict_trans2 [of _ 16])
  ultimately show ?thesis unfolding unsigned_or_eq by (rule or_nat_less)
qed

lemma hex4_loop_spec:
  assumes "p_ok F p" "p_error p = None" "unat r < 2 ^ n" "n + 4 * i = 16"
  shows "wp (\<lambda>s p'. rel F p p' \<and> (case s of None \<Rightarrow> p_error p' \<noteq> None
    | Some v \<Rightarrow> p_error p' = None \<and> unat v < 2 ^ 16)) (hex4_loop i r p)"
  using assms
proof (induction i arbitrary: r p n)
  case 0
  then show ?case by (simp add: rel_refl)
next
  case (Suc i)
  note r = rel_refl [OF Suc.prems(1)]
  show ?case
    unfolding hex4_loop.simps wp_bind
  proof (rule take_wp [OF r r], goal_cases)
    case (1 c p')
    show ?case
    proof (cases "hex_digit c")
      case None
      then show ?thesis using 1 by (auto intro: fail_rel)
    next
      case (Some d)
      then have d: "0 \<le> c" "0 \<le> d" "d < 16" using hex_digit_bounds by auto
      have n: "n \<le> 28" "(n + 4) + 4 * i = 16" using Suc.prems(4) by simp_all
      have "wp (\<lambda>s p2. rel F p' p2 \<and> (case s of None \<Rightarrow> p_error p2 \<noteq> None
          | Some v \<Rightarrow> p_error p2 = None \<and> unat v < 2 ^ 16)) (hex4_loop i (push_bit 4 r OR word_of_int d) p')"
        using Suc.IH [OF rel_ok [OF 1(1)] _ hex_shift [OF Suc.prems(3) n(1) d(2,3)] n(2)] 1 d(1) by auto
      then show ?thesis
        unfolding Some option.case by (rule wp_mono) (use 1 rel_trans in auto)
    qed
  qed
qed

lemma hex4_spec:
  assumes "p_ok F p" "p_error p = None"
  shows "wp (\<lambda>s p'. rel F p p' \<and> (case s of None \<Rightarrow> p_error p' \<noteq> None
    | Some v \<Rightarrow> p_error p' = None \<and> unat v < 2 ^ 16)) (hex4 p)"
  unfolding hex4_def using hex4_loop_spec [OF assms, of 0 0 4] by simp

lemmas hex4_wp = wp_rel [OF hex4_spec [OF rel_ok]]

definition scalar_result :: "uint32 option \<Rightarrow> 'e parser \<Rightarrow> bool" where
  "scalar_result s p \<longleftrightarrow>
     (case s of None \<Rightarrow> p_error p \<noteq> None | Some v \<Rightarrow> p_error p = None \<and> scalar_ok v)"

lemma scalar_result_simps [simp]:
  "scalar_result None p \<longleftrightarrow> p_error p \<noteq> None"
  "scalar_result (Some v) p \<longleftrightarrow> p_error p = None \<and> scalar_ok v"
  by (simp_all add: scalar_result_def)

lemma surrogate_pair_ok:
  fixes h l :: uint32
  assumes "0xd800 \<le> h" "h \<le> 0xdbff" "0xdc00 \<le> l" "l \<le> 0xdfff"
  shows "scalar_ok (0x10000 + push_bit 10 (h - 0xd800) + l - 0xdc00)"
proof -
  have b: "55296 \<le> unat h" "unat h \<le> 56319" "56320 \<le> unat l" "unat l \<le> 57343"
    using assms by (simp_all add: word_le_nat_alt)
  have shift: "unat (push_bit 10 d) = unat d * 1024" if "unat d < 1024" for d :: uint32
    using that by (simp add: push_bit_eq_mult unat_word_ariths)
  have "unat (h - 0xd800) = unat h - 55296" using assms(1) by (simp add: unat_sub)
  then have h: "unat (push_bit 10 (h - 0xd800)) = (unat h - 55296) * 1024"
    using shift [of "h - 0xd800"] b by simp
  define x where "x = 0x10000 + push_bit 10 (h - 0xd800) + l"
  have s: "unat x = 65536 + (unat h - 55296) * 1024 + unat l"
    using b by (simp add: x_def unat_word_ariths h)
  then have "0xdc00 \<le> x" using b by (simp add: word_le_nat_alt)
  then have "unat (x - 0xdc00) = 65536 + (unat h - 55296) * 1024 + unat l - 56320"
    using s by (simp add: unat_sub)
  then have "scalar_ok (x - 0xdc00)" using b by (simp add: scalar_ok_def word_le_nat_alt)
  then show ?thesis by (simp only: x_def)
qed

lemma unicode_escape_spec:
  assumes "p_ok F p" "p_error p = None"
  shows "wp (\<lambda>s p'. rel F p p' \<and> scalar_result s p') (unicode_escape p)"
proof -
  note r = rel_refl [OF assms(1)]
  have pair: "wp (\<lambda>s p'. rel F p p' \<and> scalar_result s p')
      (do { (l, p) \<leftarrow> hex4 p2;
            case l of None \<Rightarrow> Some (None, p)
            | Some low \<Rightarrow> if low < 0xdc00 \<or> low > 0xdfff then Some (None, snd (fail p EPROTO))
                else Some (Some (0x10000 + push_bit 10 (h - 0xd800) + low - 0xdc00), p) })"
    if "rel F p p2" "p_error p2 = None" "0xd800 \<le> h" "h \<le> 0xdbff" for p2 h
    unfolding wp_bind
    by (rule hex4_wp [OF that(1) _ that(1)])
      (use that surrogate_pair_ok [of h] in \<open>auto intro: fail_rel simp: not_less split: option.splits\<close>)
  show ?thesis
    unfolding unicode_escape_def wp_bind
  proof (rule hex4_wp [OF r assms(2) r], goal_cases)
    case (1 s p1)
    show ?case
    proof (cases s)
      case None
      then show ?thesis using 1 by simp
    next
      case (Some h)
      with 1 have "unat h < 65536" "p_error p1 = None" by simp_all
      then have "scalar_ok h" if "\<not> (0xd800 \<le> h \<and> h \<le> 0xdbff)" "\<not> (0xdc00 \<le> h \<and> h \<le> 0xdfff)"
        using that by (simp add: scalar_ok_def word_le_nat_alt) linarith
      moreover have "wp (\<lambda>s p'. rel F p p' \<and> scalar_result s p')
        (do { (ok, p) \<leftarrow> expect p1 92;
             if \<not> ok then Some (None, p)
             else do { (ok, p) \<leftarrow> expect p (ch CHR ''u'');
                       if \<not> ok then Some (None, p)
                       else do { (l, p) \<leftarrow> hex4 p;
            case l of None \<Rightarrow> Some (None, p)
            | Some low \<Rightarrow> if low < 0xdc00 \<or> low > 0xdfff then Some (None, snd (fail p EPROTO))
                else Some (Some (0x10000 + push_bit 10 (h - 0xd800) + low - 0xdc00), p) } } })"
        if "0xd800 \<le> h" "h \<le> 0xdbff"
        unfolding wp_bind
        apply (rule expect_wp [OF 1(1) _ 1(1)], simp)
        subgoal for ok p2
          apply (cases ok)
           apply (simp only: not_True_eq_False if_False wp_bind)
           apply (rule expect_wp [where F = F and q = p and p = p2, OF _ _ ], assumption, simp, assumption)
          using pair that by (auto simp: good_def)
        done
      ultimately show ?thesis using Some 1 by (auto intro: fail_rel)
    qed
  qed
qed

lemmas unicode_escape_wp = wp_rel [OF unicode_escape_spec [OF rel_ok]]

lemma escape_spec:
  assumes "p_ok F p"
  shows "wp (\<lambda>s p'. rel F p p' \<and> scalar_result s p') (escape p)"
proof -
  note r = rel_refl [OF assms]
  show ?thesis
    unfolding escape_def wp_bind
  proof (rule take_wp [OF r r], goal_cases)
    case (1 c p')
    have "wp (\<lambda>s p'. rel F p p' \<and> scalar_result s p') (unicode_escape p')" if "c = ch CHR ''u''"
      by (rule unicode_escape_wp [OF 1(1) _ 1(1)]) (use 1 that in auto)
    then show ?case using 1 by (auto intro: fail_rel simp: scalar_ok_def)
  qed
qed

lemmas escape_wp = wp_rel [OF escape_spec [OF rel_ok]]

lemma utf8_rest_spec:
  assumes "p_ok F p" "p_error p = None"
  shows "wp (\<lambda>s p'. rel F p p' \<and> (s = None) = (p_error p' \<noteq> None)) (utf8_rest i v p)"
  using assms
proof (induction i arbitrary: v p)
  case 0
  then show ?case by (simp add: rel_refl)
next
  case (Suc i)
  note r = rel_refl [OF Suc.prems(1)]
  show ?case
    unfolding utf8_rest.simps wp_bind
  proof (rule take_wp [OF r r], goal_cases)
    case (1 c p')
    have "wp (\<lambda>s p2. rel F p p2 \<and> (s = None) = (p_error p2 \<noteq> None))
        (utf8_rest i (push_bit 6 v OR word_of_int (c AND 0x3f)) p')" if "\<not> c < 0x80"
      by (rule wp_rel [OF Suc.IH [OF rel_ok [OF 1(1)]] 1(1)]) (use 1 that in auto)
    then show ?case using 1 by (auto intro: fail_rel)
  qed
qed

lemmas utf8_rest_wp = wp_rel [OF utf8_rest_spec [OF rel_ok]]

lemma utf8_scalar_spec:
  assumes "p_ok F p" "p_error p = None"
  shows "wp (\<lambda>s p'. rel F p p' \<and> scalar_result s p') (utf8_scalar c p)"
proof -
  note r = rel_refl [OF assms(1)]
  show ?thesis
  proof (cases "utf8_start c")
    case None
    then show ?thesis using fail_rel [OF r] by (auto simp: utf8_scalar_def)
  next
    case (Some a)
    then obtain n v m where "utf8_start c = Some (n, v, m)" by (cases a) auto
    then show ?thesis
      unfolding utf8_scalar_def option.case prod.case wp_bind
      by (simp del: wp_bind add: wp_bind, intro utf8_rest_wp [OF r assms(2) r])
        (auto intro: fail_rel simp: scalar_ok_def not_less split: option.splits)
  qed
qed

lemmas utf8_scalar_wp = wp_rel [OF utf8_scalar_spec [OF rel_ok]]

definition dest_ok :: "'e parser \<Rightarrow> decoded option \<Rightarrow> bool" where
  "dest_ok p destination \<longleftrightarrow>
     (case destination of None \<Rightarrow> True
      | Some d \<Rightarrow> (case d_key d of Some k \<Rightarrow> length k \<le> 127
                   | None \<Rightarrow> d_output_text d \<longrightarrow> so_format (p_output p) = IPERF_OUTPUT_TEXT))"

lemma dest_ok_rel: "rel F p p' \<Longrightarrow> dest_ok p' d = dest_ok p d"
  by (simp add: rel_def dest_ok_def split: option.splits)

lemma utf8_bytes_length: "length (utf8_bytes s) \<le> 4" "utf8_bytes s \<noteq> []"
  by (auto simp: utf8_bytes_def)

lemma decoded_scalar_spec:
  assumes ok: "p_ok F p" and none: "p_error p = None" and d: "dest_ok p destination"
    and s: "scalar_ok s"
  shows "wp (\<lambda>x p'. rel F p p' \<and> left p' = left p \<and> good (fst x) p' \<and> dest_ok p (snd x))
    (decoded_scalar p destination s)"
proof (cases destination)
  case None
  then show ?thesis using ok none by (simp add: decoded_scalar_def rel_refl good_def dest_ok_def)
next
  case (Some x)
  note r = rel_refl [OF ok]
  show ?thesis
  proof (cases "d_key x")
    case (Some k)
    then show ?thesis
      using \<open>destination = Some x\<close> d none fail_rel [OF r] r
      by (auto simp: decoded_scalar_def good_def dest_ok_def buf_put_def Let_def)
  next
    case None
    show ?thesis
    proof (cases "d_output_text x \<and> \<not> (d_is_key x \<and> s = 0)")
      case True
      then have tf: "so_format (p_output p) = IPERF_OUTPUT_TEXT" and cap: "p_capture p \<noteq> OUTPUT_JSON"
        using d ok \<open>destination = Some x\<close> None by (auto simp: dest_ok_def p_ok_def)
      let ?n = "length (utf8_bytes s)"
      show ?thesis
      proof (cases "so_state (p_output p) = IPERF_OUTPUT_COMPLETE \<and> s \<noteq> 0")
        case False
        then show ?thesis
          using ok \<open>destination = Some x\<close> None True none tf cap d
          by (auto simp: decoded_scalar_def Let_def observe_def set_reason_def discard_output_def
              rel_def p_ok_def out_ok_def good_def dest_ok_def so_length_def
              split: iperf_output_state.splits)
      next
        case complete: True
        then obtain v where v: "so_value (p_output p) = Some v" "length v \<le> p_limit p" "utf8_text v"
          "so_observed_bytes (p_output p) = length v" "so_reason (p_output p) = IPERF_OUTPUT_REASON_NONE"
          using ok none tf by (auto simp: p_ok_def out_ok_def split: option.splits)
        have "utf8_text (v @ utf8_bytes s)" using v(3) s complete by (simp add: utf8_text_snoc)
        then show ?thesis
          using ok \<open>destination = Some x\<close> None True none tf cap d v complete
          by (auto simp: decoded_scalar_def Let_def observe_def set_reason_def put_output_wp
              rel_def p_ok_def out_ok_def good_def dest_ok_def so_length_def)
      qed
    next
      case False
      then show ?thesis
        using \<open>destination = Some x\<close> None d none fail_rel [OF r] r
        by (auto simp: decoded_scalar_def good_def dest_ok_def Let_def)
    qed
  qed
qed

lemmas decoded_scalar_wp = wp_rel [OF decoded_scalar_spec [OF rel_ok]]

lemma string_loop_spec:
  assumes "p_ok F p" "dest_ok p d"
  shows "wp (\<lambda>x p'. rel F p p' \<and> good (fst x) p' \<and> dest_ok p (snd x)) (string_loop d p)"
  using assms
proof (induction "left p" arbitrary: p d rule: less_induct)
  case less
  note r = rel_refl [OF less.prems(1)]
  have step: "wp (\<lambda>x p'. rel F p p' \<and> good (fst x) p' \<and> dest_ok p (snd x))
      (do { ((ok, d), p) \<leftarrow> decoded_scalar p2 d v;
            if \<not> ok then Some ((False, d), p) else string_loop d p })"
    if r2: "rel F p p2" "left p2 < left p" "p_error p2 = None" "scalar_ok v" for p2 v
  proof -
    have d2: "dest_ok p2 d" using less.prems(2) dest_ok_rel [OF r2(1)] by simp
    show ?thesis
      unfolding wp_bind
    proof (rule decoded_scalar_wp [OF r2(1,3) d2 r2(4) r2(1)], goal_cases)
      case 2: (1 x p3)
      obtain ok d3 where x: "x = (ok, d3)" by (cases x)
      show ?case
      proof (cases ok)
        case True
        have lt: "left p3 < left p" using 2 r2(2) by simp
        have d3: "dest_ok p3 d3" using 2 x dest_ok_rel [OF 2(1)] dest_ok_rel [OF r2(1)] by auto
        show ?thesis
          using wp_rel [OF less.hyps [OF lt rel_ok [OF 2(1)] d3] 2(1)] x True dest_ok_rel [OF 2(1)]
          by simp
      next
        case False
        then show ?thesis using 2 x dest_ok_rel [OF r2(1)] by auto
      qed
    qed
  qed
  show ?case
  proof (cases "p_error p = None")
    case False
    then show ?thesis using less.prems r by (subst string_loop.simps) (auto simp: good_def)
  next
    case True
    then have eq: "string_loop d p = do { (c, p) \<leftarrow> take_p p;
        if c = 34 then Some ((True, d), p)
        else if c < 0x20 then Some ((False, d), snd (fail p EPROTO))
        else do { (s, p) \<leftarrow> (if c = 92 then escape p
                            else if c < 0x80 then Some (Some (word_of_int c), p) else utf8_scalar c p);
                  case s of None \<Rightarrow> Some ((False, d), p)
                  | Some v \<Rightarrow> do { ((ok, d), p) \<leftarrow> decoded_scalar p d v;
                        if \<not> ok then Some ((False, d), p) else string_loop d p } } }"
      by (subst string_loop.simps) simp
    show ?thesis
      unfolding eq wp_bind
    proof (rule take_wp [OF r r], goal_cases)
      case (1 c p1)
      show ?case
      proof (cases "c = 34 \<or> c < 0x20")
        case True
        then show ?thesis using 1 less.prems(2) by (auto simp: good_def intro: fail_rel)
      next
        case False
        have c: "left p1 < left p" "p_error p1 = None" "0 \<le> c" using 1 False by auto
        have "wp (\<lambda>s p'. rel F p1 p' \<and> scalar_result s p') (if c = 92 then escape p1
            else if c < 0x80 then Some (Some (word_of_int c), p1) else utf8_scalar c p1)"
          using escape_spec [OF rel_ok [OF 1(1)]] utf8_scalar_spec [OF rel_ok [OF 1(1)] c(2)]
            rel_refl [OF rel_ok [OF 1(1)]] c False
          by (auto simp: scalar_ok_def word_le_nat_alt unsigned_of_int take_bit_int_eq_self)
        then have "wp (\<lambda>s p. wp (\<lambda>x p'. rel F (p0 :: 'a parser) p' \<and> good (fst x) p' \<and> dest_ok p0 (snd x))
            (case s of None \<Rightarrow> Some ((False, d), p)
             | Some v \<Rightarrow> do { ((ok, d), p) \<leftarrow> decoded_scalar p d v;
                 if \<not> ok then Some ((False, d), p) else string_loop d p }))
          (if c = 92 then escape p1
            else if c < 0x80 then Some (Some (word_of_int c), p1) else utf8_scalar c p1)" if "p0 = p" for p0
          unfolding that
        proof (rule wp_rel [OF _ 1(1)], goal_cases)
          case (1 s p2)
          then show ?case using step [of p2] c less.prems(2)
            by (cases s) (auto simp: good_def)
        qed
        then show ?thesis using False by simp
      qed
    qed
  qed
qed

lemma string_spec:
  assumes "p_ok F p" "dest_ok p d"
  shows "wp (\<lambda>x p'. rel F p p' \<and> good (fst x) p' \<and> dest_ok p (snd x)) (string_p p d)"
  unfolding string_p_def wp_bind
proof (rule expect_wp [OF rel_refl [OF assms(1)] _ rel_refl [OF assms(1)]], simp, goal_cases)
  case (1 b p')
  show ?case
  proof (cases b)
    case True
    have d: "dest_ok p' d" using assms(2) dest_ok_rel [OF 1(1)] by simp
    show ?thesis
      using wp_rel [OF string_loop_spec [OF rel_ok [OF 1(1)] d] 1(1)] True dest_ok_rel [OF 1(1)]
      by simp
  next
    case False
    then show ?thesis using 1 assms(2) by simp
  qed
qed

lemmas string_wp = wp_rel [OF string_spec [OF rel_ok]]

subsection \<open>Numbers, literals and members\<close>

lemma number_digits_spec:
  assumes "p_ok F p"
  shows "wp (\<lambda>r p'. rel F p p' \<and> (r = None \<longrightarrow> p_error p' \<noteq> None)) (number_digits n p)"
  using assms
proof (induction "IPERF_RESULT_MAX_NUMBER_LENGTH - n" arbitrary: n p rule: less_induct)
  case less
  note r = rel_refl [OF less.prems]
  show ?case
    apply (subst number_digits.simps)
    unfolding wp_bind
  proof (rule take_wp [OF r r], goal_cases)
    case t: (1 c p1)
    show ?case
    proof (cases "n + 1 > IPERF_RESULT_MAX_NUMBER_LENGTH")
      case True
      then show ?thesis using t by (auto intro: fail_rel)
    next
      case False
      show ?thesis
        unfolding if_not_P [OF False] wp_bind
      proof (rule peek_wp [OF t(1) t(1)], goal_cases)
        case p: (1 c2 p2)
        have "wp (\<lambda>r p'. rel F p p' \<and> (r = None \<longrightarrow> p_error p' \<noteq> None)) (number_digits (n + 1) p2)"
          by (rule wp_rel [OF less.hyps [OF _ rel_ok [OF p(1)]] p(1)]) (use False in auto)
        then show ?case using p by simp
      qed
    qed
  qed
qed

lemmas number_digits_wp = wp_rel [OF number_digits_spec [OF rel_ok]]

lemma number_fraction_spec:
  assumes "p_ok F p"
  shows "wp (\<lambda>r p'. rel F p p' \<and> (r = None \<longrightarrow> p_error p' \<noteq> None)) (number_fraction n p)"
proof -
  note r = rel_refl [OF assms]
  have digits: "wp (\<lambda>r p'. rel F p p' \<and> (r = None \<longrightarrow> p_error p' \<noteq> None))
     (do { (_, p) \<leftarrow> take_p p1; (c, p) \<leftarrow> peek p;
           if \<not> digit c then Some (None, snd (fail p EPROTO)) else number_digits (n + 1) p })"
    if "rel F p p1" for p1
    unfolding wp_bind
    apply (rule take_wp [OF that that], rule peek_wp, assumption+)
    subgoal for _ _ c p2
      using number_digits_wp [of F p p2 p] by (auto intro: fail_rel)
    done
  show ?thesis
    unfolding number_fraction_def wp_bind
    by (rule peek_wp [OF r r]) (use digits in simp)
qed

lemmas number_fraction_wp = wp_rel [OF number_fraction_spec [OF rel_ok]]

lemma number_exponent_spec:
  assumes "p_ok F p"
  shows "wp (\<lambda>b p'. rel F p p' \<and> good b p') (number_exponent n p)"
proof -
  note r = rel_refl [OF assms]
  have digits: "wp (\<lambda>b p'. rel F p p' \<and> good b p')
     (do { (c, p) \<leftarrow> peek p1;
           if \<not> digit c then Some (fail p EPROTO)
           else do { (r, p) \<leftarrow> number_digits k p;
                     case r of None \<Rightarrow> Some (False, p) | Some _ \<Rightarrow> Some (p_error p = None, p) } })"
    if "rel F p p1" for p1 k
    unfolding wp_bind
  proof (rule peek_wp [OF that that], goal_cases)
    case (1 c p2)
    have "wp (\<lambda>b p'. rel F p p' \<and> good b p') (do { (r, p) \<leftarrow> number_digits k p2;
        case r of None \<Rightarrow> Some (False, p) | Some _ \<Rightarrow> Some (p_error p = None, p) })"
      unfolding wp_bind
      by (rule number_digits_wp [OF 1(1) 1(1)]) (auto simp: good_def split: option.splits)
    then show ?case using 1 by (auto simp: good_def intro: fail_rel)
  qed
  have sign: "wp (\<lambda>b p'. rel F p p' \<and> good b p')
     (do { (n, p) \<leftarrow> (if c = ch CHR ''+'' \<or> c = ch CHR ''-''
                      then do { (_, p) \<leftarrow> take_p p1; Some (n + 2, p) } else Some (n + 1, p1));
           (c, p) \<leftarrow> peek p;
           if \<not> digit c then Some (fail p EPROTO)
           else do { (r, p) \<leftarrow> number_digits n p;
                     case r of None \<Rightarrow> Some (False, p) | Some _ \<Rightarrow> Some (p_error p = None, p) } })"
    if "rel F p p1" for p1 c
  proof (cases "c = ch CHR ''+'' \<or> c = ch CHR ''-''")
    case True
    then show ?thesis
      apply (simp only: if_True wp_bind)
      apply (rule take_wp [OF that that])
      using digits by (simp only: wp_Some wp_bind)
  next
    case False
    then show ?thesis using digits [OF that] by (simp only: if_False wp_bind wp_Some)
  qed
  show ?thesis
    unfolding number_exponent_def wp_bind
  proof (rule peek_wp [OF r r], goal_cases)
    case (1 c p1)
    have "wp (\<lambda>b p'. rel F p p' \<and> good b p')
       (do { (_, p) \<leftarrow> take_p p1; (c, p) \<leftarrow> peek p;
             (n, p) \<leftarrow> (if c = ch CHR ''+'' \<or> c = ch CHR ''-''
                      then do { (_, p) \<leftarrow> take_p p; Some (n + 2, p) } else Some (n + 1, p));
             (c, p) \<leftarrow> peek p;
             if \<not> digit c then Some (fail p EPROTO)
             else do { (r, p) \<leftarrow> number_digits n p;
                       case r of None \<Rightarrow> Some (False, p) | Some _ \<Rightarrow> Some (p_error p = None, p) } })"
      unfolding wp_bind [of _ "take_p p1"] 
      apply (rule take_wp [OF 1(1) 1(1)])
      apply (subst wp_bind)
      apply (rule peek_wp, assumption+)
      by (rule sign)
    then show ?case using 1 by (auto simp: good_def)
  qed
qed

lemmas number_exponent_wp = wp_rel [OF number_exponent_spec [OF rel_ok]]

lemma number_spec:
  assumes "p_ok F p"
  shows "wp (\<lambda>b p'. rel F p p' \<and> good b p') (number p)"
proof -
  note r = rel_refl [OF assms]
  have rest: "wp (\<lambda>b p'. rel F p p' \<and> good b p')
     (case c of None \<Rightarrow> Some (False, p1)
      | Some n \<Rightarrow> do { (r, p) \<leftarrow> number_fraction n p1;
                      case r of None \<Rightarrow> Some (False, p) | Some n \<Rightarrow> number_exponent n p })"
    if "rel F p p1" "c = None \<longrightarrow> p_error p1 \<noteq> None" for p1 c
  proof (cases c)
    case None
    then show ?thesis using that by (simp add: good_def)
  next
    case (Some n)
    show ?thesis
      unfolding Some option.case wp_bind
    proof (rule number_fraction_wp [OF that(1) that(1)], goal_cases)
      case (1 s p2)
      then show ?case
        using number_exponent_wp [OF 1(1) 1(1)] by (cases s) (auto simp: good_def)
    qed
  qed
  have int: "wp (\<lambda>b p'. rel F p p' \<and> good b p')
     (do { (c, p) \<leftarrow> peek p1;
           (r, p) \<leftarrow> (if c = ch CHR ''0'' then do { (_, p) \<leftarrow> take_p p; Some (Some (n + 1), p) }
                     else if c < ch CHR ''1'' \<or> c > ch CHR ''9'' then Some (None, snd (fail p EPROTO))
                     else number_digits n p);
           case r of None \<Rightarrow> Some (False, p)
           | Some n \<Rightarrow> do { (r, p) \<leftarrow> number_fraction n p;
                          case r of None \<Rightarrow> Some (False, p) | Some n \<Rightarrow> number_exponent n p } })"
    if "rel F p p1" for p1 n
    unfolding wp_bind [of _ "peek p1"]
  proof (rule peek_wp [OF that that], goal_cases)
    case (1 c p2)
    have "wp (\<lambda>r p'. rel F p p' \<and> (r = None \<longrightarrow> p_error p' \<noteq> None))
       (if c = ch CHR ''0'' then do { (_, p) \<leftarrow> take_p p2; Some (Some (n + 1), p) }
        else if c < ch CHR ''1'' \<or> c > ch CHR ''9'' then Some (None, snd (fail p2 EPROTO))
        else number_digits n p2)"
      unfolding wp_if wp_bind
      by (intro conjI impI take_wp [OF 1(1) 1(1)] number_digits_wp [OF 1(1) 1(1)])
        (auto intro: fail_rel [OF 1(1)])
    then show ?case
      unfolding wp_bind by (rule wp_mono) (use rest in auto)
  qed
  show ?thesis
    unfolding number_def wp_bind [of _ "peek p"]
  proof (rule peek_wp [OF r r], goal_cases)
    case (1 c p1)
    have "wp (\<lambda>n p'. rel F p p') (if c = ch CHR ''-'' then do { (_, p) \<leftarrow> take_p p1; Some (1 :: nat, p) }
        else Some (0, p1))"
      unfolding wp_if wp_bind
      by (intro conjI impI take_wp [OF 1(1) 1(1)]) (auto simp: 1(1))
    then show ?case
      unfolding wp_bind [of _ "if c = ch CHR ''-'' then _ else _"] by (rule wp_mono) (rule int)
  qed
qed

lemmas number_wp = wp_rel [OF number_spec [OF rel_ok]]

lemma ch_nonneg [simp]: "0 \<le> ch c"
  by (metis of_nat_0_le_iff of_nat_of_char)

lemma expect_all_spec:
  assumes "p_ok F p" "cs \<noteq> [] \<or> p_error p = None"
  shows "wp (\<lambda>b p'. rel F p p' \<and> good b p') (expect_all cs p)"
  using assms
proof (induction cs arbitrary: p)
  case Nil
  then show ?case by (simp add: rel_refl good_def)
next
  case (Cons c cs)
  note r = rel_refl [OF Cons.prems(1)]
  show ?case
    unfolding expect_all.simps wp_bind
  proof (rule expect_wp [OF r ch_nonneg r], goal_cases)
    case (1 b p1)
    then show ?case using wp_rel [OF Cons.IH [OF rel_ok [OF 1(1)]] 1(1)] by (auto simp: good_def)
  qed
qed

lemma object_key_spec:
  assumes "p_ok F p"
  shows "wp (\<lambda>b p'. rel F p p' \<and> (\<not> b \<longrightarrow> p_error p' \<noteq> None)) (object_key object p)"
proof (cases object)
  case False
  then show ?thesis using assms by (simp add: object_key_def rel_refl)
next
  case True
  note r = rel_refl [OF assms]
  let ?d = "Some \<lparr>d_key = None, d_output_text = False, d_is_key = True\<rparr>"
  have d: "dest_ok p ?d" by (simp add: dest_ok_def)
  have colon: "wp (\<lambda>b p'. rel F p p' \<and> (\<not> b \<longrightarrow> p_error p' \<noteq> None))
     (do { (_, p) \<leftarrow> whitespace p1; expect p (ch CHR '':'') })" if "rel F p p1" for p1
    unfolding wp_bind
    by (rule whitespace_wp [OF that], rule expect_wp, assumption) (auto simp: good_def)
  show ?thesis
    unfolding object_key_def if_P [OF True] wp_bind [of _ "string_p p ?d"]
  proof (rule string_wp [OF r d r], goal_cases)
    case (1 x p1)
    then show ?case using colon [OF 1(1)] by (cases x) (auto simp: good_def simp del: wp_bind)
  qed
qed

lemmas object_key_wp = wp_rel [OF object_key_spec [OF rel_ok]]

text \<open>One round of the member loop, with the recursive call and the next round abstracted.\<close>

lemma members_round:
  assumes r: "rel F q p" "left p \<le> n" and close: "0 \<le> close"
    and val: "\<And>p. p_ok F p \<Longrightarrow> wp (\<lambda>b p'. rel F p p' \<and> good b p') (val p)"
    and next_round: "\<And>p. rel F q p \<Longrightarrow> left p < n \<Longrightarrow> wp (\<lambda>b p'. rel F q p' \<and> good b p') (again p)"
  shows "wp (\<lambda>b p'. rel F q p' \<and> good b p')
    (do { (ok, p) \<leftarrow> object_key object p;
          if \<not> ok then Some (False, p)
          else do { (ok, p) \<leftarrow> val p;
                    if \<not> ok then Some (False, p)
                    else do { (_, p) \<leftarrow> whitespace p;
                              (c, p) \<leftarrow> peek p;
                              if c = close then expect p close
                              else do { (ok, p) \<leftarrow> expect p (ch CHR '','');
                                        if \<not> ok then Some (False, p)
                                        else do { (_, p) \<leftarrow> whitespace p; again p } } } } })"
proof -
  have sep: "wp (\<lambda>b p'. rel F q p' \<and> good b p')
     (do { (ok, p) \<leftarrow> expect p1 (ch CHR '','');
           if \<not> ok then Some (False, p) else do { (_, p) \<leftarrow> whitespace p; again p } })"
    if "rel F q p1" "left p1 \<le> n" for p1
    unfolding wp_bind [of _ "expect _ _"]
  proof (rule expect_wp [OF that(1) ch_nonneg that(1)], goal_cases)
    case (1 b p2)
    have "wp (\<lambda>b p'. rel F q p' \<and> good b p') (do { (_, p) \<leftarrow> whitespace p2; again p })" if b
      unfolding wp_bind
      by (rule whitespace_wp [OF 1(1)], rule next_round) (use 1 that \<open>left p1 \<le> n\<close> in auto)
    then show ?case using 1 by (auto simp: good_def simp del: wp_bind)
  qed
  have tail: "wp (\<lambda>b p'. rel F q p' \<and> good b p')
     (do { (_, p) \<leftarrow> whitespace p1; (c, p) \<leftarrow> peek p;
           if c = close then expect p close
           else do { (ok, p) \<leftarrow> expect p (ch CHR '','');
                     if \<not> ok then Some (False, p) else do { (_, p) \<leftarrow> whitespace p; again p } } })"
    if "rel F q p1" "left p1 \<le> n" for p1
    unfolding wp_bind [of _ "whitespace p1"]
  proof (rule whitespace_wp [OF that(1)], goal_cases)
    case w: (1 p2)
    show ?case
      unfolding wp_bind [of _ "peek p2"]
    proof (rule peek_wp [OF w(1) w(1)], goal_cases)
      case (1 c p3)
      have "wp (\<lambda>b p'. rel F q p' \<and> good b p') (expect p3 close)"
        by (rule expect_wp [OF 1(1) close 1(1)]) simp
      then show ?case using sep [OF 1(1)] 1 w that by (simp del: wp_bind)
    qed
  qed
  have body: "wp (\<lambda>b p'. rel F q p' \<and> good b p')
     (do { (ok, p) \<leftarrow> val p1;
           if \<not> ok then Some (False, p)
           else do { (_, p) \<leftarrow> whitespace p; (c, p) \<leftarrow> peek p;
                     if c = close then expect p close
                     else do { (ok, p) \<leftarrow> expect p (ch CHR '','');
                        if \<not> ok then Some (False, p) else do { (_, p) \<leftarrow> whitespace p; again p } } } })"
    if "rel F q p1" "left p1 \<le> n" for p1
    unfolding wp_bind [of _ "val p1"]
  proof (rule wp_rel [OF val [OF rel_ok [OF that(1)]] that(1)], goal_cases)
    case (1 b p2)
    then show ?case using tail [OF 1(1)] that(2) by (auto simp: good_def simp del: wp_bind)
  qed
  show ?thesis
    unfolding wp_bind [of _ "object_key _ _"]
  proof (rule object_key_wp [OF r(1) r(1)], goal_cases)
    case (1 b p1)
    then show ?case using body [OF 1(1)] r(2) by (auto simp: good_def simp del: wp_bind)
  qed
qed

lemma members_spec:
  assumes val: "\<And>p. p_ok F p \<Longrightarrow> wp (\<lambda>b p'. rel F p p' \<and> good b p') (val p)"
    and close: "0 \<le> close" and "p_ok F p"
  shows "wp (\<lambda>b p'. rel F p p' \<and> good b p') (members val object close p)"
  using assms(3)
proof (induction "left p" arbitrary: p rule: less_induct)
  case less
  show ?case
  proof (subst members.simps, rule members_round [OF rel_refl [OF less.prems] order.refl close val])
    fix p2 assume a: "rel F p p2" "left p2 < left p"
    show "wp (\<lambda>b p'. rel F p p' \<and> good b p') (members val object close p2)"
      by (rule wp_rel [OF less.hyps [OF a(2) rel_ok [OF a(1)]] a(1)]) simp
  qed
qed

declare value_p.simps [simp del] number_digits.simps [simp del]

subsection \<open>Values\<close>

lemma count_depth_rel: "rel F q p \<Longrightarrow> depth \<le> IPERF_RESULT_MAX_DEPTH \<Longrightarrow> rel F q (count_depth p depth)"
  by (auto simp: count_depth_def rel_def p_ok_def)

lemma discard_nodes_rel:
  assumes "rel F q p" "p_capture p = OUTPUT_JSON" "so_state (p_output p) = IPERF_OUTPUT_COMPLETE"
  shows "rel F q (set_reason (discard_output p IPERF_OUTPUT_DISCARDED) IPERF_OUTPUT_NODE_LIMIT)"
  using assms by (auto simp: rel_def p_ok_def out_ok_def set_reason_def discard_output_def)

lemma count_core_rel:
  fixes p :: "'e parser"
  defines "p1 \<equiv> p\<lparr>p_metrics := (p_metrics p)\<lparr>m_core_values := m_core_values (p_metrics p) + 1\<rparr>\<rparr>"
  assumes "rel F q p"
  shows "rel F q (if m_core_values (p_metrics p1) > IPERF_RESULT_CORE_MAX_VALUES
                  then snd (fail p1 e) else p1)"
proof -
  have "out_ok (p_limit p) (Some e) (p_output p)"
    using assms(2) by (auto simp: rel_def p_ok_def intro: out_ok_error)
  then show ?thesis
    using assms by (cases "p_error p") (auto simp: rel_def p_ok_def fail_def)
qed

lemma count_any_rel:
  fixes p :: "'e parser"
  defines "p1 \<equiv> p\<lparr>p_values := p_values p + 1\<rparr>"
  assumes "rel F q p"
  shows "rel F q (if p_values p1 > IPERF_RESULT_MAX_VALUES then snd (fail p1 e) else p1)"
proof -
  have "out_ok (p_limit p) (Some e) (p_output p)"
    using assms(2) by (auto simp: rel_def p_ok_def intro: out_ok_error)
  then show ?thesis
    using assms by (cases "p_error p") (auto simp: rel_def p_ok_def fail_def)
qed

lemma count_value_spec:
  assumes "p_ok F p" "count_value p depth = (ok, p')"
  shows "rel F p p'" "\<not> ok \<longrightarrow> p_error p' \<noteq> None"
proof -
  note r = rel_refl [OF assms(1)]
  define p1 where "p1 = p\<lparr>p_values := p_values p + 1\<rparr>"
  define p2 where "p2 = count_depth p1 depth"
  define p3 where "p3 = p2\<lparr>p_metrics := (p_metrics p2)\<lparr>m_core_values := m_core_values (p_metrics p2) + 1\<rparr>\<rparr>"
  define p4 where "p4 = p2\<lparr>p_output_values := p_output_values p2 + 1\<rparr>"
  have cv: "count_value p depth =
    (if depth > IPERF_RESULT_MAX_DEPTH then fail p EFBIG
     else if p_values p1 > IPERF_RESULT_MAX_VALUES then fail p1 EFBIG
     else if p_capture p2 = CORE then
       if m_core_values (p_metrics p3) > IPERF_RESULT_CORE_MAX_VALUES then fail p3 EFBIG else (True, p3)
     else if p_capture p2 = OUTPUT_JSON then
       if p_output_values p4 > IPERF_RESULT_CORE_MAX_VALUES \<and> so_state (p_output p4) = IPERF_OUTPUT_COMPLETE
       then (True, set_reason (discard_output p4 IPERF_OUTPUT_DISCARDED) IPERF_OUTPUT_NODE_LIMIT)
       else (True, p4)
     else (True, p2))"
    unfolding count_value_def p4_def p3_def p2_def p1_def Let_def ..
  have p1: "rel F p (if p_values p1 > IPERF_RESULT_MAX_VALUES then snd (fail p1 EFBIG) else p1)"
    unfolding p1_def by (rule count_any_rel [OF r])
  have p2: "rel F p p2" if "\<not> p_values p1 > IPERF_RESULT_MAX_VALUES" "\<not> depth > IPERF_RESULT_MAX_DEPTH"
    unfolding p2_def by (rule count_depth_rel) (use p1 that in auto)
  have p3: "rel F p (if m_core_values (p_metrics p3) > IPERF_RESULT_CORE_MAX_VALUES then snd (fail p3 EFBIG) else p3)"
    if "rel F p p2" unfolding p3_def by (rule count_core_rel [OF that])
  have p4: "rel F p p4" if "rel F p p2"
    using that by (auto simp: p4_def rel_def p_ok_def)
  have "rel F p (snd (count_value p depth)) \<and> (\<not> fst (count_value p depth) \<longrightarrow> p_error (snd (count_value p depth)) \<noteq> None)"
  proof (cases "depth > IPERF_RESULT_MAX_DEPTH \<or> p_values p1 > IPERF_RESULT_MAX_VALUES")
    case True
    then show ?thesis unfolding cv using fail_rel [OF r] p1 by (auto simp del: not_None_eq)
  next
    case False
    then have "rel F p p2" using p2 by simp
    then show ?thesis
      unfolding cv using False p3 p4 discard_nodes_rel [of F p p4]
      by (cases "p_capture p2") (simp_all add: p4_def split: if_splits)
  qed
  then show "rel F p p'" "\<not> ok \<longrightarrow> p_error p' \<noteq> None" using assms(2) by simp_all
qed

lemma literal_nonempty [simp]: "literal c \<noteq> []"
  by (simp add: literal_def)

text \<open>An array or object, with the recursive call abstracted.\<close>

lemma compound_spec:
  assumes r: "rel F q p" and close: "0 \<le> close"
    and val: "\<And>p. p_ok F p \<Longrightarrow> wp (\<lambda>b p'. rel F p p' \<and> good b p') (val p)"
  shows "wp (\<lambda>b p'. rel F q p' \<and> good b p')
    (do { (_, p) \<leftarrow> take_p p; (_, p) \<leftarrow> whitespace p; (c, p) \<leftarrow> peek p;
          if c = close then expect p close else members val object close p })"
  unfolding wp_bind
  apply (rule take_wp [OF r r], rule whitespace_wp, assumption, rule peek_wp, assumption+)
  subgoal premises p for _ _ _ c p3
    using expect_wp [OF p(6) close p(6)] wp_rel [OF members_spec [OF val close rel_ok [OF p(6)]] p(6)]
    by simp
  done

lemma value_spec:
  assumes "p_ok F p" "dest_ok p d"
  shows "wp (\<lambda>x p'. rel F p p' \<and> good (fst x) p' \<and> dest_ok p (snd x)) (value_p depth d p)"
  using assms
proof (induction "IPERF_RESULT_MAX_DEPTH + 1 - depth" arbitrary: depth d p rule: less_induct)
  case less
  obtain ok p0 where cv: "count_value p depth = (ok, p0)" by fastforce
  note c0 = count_value_spec [OF less.prems(1) cv]
  show ?case
  proof (cases "\<not> ok \<or> depth > IPERF_RESULT_MAX_DEPTH")
    case True
    then show ?thesis
      using c0 cv less.prems(2) by (subst value_p.simps) (auto simp: good_def count_value_def fail_def split: if_splits)
  next
    case False
    define val where "val = (\<lambda>p. map_option (\<lambda>((ok, _), p). (ok, p)) (value_p (depth + 1) (None :: decoded option) (p :: 'a parser)))"
    have val: "wp (\<lambda>b p'. rel F p p' \<and> good b p') (val p)" if "p_ok F p" for p
    proof -
      have "wp (\<lambda>x p'. rel F p p' \<and> good (fst x) p' \<and> dest_ok p (snd x)) (value_p (depth + 1) None p)"
        using False by (intro less.hyps that) (auto simp: dest_ok_def)
      then show ?thesis by (auto simp: val_def wp_ex)
    qed
    have compound: "wp (\<lambda>x p'. rel F p p' \<and> good (fst x) p' \<and> dest_ok p (snd x))
        (do { (_, p) \<leftarrow> take_p p1; (_, p) \<leftarrow> whitespace p; (c, p) \<leftarrow> peek p;
              (ok, p) \<leftarrow> (if c = close then expect p close else members val object close p);
              Some ((ok, d), p) })" if "rel F p p1" "0 \<le> close" for p1 close object
      using compound_spec [OF that val, of object] less.prems(2) by simp
    have go: "wp (\<lambda>x p'. rel F p p' \<and> good (fst x) p' \<and> dest_ok p (snd x))
      (if c = 34 then string_p p2 d
       else if c = ch CHR ''-'' \<or> digit c then do { (ok, p) \<leftarrow> number p2; Some ((ok, d), p) }
       else if c = ch CHR ''t'' \<or> c = ch CHR ''f'' \<or> c = ch CHR ''n'' then
         do { (ok, p) \<leftarrow> expect_all (literal c) p2; Some ((ok, d), p) }
       else if c \<noteq> ch CHR ''['' \<and> c \<noteq> ch CHR ''{'' then Some ((False, d), snd (fail p2 EPROTO))
       else let object = (c = ch CHR ''{''); close = ch (if object then CHR ''}'' else CHR '']'')
            in do { (_, p) \<leftarrow> take_p p2; (_, p) \<leftarrow> whitespace p; (c, p) \<leftarrow> peek p;
                    (ok, p) \<leftarrow> (if c = close then expect p close else members val object close p);
                    Some ((ok, d), p) })" if r2: "rel F p p2" for c p2
    proof -
      have d2: "dest_ok p2 d" using less.prems(2) dest_ok_rel [OF r2] by simp
      have 1: "wp (\<lambda>x p'. rel F p p' \<and> good (fst x) p' \<and> dest_ok p (snd x)) (string_p p2 d)"
        by (rule string_wp [OF r2 d2 r2]) (use dest_ok_rel [OF r2] in auto)
      have 2: "wp (\<lambda>x p'. rel F p p' \<and> good (fst x) p' \<and> dest_ok p (snd x))
          (do { (ok, p) \<leftarrow> number p2; Some ((ok, d), p) })"
        unfolding wp_bind by (rule number_wp [OF r2 r2]) (use less.prems(2) in auto)
      have 3: "wp (\<lambda>x p'. rel F p p' \<and> good (fst x) p' \<and> dest_ok p (snd x))
          (do { (ok, p) \<leftarrow> expect_all (literal c) p2; Some ((ok, d), p) })"
        unfolding wp_bind
        by (rule wp_rel [OF expect_all_spec [OF rel_ok [OF r2]] r2]) (use less.prems(2) in auto)
      have 4: "wp (\<lambda>x p'. rel F p p' \<and> good (fst x) p' \<and> dest_ok p (snd x))
          (Some ((False, d), snd (fail p2 EPROTO)))"
        using fail_rel [OF r2] less.prems(2) by (simp add: good_def)
      show ?thesis
        unfolding wp_if Let_def using 1 2 3 4 compound [OF r2 ch_nonneg] by blast
    qed
    have eq: "value_p depth d p =
      do { (_, p) \<leftarrow> whitespace p0; (c, p) \<leftarrow> peek p;
       if c = 34 then string_p p d
       else if c = ch CHR ''-'' \<or> digit c then do { (ok, p) \<leftarrow> number p; Some ((ok, d), p) }
       else if c = ch CHR ''t'' \<or> c = ch CHR ''f'' \<or> c = ch CHR ''n'' then
         do { (ok, p) \<leftarrow> expect_all (literal c) p; Some ((ok, d), p) }
       else if c \<noteq> ch CHR ''['' \<and> c \<noteq> ch CHR ''{'' then Some ((False, d), snd (fail p EPROTO))
       else let object = (c = ch CHR ''{''); close = ch (if object then CHR ''}'' else CHR '']'')
            in do { (_, p) \<leftarrow> take_p p; (_, p) \<leftarrow> whitespace p; (c, p) \<leftarrow> peek p;
                    (ok, p) \<leftarrow> (if c = close then expect p close else members val object close p);
                    Some ((ok, d), p) } }"
      unfolding val_def by (subst value_p.simps) (simp only: cv prod.case False if_False)
    show ?thesis
      unfolding eq wp_bind [of _ "whitespace p0"]
    proof (rule whitespace_wp [OF c0(1)], goal_cases)
      case w: (1 p1)
      show ?case
        unfolding wp_bind [of _ "peek p1"] by (rule peek_wp [OF w(1) w(1)], rule go)
    qed
  qed
qed

lemmas value_wp = wp_rel [OF value_spec [OF rel_ok]]

subsection \<open>The root object\<close>

text \<open>The same relation for code that changes the capture mode or starts a new output.\<close>

definition wrel :: "nat \<Rightarrow> 'e parser \<Rightarrow> 'e parser \<Rightarrow> bool" where
  "wrel F p p' \<longleftrightarrow> p_ok F p' \<and> left p' \<le> left p \<and> p_limit p' = p_limit p \<and>
     (p_error p \<noteq> None \<longrightarrow> p_error p' = p_error p) \<and> p_read p' = p_read p \<and>
     called (p_read p) (p_context p) (p_context p')"

lemma rel_wrel: "rel F p p' \<Longrightarrow> wrel F p p'"
  by (simp add: rel_def wrel_def)

lemma wrel_trans: "wrel F p q \<Longrightarrow> wrel F q r \<Longrightarrow> wrel F p r"
  unfolding wrel_def by (auto intro: called_trans)

lemma wrel_ok: "wrel F p q \<Longrightarrow> p_ok F q"
  by (simp add: wrel_def)

lemma wrel_fail: "wrel F q p \<Longrightarrow> wrel F q (snd (fail p e))"
  using wrel_trans rel_wrel fail_rel rel_refl wrel_ok by metis

lemma wrel_capture:
  "wrel F q p \<Longrightarrow> c \<noteq> OUTPUT_JSON \<or> so_format (p_output p) = IPERF_OUTPUT_JSON \<Longrightarrow>
   wrel F q (set_capture p c)"
  by (auto simp: wrel_def p_ok_def)

lemma wp_wrel:
  assumes "wp (\<lambda>r p'. rel F p p' \<and> P r p') m" "wrel F q p"
    "\<And>r p'. wrel F q p' \<Longrightarrow> p_capture p' = p_capture p \<Longrightarrow>
       so_format (p_output p') = so_format (p_output p) \<Longrightarrow> left p' \<le> left p \<Longrightarrow> P r p' \<Longrightarrow> Q r p'"
  shows "wp Q m"
  using assms(1)
proof (rule wp_mono)
  fix r p' assume a: "rel F p p' \<and> P r p'"
  then have "left p' \<le> left p" by (simp add: rel_def)
  then show "Q r p'"
    using assms(3) wrel_trans [OF assms(2) rel_wrel] rel_capture rel_format a by blast
qed

lemmas peek_wpw = wp_wrel [OF peek_spec [OF wrel_ok]]
lemmas emit_wpw = wp_wrel [OF emit_spec [OF wrel_ok]]
lemmas expect_wpw = wp_wrel [OF expect_spec [OF wrel_ok]]
lemmas string_wpw = wp_wrel [OF string_spec [OF wrel_ok]]
lemmas value_wpw = wp_wrel [OF value_spec [OF wrel_ok]]

lemma whitespace_wpw:
  assumes "wrel F q p" "\<And>p'. wrel F q p' \<Longrightarrow> p_capture p' = p_capture p \<Longrightarrow>
     so_format (p_output p') = so_format (p_output p) \<Longrightarrow> left p' \<le> left p \<Longrightarrow> Q () p'"
  shows "wp Q (whitespace p)"
  using wp_wrel [of F p "\<lambda>_ _. True" "whitespace p" q Q] whitespace_spec [OF wrel_ok [OF assms(1)]] assms
  by (simp add: wp_mono)

lemma emit_all_spec:
  assumes "p_ok F p" "p_capture p = CORE"
  shows "wp (\<lambda>b p'. rel F p p' \<and> (\<not> b \<longrightarrow> p_error p' \<noteq> None)) (emit_all p bs)"
  using assms
proof (induction bs arbitrary: p)
  case Nil
  then show ?case by (simp add: rel_refl)
next
  case (Cons b bs)
  note r = rel_refl [OF Cons.prems(1)]
  show ?case
    unfolding emit_all.simps wp_bind
  proof (rule emit_wp [OF r _ r], goal_cases)
    case 1
    then show ?case using Cons.prems by simp
  next
    case (2 ok p1)
    then show ?case
      using wp_rel [OF Cons.IH [OF rel_ok [OF 2(1)]] 2(1)] Cons.prems(2) rel_capture [OF 2(1)] by auto
  qed
qed

lemma core_key_spec:
  assumes "p_ok F p" "p_capture p = CORE"
  shows "wp (\<lambda>b p'. rel F p p' \<and> (\<not> b \<longrightarrow> p_error p' \<noteq> None)) (core_key p key)"
  unfolding core_key_def by (rule emit_all_spec [OF assms])

lemmas core_key_wpw = wp_wrel [OF core_key_spec [OF wrel_ok]]

lemma begin_output_spec:
  assumes "p_ok F p" "begin_output p fmt = (ok, p')" "fmt \<noteq> IPERF_OUTPUT_NONE"
    "p_capture p \<noteq> OUTPUT_JSON"
  shows "wrel F p p' \<and> so_format (p_output p') = fmt \<and> (\<not> ok \<longrightarrow> p_error p' \<noteq> None) \<and>
    p_capture p' = p_capture p \<and>
    (ok \<longrightarrow> so_state (p_output p') = IPERF_OUTPUT_COMPLETE \<and> so_value (p_output p') = Some [])"
  using assms
  by (auto simp: begin_output_def Let_def fail_def wrel_def p_ok_def out_ok_def
      iperf_clear_server_output_def zero_output_def split: if_splits)

lemma output_member_spec:
  assumes "p_ok F p" "p_capture p = DISCARD"
  shows "wp (\<lambda>b p'. wrel F p p' \<and> good b p') (output_member json p)"
proof -
  obtain ok p1 where b: "begin_output p (if json then IPERF_OUTPUT_JSON else IPERF_OUTPUT_TEXT) = (ok, p1)"
    by fastforce
  note b1 = begin_output_spec [OF assms(1) b]
  have w1: "wrel F p p1" "p_capture p1 = DISCARD" "\<not> ok \<longrightarrow> p_error p1 \<noteq> None"
    "so_format (p_output p1) = (if json then IPERF_OUTPUT_JSON else IPERF_OUTPUT_TEXT)"
    using b1 assms(2) by auto
  show ?thesis
  proof (cases ok)
    case False
    then show ?thesis using b w1 by (simp add: output_member_def good_def)
  next
    case True
    then have ok: "ok = True" by simp
    show ?thesis
      unfolding output_member_def b prod.case ok not_True_eq_False if_False wp_bind [of _ "peek p1"]
    proof (rule peek_wpw [OF w1(1) w1(1)], goal_cases)
      case (1 c p2)
      define v where "v = (c = (if json then ch CHR ''{'' else 34))"
      define q where "q = set_reason (discard_output p2 IPERF_OUTPUT_INVALID) IPERF_OUTPUT_INVALID_DATA"
      define p3 where "p3 = set_capture (if v then p2
          else q\<lparr>p_output := (p_output q)\<lparr>so_observed_bytes_complete := False\<rparr>\<rparr>)
          (if json \<and> v then OUTPUT_JSON else DISCARD)"
      define d where "d = (if \<not> json \<and> v
          then Some \<lparr>d_key = None, d_output_text = True, d_is_key = False\<rparr> else None)"
      have w3: "wrel F p p3"
        using 1(1) 1(2) 1(3) w1
        by (auto simp: p3_def q_def wrel_def p_ok_def set_reason_def discard_output_def out_ok_def
            split: if_splits)
      have d3: "dest_ok p3 d"
        using 1(3) w1 by (auto simp: d_def dest_ok_def p3_def)
      have "wp (\<lambda>b p'. wrel F p p' \<and> good b p')
          (do { ((ok, _), p) \<leftarrow> value_p 1 d p3; Some (ok, p) })"
        unfolding wp_bind by (rule value_wpw [OF w3 d3 w3]) (auto split: prod.splits)
      then show ?case unfolding p3_def q_def d_def v_def Let_def .
    qed
  qed
qed

lemma core_member_spec:
  assumes "p_ok F p"
  shows "wp (\<lambda>b p'. wrel F p p' \<and> good b p') (core_member first key p)"
proof -
  have w: "wrel F p (set_capture p CORE)"
    using assms by (auto simp: wrel_def p_ok_def)
  have val: "wp (\<lambda>b p'. wrel F p p' \<and> good b p')
     (do { (ok, p) \<leftarrow> core_key p1 key;
           if \<not> ok then Some (False, p)
           else do { ((ok, _), p) \<leftarrow> value_p 1 None p; Some (ok, p) } })"
    if "wrel F p p1" "p_capture p1 = CORE" for p1
    unfolding wp_bind [of _ "core_key _ _"]
  proof (rule core_key_wpw [OF that that(1)], goal_cases)
    case (1 b p2)
    have d: "dest_ok p2 None" by (simp add: dest_ok_def)
    have "wp (\<lambda>b p'. wrel F p p' \<and> good b p') (do { ((ok, _), p) \<leftarrow> value_p 1 None p2; Some (ok, p) })"
      unfolding wp_bind by (rule value_wpw [OF 1(1) d 1(1)]) (auto split: prod.splits)
    then show ?case using 1 by (auto simp: good_def simp del: wp_bind)
  qed
  show ?thesis
  proof (cases first)
    case True
    then show ?thesis using val [OF w] by (simp add: core_member_def del: wp_bind)
  next
    case False
    show ?thesis
      unfolding core_member_def if_not_P [OF False] wp_bind [of _ "emit _ _"]
    proof (rule emit_wpw [OF w _ w], goal_cases)
      case (2 b p1)
      then show ?case using val [OF 2(1)] by (auto simp: good_def simp del: wp_bind)
    qed simp
  qed
qed

lemma root_member_spec:
  assumes "p_ok F p" "p_capture p = DISCARD"
  shows "wp (\<lambda>x p'. wrel F p p' \<and> good (fst x) p') (root_member seen first seen_json key p)"
proof -
  have r: "wrel F p p" using assms(1) by (simp add: wrel_def)
  have member: "wp (\<lambda>x p'. wrel F p p' \<and> good (fst x) p')
     (if json \<or> (tx \<and> \<not> seen_json)
      then do { (ok, p) \<leftarrow> output_member json p1; Some ((ok, sn, first, seen_json \<or> json), p) }
      else if tx then do { ((ok, _), p) \<leftarrow> value_p 1 None p1; Some ((ok, sn, first, seen_json), p) }
      else do { (ok, p) \<leftarrow> core_member first key p1; Some ((ok, sn, False, seen_json), p) })"
    if "wrel F p p1" "p_capture p1 = DISCARD" for p1 json tx and sn :: uint32
  proof -
    have d: "dest_ok p1 None" by (simp add: dest_ok_def)
    have 1: "wp (\<lambda>x p'. wrel F p p' \<and> good (fst x) p')
        (do { (ok, p) \<leftarrow> output_member json p1; Some ((ok, sn, first, seen_json \<or> json), p) })"
      unfolding wp_bind
      by (rule wp_mono [OF output_member_spec [OF wrel_ok [OF that(1)] that(2)]])
        (use wrel_trans [OF that(1)] in auto)
    have 2: "wp (\<lambda>x p'. wrel F p p' \<and> good (fst x) p')
        (do { ((ok, _), p) \<leftarrow> value_p 1 None p1; Some ((ok, sn, first, seen_json), p) })"
      unfolding wp_bind by (rule value_wpw [OF that(1) d that(1)]) (auto split: prod.splits)
    have 3: "wp (\<lambda>x p'. wrel F p p' \<and> good (fst x) p')
        (do { (ok, p) \<leftarrow> core_member first key p1; Some ((ok, sn, False, seen_json), p) })"
      unfolding wp_bind
      by (rule wp_mono [OF core_member_spec [OF wrel_ok [OF that(1)]]])
        (use wrel_trans [OF that(1)] in auto)
    show ?thesis unfolding wp_if using 1 2 3 by blast
  qed
  show ?thesis
  proof (cases "check_unique unique_keys 0 key seen")
    case None
    then show ?thesis using wrel_fail [OF r] by (simp add: root_member_def good_def)
  next
    case (Some sn)
    show ?thesis
      unfolding root_member_def Some option.case wp_bind [of _ "whitespace p"]
    proof (rule whitespace_wpw [OF r], goal_cases)
      case w: (1 p1)
      show ?case
        unfolding wp_bind [of _ "expect p1 _"]
      proof (rule expect_wpw [OF w(1) ch_nonneg w(1)], goal_cases)
        case e: (1 ok p2)
        show ?case
        proof (cases ok)
          case False
          then show ?thesis using e by simp
        next
          case True
          then have ok: "ok = True" by simp
          show ?thesis
            unfolding ok not_True_eq_False if_False wp_bind [of _ "whitespace p2"] Let_def
          proof (rule whitespace_wpw [OF e(1)], goal_cases)
            case (1 p3)
            then have "p_capture p3 = DISCARD" using e w assms(2) by simp
            with 1(1) show ?case by (rule member)
          qed
        qed
      qed
    qed
  qed
qed

text \<open>One round of the root loop, with the next round abstracted.\<close>

lemma root_round:
  assumes r: "wrel F q p" "left p \<le> n" "p_capture p = DISCARD"
    and next_round: "\<And>p s f j. wrel F q p \<Longrightarrow> left p < n \<Longrightarrow> p_capture p = DISCARD \<Longrightarrow>
      wp (\<lambda>b p'. wrel F q p' \<and> good b p' \<and> (b \<longrightarrow> p_capture p' = DISCARD)) (again s f j p)"
  shows "wp (\<lambda>b p'. wrel F q p' \<and> good b p' \<and> (b \<longrightarrow> p_capture p' = DISCARD))
    (do { ((ok, seen, first, seen_json), p) \<leftarrow> root_member seen first seen_json key p;
          if \<not> ok then Some (False, p)
          else do { (_, p) \<leftarrow> whitespace (set_capture p DISCARD);
                    (c, p) \<leftarrow> peek p;
                    if c = ch CHR ''}'' then Some (True, p)
                    else do { (ok, p) \<leftarrow> expect p (ch CHR '','');
                              if \<not> ok then Some (False, p)
                              else do { (_, p) \<leftarrow> whitespace p; again seen first seen_json p } } } })"
proof -
  let ?Q = "\<lambda>b p'. wrel F q p' \<and> good b p' \<and> (b \<longrightarrow> p_capture p' = DISCARD)"
  have sep: "wp ?Q (do { (ok, p) \<leftarrow> expect p1 (ch CHR '','');
        if \<not> ok then Some (False, p) else do { (_, p) \<leftarrow> whitespace p; again s f j p } })"
    if "wrel F q p1" "left p1 \<le> n" "p_capture p1 = DISCARD" for p1 s f j
    unfolding wp_bind [of _ "expect _ _"]
  proof (rule expect_wpw [OF that(1) ch_nonneg that(1)], goal_cases)
    case (1 b p2)
    have "wp ?Q (do { (_, p) \<leftarrow> whitespace p2; again s f j p })" if b
      unfolding wp_bind
      by (rule whitespace_wpw [OF 1(1)], rule next_round) (use 1 that \<open>left p1 \<le> n\<close> \<open>p_capture p1 = DISCARD\<close> in auto)
    then show ?case using 1 by (auto simp: good_def simp del: wp_bind)
  qed
  have tail: "wp ?Q (do { (_, p) \<leftarrow> whitespace (set_capture p1 DISCARD); (c, p) \<leftarrow> peek p;
        if c = ch CHR ''}'' then Some (True, p)
        else do { (ok, p) \<leftarrow> expect p (ch CHR '','');
                  if \<not> ok then Some (False, p) else do { (_, p) \<leftarrow> whitespace p; again s f j p } } })"
    if p1: "wrel F q p1" "left p1 \<le> n" for p1 s f j
  proof -
    have w1: "wrel F q (set_capture p1 DISCARD)" using p1(1) by (rule wrel_capture) simp
    show ?thesis
      unfolding wp_bind [of _ "whitespace _"]
    proof (rule whitespace_wpw [OF w1], goal_cases)
      case w: (1 p2)
      show ?case
        unfolding wp_bind [of _ "peek p2"]
      proof (rule peek_wpw [OF w(1) w(1)], goal_cases)
        case (1 c p3)
        then show ?case
          using sep [OF 1(1)] w p1 by (auto simp: good_def simp del: wp_bind)
      qed
    qed
  qed
  show ?thesis
    unfolding wp_bind [of _ "root_member _ _ _ _ _"]
  proof (rule wp_mono [OF root_member_spec [OF wrel_ok [OF r(1)] r(3)]], goal_cases)
    case (1 x p1)
    obtain ok s f j where x: "x = (ok, s, f, j)" by (cases x)
    have w: "wrel F q p1" "left p1 \<le> n" using 1 wrel_trans [OF r(1)] r(2) by (auto simp: wrel_def)
    show ?case using tail [OF w] 1 x w(1) by (auto simp: good_def simp del: wp_bind)
  qed
qed

lemma root_loop_spec:
  assumes "p_ok F p" "p_capture p = DISCARD"
  shows "wp (\<lambda>b p'. wrel F p p' \<and> good b p' \<and> (b \<longrightarrow> p_capture p' = DISCARD))
    (root_loop seen first seen_json p)"
  using assms
proof (induction "left p" arbitrary: p seen first seen_json rule: less_induct)
  case less
  let ?d = "Some \<lparr>d_key = Some [], d_output_text = False, d_is_key = True\<rparr>"
  have d: "dest_ok p ?d" by (simp add: dest_ok_def)
  have r: "wrel F p p" using less.prems by (simp add: wrel_def)
  show ?case
    apply (subst root_loop.simps)
    unfolding wp_bind [of _ "string_p p ?d"]
  proof (rule string_wpw [OF r d r], goal_cases)
    case (1 x p1)
    obtain ok d' where x: "x = (ok, d')" by (cases x)
    show ?case
    proof (cases ok)
      case False
      then show ?thesis using 1 x by simp
    next
      case True
      have c1: "p_capture p1 = DISCARD" using 1 less.prems by simp
      show ?thesis
        unfolding x prod.case eqTrueI [OF True] not_True_eq_False if_False
      proof (rule root_round [OF 1(1) 1(4) c1], goal_cases)
        case n: (1 p2 s f j)
        show ?case
          by (rule wp_mono [OF less.hyps [OF n(2) wrel_ok [OF n(1)] n(3)]])
            (use wrel_trans [OF n(1)] in auto)
      qed
    qed
  qed
qed

lemma root_close_spec:
  assumes "p_ok F p" "p_capture p = DISCARD"
  shows "wp (\<lambda>b p'. wrel F p p' \<and> good b p' \<and> (b \<longrightarrow> left p' = 0)) (root_close p)"
proof -
  let ?Q = "\<lambda>b p'. wrel F p p' \<and> good b p' \<and> (b \<longrightarrow> left p' = 0)"
  have r: "wrel F p p" using assms(1) by (simp add: wrel_def)
  have eof: "wp ?Q (do { (_, p) \<leftarrow> whitespace (set_capture p1 DISCARD); (c, p) \<leftarrow> peek p;
      if c < 0 \<and> p_error p = None then Some (True, p) else Some (fail p EPROTO) })"
    if "wrel F p p1" for p1
  proof -
    have w1: "wrel F p (set_capture p1 DISCARD)" using that by (rule wrel_capture) simp
    show ?thesis
      unfolding wp_bind
    proof (rule whitespace_wpw [OF w1], goal_cases)
      case w: (1 p2)
      show ?case
        by (rule peek_wpw [OF w(1) w(1)]) (use wrel_fail in \<open>auto simp: good_def\<close>)
    qed
  qed
  show ?thesis
    unfolding root_close_def wp_bind [of _ "expect p _"]
  proof (rule expect_wpw [OF r ch_nonneg r], goal_cases)
    case e: (1 b p1)
    have w1: "wrel F p (set_capture p1 CORE)" using e(1) by (rule wrel_capture) simp
    have "wp ?Q (do { (ok, p) \<leftarrow> emit (set_capture p1 CORE) (of_char CHR ''}'');
        if \<not> ok then Some (False, p)
        else do { (_, p) \<leftarrow> whitespace (set_capture p DISCARD); (c, p) \<leftarrow> peek p;
                  if c < 0 \<and> p_error p = None then Some (True, p) else Some (fail p EPROTO) } })"
      unfolding wp_bind [of _ "emit _ _"]
    proof (rule emit_wpw [OF w1 _ w1], goal_cases)
      case (2 b p2)
      then show ?case using eof [OF 2(1)] by (auto simp: good_def simp del: wp_bind)
    qed simp
    then show ?case using e by (auto simp: good_def simp del: wp_bind)
  qed
qed

lemma root_spec:
  assumes "p_ok F p"
  shows "wp (\<lambda>b p'. wrel F p p' \<and> good b p' \<and> (b \<longrightarrow> left p' = 0)) (root_p p)"
proof -
  let ?Q = "\<lambda>b p'. wrel F p p' \<and> good b p' \<and> (b \<longrightarrow> left p' = 0)"
  have r: "wrel F p (set_capture p DISCARD)" using assms by (auto simp: wrel_def p_ok_def)
  have close: "wp ?Q (root_close p1)" if "wrel F p p1" "p_capture p1 = DISCARD" for p1
    by (rule wp_mono [OF root_close_spec [OF wrel_ok [OF that(1)] that(2)]])
      (use wrel_trans [OF that(1)] in auto)
  have body: "wp ?Q (do { (_, p) \<leftarrow> whitespace (set_capture p1 DISCARD); (c, p) \<leftarrow> peek p;
        (ok, p) \<leftarrow> (if c \<noteq> ch CHR ''}'' then root_loop 0 True False p else Some (True, p));
        if \<not> ok then Some (False, p) else root_close p })" if p1: "wrel F p p1" for p1
  proof -
    have w1: "wrel F p (set_capture p1 DISCARD)" using p1 by (rule wrel_capture) simp
    show ?thesis
      unfolding wp_bind [of _ "whitespace _"]
    proof (rule whitespace_wpw [OF w1], goal_cases)
      case w: (1 p2)
      show ?case
        unfolding wp_bind [of _ "peek p2"]
      proof (rule peek_wpw [OF w(1) w(1)], goal_cases)
        case (1 c p3)
        have c3: "p_capture p3 = DISCARD" using 1 w by simp
        have "wp (\<lambda>b p'. wrel F p p' \<and> (\<not> b \<longrightarrow> p_error p' \<noteq> None) \<and> (b \<longrightarrow> p_capture p' = DISCARD))
            (if c \<noteq> ch CHR ''}'' then root_loop 0 True False p3 else Some (True, p3))"
          using root_loop_spec [OF wrel_ok [OF 1(1)] c3, of 0 True False] 1 c3 wrel_trans [OF 1(1)]
          by (auto simp: good_def elim!: wp_mono)
        then show ?case
          unfolding wp_bind by (rule wp_mono) (use close in \<open>auto simp: good_def\<close>)
      qed
    qed
  qed
  show ?thesis
    unfolding root_p_def wp_bind [of _ "whitespace _"]
  proof (rule whitespace_wpw [OF r], goal_cases)
    case w: (1 p1)
    show ?case
      unfolding wp_bind [of _ "expect p1 _"]
    proof (rule expect_wpw [OF w(1) ch_nonneg w(1)], goal_cases)
      case e: (1 b p2)
      have w2: "wrel F p (set_capture p2 CORE)" using e(1) by (rule wrel_capture) simp
      have "wp ?Q (do { (ok, p) \<leftarrow> emit (set_capture p2 CORE) (of_char CHR ''{'');
          if \<not> ok then Some (False, p)
          else do { (_, p) \<leftarrow> whitespace (set_capture p DISCARD); (c, p) \<leftarrow> peek p;
            (ok, p) \<leftarrow> (if c \<noteq> ch CHR ''}'' then root_loop 0 True False p else Some (True, p));
            if \<not> ok then Some (False, p) else root_close p } })"
        unfolding wp_bind [of _ "emit _ _"]
      proof (rule emit_wpw [OF w2 _ w2], goal_cases)
        case (2 b p3)
        then show ?case using body [OF 2(1)] by (auto simp: good_def simp del: wp_bind)
      qed simp
      then show ?case using e by (auto simp: good_def simp del: wp_bind)
    qed
  qed
qed

subsection \<open>Properties\<close>

lemma start_ok:
  assumes "frame_length \<le> IPERF_RESULT_FRAME_MAX_BYTES"
  shows "p_ok frame_length (start_parser frame_length output_limit rd ctx mal zero_output zero_metrics)"
  by (simp add: p_ok_def start_parser_def zero_metrics_def zero_output_def out_ok_def)

text \<open>What the outcome of a completed scan promises.\<close>

definition outcome_ok :: "nat \<Rightarrow> nat \<Rightarrow> ('j, 'e) read_outcome \<Rightarrow> bool" where
  "outcome_ok F L r \<longleftrightarrow>
     (case (ro_result r, ro_output r, ro_metrics r) of
        (Some j, Some out, Some m) \<Rightarrow>
          m_bytes_read m = F \<and> m_core_json_bytes m \<le> IPERF_RESULT_CORE_MAX_BYTES \<and>
          m_core_values m \<le> IPERF_RESULT_CORE_MAX_VALUES \<and>
          m_maximum_depth m \<le> IPERF_RESULT_MAX_DEPTH \<and>
          m_peak_buffer_capacity m \<le> IPERF_RESULT_CORE_MAX_BYTES + L + 2 \<and> out_ok L None out
      | (None, Some out, Some m) \<Rightarrow>
          m_bytes_read m \<le> F \<and> m_maximum_depth m \<le> IPERF_RESULT_MAX_DEPTH \<and>
          m_peak_buffer_capacity m \<le> IPERF_RESULT_CORE_MAX_BYTES + L + 2 \<and>
          ro_errno r \<noteq> None \<and> so_value out = None \<and> so_state out = IPERF_OUTPUT_INVALID
      | _ \<Rightarrow> False)"

lemma finish_read_ok:
  assumes "p_ok F p" "good ok p" "ok \<longrightarrow> left p = 0"
  shows "\<exists>r. finish_read parse ok p = Some r \<and> outcome_ok F (p_limit p) r"
proof (cases ok)
  case True
  then have p: "p_error p = None" "p_remaining p = 0" "m_bytes_read (p_metrics p) = F"
    using assms by (auto simp: good_def left_def p_ok_def)
  have v: "length v \<le> p_limit p" if "so_value (p_output p) = Some v" for v
    using assms(1) p(1) that
    by (auto simp: p_ok_def out_ok_def so_length_def split: iperf_output_state.splits)
  then obtain b where b: "(case so_value (p_output p) of None \<Rightarrow> Some []
      | Some v \<Rightarrow> buf_put (p_limit p + 1) v [0]) = Some b"
    by (cases "so_value (p_output p)") (auto simp: buf_put_def)
  have c: "buf_put (IPERF_RESULT_CORE_MAX_BYTES + 1) (p_core p) [0] = Some (p_core p @ [0])"
    using assms(1) by (simp add: buf_put_def p_ok_def)
  show ?thesis
    using True b c p assms(1)
    by (cases "parse (p_core p)")
      (auto simp: finish_read_def outcome_ok_def p_ok_def invalid_output_def fail_def
        iperf_clear_server_output_def zero_output_def Let_def)
next
  case False
  then show ?thesis
    using assms
    by (auto simp: finish_read_def outcome_ok_def p_ok_def invalid_output_def
        iperf_clear_server_output_def zero_output_def)
qed

lemma read_bounded_total:
  assumes "0 < output_limit" "output_limit \<le> IPERF_OUTPUT_MAX_BYTES" "0 < frame_length"
    "frame_length \<le> IPERF_RESULT_FRAME_MAX_BYTES"
  shows "\<exists>r. iperf_read_bounded_results parse mal frame_length output_limit (Some rd) ctx
      (Some zero_output) (Some zero_metrics) = Some r \<and> outcome_ok frame_length output_limit r"
proof (cases "mal 0")
  case False
  then show ?thesis
    using assms by (simp add: iperf_read_bounded_results_def outcome_ok_def invalid_output_def
        zero_output_def zero_metrics_def)
next
  case True
  let ?p = "start_parser frame_length output_limit rd ctx mal zero_output zero_metrics"
  obtain ok p where p: "root_p ?p = Some (ok, p)" "wrel frame_length ?p p" "good ok p"
    "ok \<longrightarrow> left p = 0"
    using root_spec [OF start_ok [OF assms(4), of output_limit rd ctx mal]] by (auto simp: wp_ex)
  have "p_limit p = output_limit" using p(2) by (simp add: wrel_def start_parser_def)
  then show ?thesis
    using finish_read_ok [OF wrel_ok [OF p(2)] p(3,4), of parse] True assms p(1)
    by (simp add: iperf_read_bounded_results_def)
qed

lemma finish_read_context: "finish_read parse ok p = Some r \<Longrightarrow> ro_context r = p_context p"
  by (auto simp: finish_read_def fail_def Let_def split: if_splits option.splits sum.splits bind_splits)

text \<open>The context is only changed by calls of the reader.\<close>

lemma read_bounded_called:
  assumes "0 < output_limit" "output_limit \<le> IPERF_OUTPUT_MAX_BYTES" "0 < frame_length"
    "frame_length \<le> IPERF_RESULT_FRAME_MAX_BYTES"
    and r: "iperf_read_bounded_results parse mal frame_length output_limit (Some rd) ctx
      (Some zero_output) (Some zero_metrics) = Some r"
  shows "called rd ctx (ro_context r)"
proof (cases "mal 0")
  case False
  then show ?thesis using assms by (auto simp: iperf_read_bounded_results_def)
next
  case True
  let ?p = "start_parser frame_length output_limit rd ctx mal zero_output zero_metrics"
  obtain ok p where p: "root_p ?p = Some (ok, p)" "wrel frame_length ?p p"
    using root_spec [OF start_ok [OF assms(4), of output_limit rd ctx mal]] by (auto simp: wp_ex)
  have "finish_read parse ok p = Some r"
    using r True assms p(1) by (simp add: iperf_read_bounded_results_def)
  then show ?thesis using p(2) finish_read_context by (fastforce simp: wrel_def start_parser_def)
qed

definition mem_reader :: "bytes reader" where
  "mem_reader ctx n = (ReadBytes (take n ctx), drop n ctx)"

definition bytes_of :: "char list \<Rightarrow> bytes" where
  "bytes_of s = map of_char s"


text \<open>
  C7. For every reader, every allocator and every frame within the limits, the bounded reader
  terminates without an access outside its buffers; it never consumes more than the
  declared frame, the depth and the buffer capacity it asks for stay within their limits,
  and when it returns no tree it reports an error and delivers no partial output.
\<close>

theorem read_bounded_results_safe:
  assumes "0 < output_limit" "output_limit \<le> IPERF_OUTPUT_MAX_BYTES" "0 < frame_length"
    "frame_length \<le> IPERF_RESULT_FRAME_MAX_BYTES"
  shows "\<exists>r out m. iperf_read_bounded_results parse mal frame_length output_limit (Some rd) ctx
      (Some zero_output) (Some zero_metrics) = Some r \<and>
    ro_output r = Some out \<and> ro_metrics r = Some m \<and> m_bytes_read m \<le> frame_length \<and>
    m_maximum_depth m \<le> IPERF_RESULT_MAX_DEPTH \<and>
    m_peak_buffer_capacity m \<le> IPERF_RESULT_CORE_MAX_BYTES + output_limit + 2 \<and>
    so_length out \<le> output_limit \<and>
    (ro_result r = None \<longrightarrow> ro_errno r \<noteq> None \<and> so_value out = None \<and>
       so_state out = IPERF_OUTPUT_INVALID)"
proof -
  obtain r where r: "iperf_read_bounded_results parse mal frame_length output_limit (Some rd) ctx
      (Some zero_output) (Some zero_metrics) = Some r" "outcome_ok frame_length output_limit r"
    using read_bounded_total [OF assms, of parse mal rd ctx] by blast
  obtain out m where om: "ro_output r = Some out" "ro_metrics r = Some m"
    using r(2) by (auto simp: outcome_ok_def split: option.splits)
  have "so_length out \<le> output_limit"
    using r(2) om by (auto simp: outcome_ok_def out_ok_def so_length_def
        split: option.splits iperf_output_state.splits)
  moreover have "m_bytes_read m \<le> frame_length \<and> m_maximum_depth m \<le> IPERF_RESULT_MAX_DEPTH \<and>
      m_peak_buffer_capacity m \<le> IPERF_RESULT_CORE_MAX_BYTES + output_limit + 2 \<and>
      (ro_result r = None \<longrightarrow> ro_errno r \<noteq> None \<and> so_value out = None \<and>
       so_state out = IPERF_OUTPUT_INVALID)"
    using r(2) om by (simp add: outcome_ok_def split: option.splits)
  ultimately show ?thesis
    using r(1) om by (intro exI [of _ r] exI [of _ out] exI [of _ m]) simp
qed

theorem read_bounded_results_safe_witness:
  "\<exists>r m. iperf_read_bounded_results Inr (\<lambda>n. n = 0) 6 4 (Some mem_reader) (bytes_of ''{} [[rest'')
      (Some zero_output) (Some zero_metrics) = Some r \<and> ro_metrics r = Some m \<and> m_bytes_read m \<le> 6"
  using read_bounded_results_safe [of 4 6 Inr "\<lambda>n. n = 0" mem_reader "bytes_of ''{} [[rest''"]
  by (fastforce simp: IPERF_OUTPUT_MAX_BYTES_def IPERF_RESULT_FRAME_MAX_BYTES_def)


lemmas run_simps = iperf_read_bounded_results_def root_p_def root_close_def whitespace.simps peek_def
  start_parser_def fail_def expect_def take_p_def emit_def advance_def is_space_def mem_reader_def
  zero_output_def zero_metrics_def buf_put_def finish_read_def IPERF_RESULT_FRAME_MAX_BYTES_def
  IPERF_OUTPUT_MAX_BYTES_def IPERF_RESULT_CORE_MAX_BYTES_def bytes_of_def


end
