(* ===== verification/Bounded_Log.thy ===== *)
theory Bounded_Log
  imports Bounded_Output_Safe
begin

text \<open>
  The bounded log file (\<open>iperf_bounded_log.c\<close>): a stdio cookie that passes a prefix of the
  engine's output to a sink, holds the last bytes back until close, and replaces what does
  not fit by a marker. The sink is the list of bytes appended to the file; what each
  \<open>fwrite\<close> and \<open>fclose\<close> does is an argument. 64-bit byte counters are natural numbers: the
  invariant keeps them within the limit. The central theorem says that the streaming
  writer produces what a function of the whole output defines, however the output is cut
  into writes.
\<close>

subsection \<open>State\<close>

record iperf_log_status =
  ls_limit :: nat
  ls_bytes_written :: nat
  ls_file_bytes :: nat
  ls_attempted :: bool
  ls_file_size_known :: bool
  ls_truncated :: bool
  ls_open_errno :: "errno option"
  ls_write_errno :: "errno option"
  ls_close_errno :: "errno option"

definition log_marker :: bytes where
  "log_marker = map of_char (CHR 0x0A # ''[iperf log truncated]'' @ [CHR 0x0A])"

definition MARKER_SIZE :: nat where "MARKER_SIZE = length log_marker"
definition TAIL_SIZE :: nat where "TAIL_SIZE = MARKER_SIZE + 3"

definition iperf_log_truncation_marker :: bytes where
  "iperf_log_truncation_marker = log_marker"

definition iperf_log_minimum_limit :: nat where
  "iperf_log_minimum_limit = MARKER_SIZE"

text \<open>
  \<open>bl_sink\<close> is the content appended to the file, \<open>None\<close> for the discard sink; \<open>bl_tail\<close> is
  \<open>tail[0 .. tail_size)\<close>.
\<close>

record bounded_log =
  bl_sink :: "bytes option"
  bl_status :: iperf_log_status
  bl_capacity :: nat
  bl_accepted :: nat
  bl_tail :: bytes
  bl_writes :: nat

text \<open>
  \<open>fwrite\<close> of the n-th call for a number of bytes: how many are written (at most all of
  them), whether \<open>ferror\<close> holds afterwards, and \<open>errno\<close>.
\<close>

type_synonym fwrite_env = "nat \<Rightarrow> nat \<Rightarrow> nat \<times> bool \<times> errno option"

definition remember_error :: "errno option \<Rightarrow> errno option \<Rightarrow> errno option" where
  "remember_error slot error =
     (if slot = None then Some (case error of Some e \<Rightarrow> e | None \<Rightarrow> EIO) else slot)"

subsection \<open>Operations\<close>

definition write_bytes :: "fwrite_env \<Rightarrow> bounded_log \<Rightarrow> bytes \<Rightarrow> bounded_log" where
  "write_bytes fw lg bs =
     (case bl_sink lg of
        None \<Rightarrow> lg
      | Some content \<Rightarrow>
          if bs = [] \<or> ls_write_errno (bl_status lg) \<noteq> None then lg
          else
            let (n, ferror, e) = fw (bl_writes lg) (length bs);
                written = min n (length bs);
                st = bl_status lg;
                st = st\<lparr>ls_bytes_written := ls_bytes_written st + written,
                        ls_file_bytes := ls_file_bytes st + written\<rparr>;
                st = (if written \<noteq> length bs \<or> ferror
                      then st\<lparr>ls_write_errno := remember_error (ls_write_errno st) e\<rparr> else st)
            in lg\<lparr>bl_sink := Some (content @ take written bs), bl_status := st,
                   bl_writes := bl_writes lg + 1\<rparr>)"

definition retain_prefix :: "fwrite_env \<Rightarrow> bounded_log \<Rightarrow> bytes \<Rightarrow> bounded_log" where
  "retain_prefix fw lg bs =
     (let tail_size = length (bl_tail lg);
          flush = (if tail_size + length bs > TAIL_SIZE then tail_size + length bs - TAIL_SIZE else 0);
          old = (if flush < tail_size then flush else tail_size);
          lg = write_bytes fw lg (take old (bl_tail lg));
          lg = lg\<lparr>bl_tail := drop old (bl_tail lg)\<rparr>;
          flush = flush - old;
          lg = write_bytes fw lg (take flush bs)
      in lg\<lparr>bl_tail := bl_tail lg @ drop flush bs\<rparr>)"

fun scalar_start :: "bytes \<Rightarrow> nat \<Rightarrow> nat" where
  "scalar_start bs 0 = 0"
| "scalar_start bs (Suc n) = (if bs ! Suc n AND 0xc0 = 0x80 then scalar_start bs n else Suc n)"

definition scalar_width :: "byte \<Rightarrow> nat" where
  "scalar_width lead =
     (if 0xf0 \<le> lead \<and> lead \<le> 0xf4 then 4
      else if 0xe0 \<le> lead \<and> lead \<le> 0xef then 3
      else if 0xc2 \<le> lead \<and> lead \<le> 0xdf then 2 else 1)"

text \<open>The first \<open>count\<close> bytes of \<open>bs\<close>, without an incomplete final scalar.\<close>

definition log_utf8_prefix :: "bytes \<Rightarrow> nat \<Rightarrow> nat" where
  "log_utf8_prefix bs count =
     (if count = 0 then 0
      else let start = scalar_start bs (count - 1)
           in if count - start < scalar_width (bs ! start) then start else count)"

abbreviation set_truncated :: "bounded_log \<Rightarrow> bounded_log" where
  "set_truncated lg \<equiv> lg\<lparr>bl_status := (bl_status lg)\<lparr>ls_truncated := True\<rparr>\<rparr>"

text \<open>
  \<open>bounded_write\<close>, whose return value is always \<open>count\<close>. \<open>None\<close> is the unsigned underflow of
  \<open>tail_size - MARKER_SIZE\<close>.
\<close>

definition bounded_write :: "fwrite_env \<Rightarrow> bounded_log \<Rightarrow> bytes \<Rightarrow> bounded_log option" where
  "bounded_write fw lg bs =
     (if bs = [] then Some lg
      else if ls_truncated (bl_status lg) \<or> ls_open_errno (bl_status lg) \<noteq> None \<or>
              ls_write_errno (bl_status lg) \<noteq> None then Some lg
      else if bl_capacity lg < MARKER_SIZE then Some (set_truncated lg)
      else
        let remaining = bl_capacity lg - bl_accepted lg;
            keep = (if length bs < remaining then length bs else remaining);
            lg = retain_prefix fw lg (take keep bs);
            lg = lg\<lparr>bl_accepted := bl_accepted lg + keep\<rparr>
        in if length bs > remaining then
             if length (bl_tail lg) < MARKER_SIZE then None
             else
               let lg = set_truncated lg;
                   pre = log_utf8_prefix (bl_tail lg) (length (bl_tail lg) - MARKER_SIZE);
                   lg = write_bytes fw lg (take pre (bl_tail lg));
                   lg = write_bytes fw lg log_marker
               in Some (lg\<lparr>bl_tail := []\<rparr>)
           else Some lg)"

text \<open>
  \<open>bounded_close\<close>: the final status with the content of the file, and the result of
  \<open>fclose\<close>, here whether it failed and with which \<open>errno\<close>.
\<close>

definition bounded_close :: "fwrite_env \<Rightarrow> bool \<times> errno option \<Rightarrow> bounded_log \<Rightarrow> bounded_log \<times> bool" where
  "bounded_close fw fclose lg =
     (let lg = write_bytes fw lg (bl_tail lg) in
      if bl_sink lg \<noteq> None \<and> fst fclose then
        (lg\<lparr>bl_status := (bl_status lg)\<lparr>ls_close_errno :=
             remember_error (ls_close_errno (bl_status lg)) (snd fclose)\<rparr>\<rparr>, True)
      else (lg, False))"

text \<open>
  \<open>iperf_bounded_log_wrap\<close>: \<open>sink\<close> says whether there is one. The environment answers are
  \<open>calloc\<close>, a \<open>setvbuf\<close> failure with its \<open>errno\<close>, and a \<open>funopen\<close> failure with its \<open>errno\<close>.
  The result is \<open>None\<close> for a \<open>NULL\<close> file, with the status in any case.
\<close>

record wrap_env =
  we_calloc :: bool
  we_setvbuf :: "errno option option"     \<comment> \<open>\<open>Some e\<close>: failed with \<open>errno\<close> \<open>e\<close>\<close>
  we_funopen :: "errno option option"
  we_fclose :: "bool \<times> errno option"

definition iperf_bounded_log_wrap :: "fwrite_env \<Rightarrow> wrap_env \<Rightarrow> bool \<Rightarrow> nat \<Rightarrow> iperf_log_status \<Rightarrow>
    bounded_log option \<times> iperf_log_status" where
  "iperf_bounded_log_wrap fw env sink existing_bytes status =
     (let status = status\<lparr>ls_attempted := True, ls_file_bytes := existing_bytes\<rparr>;
          status = (if sink then status\<lparr>ls_file_size_known := True\<rparr> else status)
      in if \<not> we_calloc env then
           (None, status\<lparr>ls_open_errno := remember_error (ls_open_errno status) (Some ENOMEM)\<rparr>)
         else
           let bad = ls_limit status < MARKER_SIZE \<or> existing_bytes > ls_limit status;
               status1 = (if bad then status\<lparr>ls_open_errno := remember_error (ls_open_errno status)
                            (Some (if existing_bytes > ls_limit status then EFBIG else EINVAL))\<rparr>
                         else status);
               status2 = (case we_setvbuf env of
                            Some e \<Rightarrow> if sink then status1\<lparr>ls_open_errno :=
                                        remember_error (ls_open_errno status1) e\<rparr> else status1
                          | None \<Rightarrow> status1);
               lg = \<lparr>bl_sink = (if sink then Some [] else None), bl_status = status2,
                      bl_capacity = (if bad then 0 else ls_limit status2 - existing_bytes),
                      bl_accepted = 0, bl_tail = [], bl_writes = 0\<rparr>
           in case we_funopen env of
                None \<Rightarrow> (Some lg, bl_status lg)
              | Some e \<Rightarrow>
                  let (lg, _) = bounded_close fw (we_fclose env) lg;
                      st = bl_status lg
                  in (None, st\<lparr>ls_open_errno := remember_error (ls_open_errno st) e\<rparr>))"

text \<open>
  What \<open>open\<close>, \<open>fstat\<close> and \<open>fdopen\<close> do for the path: fail with \<open>errno\<close>, or succeed with the
  size of the file when it is a regular one.
\<close>

datatype path_env = OpenFails "errno option" | FstatFails "errno option" | NotRegular
  | FdopenFails nat "errno option" | Opened nat

definition iperf_bounded_log_open :: "fwrite_env \<Rightarrow> wrap_env \<Rightarrow> path_env \<Rightarrow> iperf_log_status \<Rightarrow>
    bounded_log option \<times> iperf_log_status" where
  "iperf_bounded_log_open fw env path status =
     (let failed = (\<lambda>e. status\<lparr>ls_open_errno := remember_error (ls_open_errno status) e\<rparr>) in
      if ls_attempted status \<and> (ls_truncated status \<or> ls_open_errno status \<noteq> None \<or>
           ls_write_errno status \<noteq> None \<or> ls_close_errno status \<noteq> None)
      then iperf_bounded_log_wrap fw env False (ls_file_bytes status) status
      else case path of
          OpenFails e \<Rightarrow> iperf_bounded_log_wrap fw env False 0 (failed e)
        | FstatFails e \<Rightarrow> iperf_bounded_log_wrap fw env False 0 (failed e)
        | NotRegular \<Rightarrow> iperf_bounded_log_wrap fw env False 0 (failed (Some EINVAL))
        | FdopenFails sz e \<Rightarrow>
            iperf_bounded_log_wrap fw env False sz ((failed e)\<lparr>ls_file_size_known := True\<rparr>)
        | Opened sz \<Rightarrow>
            iperf_bounded_log_wrap fw env True sz (status\<lparr>ls_file_size_known := True\<rparr>))"

text \<open>A run of the cookie: any number of writes, then close.\<close>

fun bounded_writes :: "fwrite_env \<Rightarrow> bounded_log \<Rightarrow> bytes list \<Rightarrow> bounded_log option" where
  "bounded_writes fw lg [] = Some lg"
| "bounded_writes fw lg (bs # rest) =
     do { lg \<leftarrow> bounded_write fw lg bs; bounded_writes fw lg rest }"

subsection \<open>Bounds, for every sink\<close>

lemma MARKER_SIZE_eq [simp]: "MARKER_SIZE = 23"
  by (simp add: MARKER_SIZE_def log_marker_def)

lemma TAIL_SIZE_eq [simp]: "TAIL_SIZE = 26"
  by (simp add: TAIL_SIZE_def)

lemma length_log_marker [simp]: "length log_marker = 23"
  by (simp add: log_marker_def)

definition content :: "bounded_log \<Rightarrow> bytes" where
  "content lg = (case bl_sink lg of None \<Rightarrow> [] | Some c \<Rightarrow> c)"

text \<open>
  Everything \<open>write_bytes\<close> leaves alone, and that the counters follow the content.
\<close>

lemma write_bytes_frame [simp]:
  "bl_tail (write_bytes fw lg bs) = bl_tail lg" "bl_capacity (write_bytes fw lg bs) = bl_capacity lg"
  "bl_accepted (write_bytes fw lg bs) = bl_accepted lg"
  "ls_truncated (bl_status (write_bytes fw lg bs)) = ls_truncated (bl_status lg)"
  "ls_limit (bl_status (write_bytes fw lg bs)) = ls_limit (bl_status lg)"
  "ls_open_errno (bl_status (write_bytes fw lg bs)) = ls_open_errno (bl_status lg)"
  "(bl_sink (write_bytes fw lg bs) = None) = (bl_sink lg = None)"
  by (auto simp: write_bytes_def Let_def split: option.splits prod.splits)

lemma write_bytes_content:
  "\<exists>n \<le> length bs. content (write_bytes fw lg bs) = content lg @ take n bs \<and>
     ls_file_bytes (bl_status (write_bytes fw lg bs)) = ls_file_bytes (bl_status lg) + n"
proof (cases "bl_sink lg")
  case None
  then show ?thesis by (intro exI [of _ 0]) (simp add: write_bytes_def)
next
  case (Some c)
  show ?thesis
  proof (cases "bs = [] \<or> ls_write_errno (bl_status lg) \<noteq> None")
    case True
    then show ?thesis using Some by (intro exI [of _ 0]) (auto simp: write_bytes_def content_def)
  next
    case False
    obtain n f e where "fw (bl_writes lg) (length bs) = (n, f, e)" by (cases "fw (bl_writes lg) (length bs)")
    then show ?thesis
      using Some False
      by (intro exI [of _ "min n (length bs)"]) (auto simp: write_bytes_def content_def Let_def)
  qed
qed

text \<open>
  The invariant of the cookie for a log that may grow by \<open>K\<close> bytes from \<open>E\<close> existing ones.
\<close>

definition log_ok :: "nat \<Rightarrow> nat \<Rightarrow> bounded_log \<Rightarrow> bool" where
  "log_ok K E lg \<longleftrightarrow> bl_capacity lg = K \<and> ls_file_bytes (bl_status lg) = E + length (content lg) \<and>
     length (content lg) + length (bl_tail lg) \<le> K \<and> length (bl_tail lg) \<le> TAIL_SIZE \<and>
     (\<not> ls_truncated (bl_status lg) \<longrightarrow> bl_accepted lg \<le> K \<and>
        length (content lg) + length (bl_tail lg) \<le> bl_accepted lg \<and>
        length (bl_tail lg) = min (bl_accepted lg) TAIL_SIZE)"

lemma retain_prefix_frame [simp]:
  "bl_capacity (retain_prefix fw lg bs) = bl_capacity lg"
  "bl_accepted (retain_prefix fw lg bs) = bl_accepted lg"
  "ls_truncated (bl_status (retain_prefix fw lg bs)) = ls_truncated (bl_status lg)"
  "ls_limit (bl_status (retain_prefix fw lg bs)) = ls_limit (bl_status lg)"
  "ls_open_errno (bl_status (retain_prefix fw lg bs)) = ls_open_errno (bl_status lg)"
  "(bl_sink (retain_prefix fw lg bs) = None) = (bl_sink lg = None)"
  by (simp_all add: retain_prefix_def Let_def)

text \<open>The tail is always the last bytes retained, and never longer than its array.\<close>

lemma retain_prefix_tail:
  "length (bl_tail lg) \<le> TAIL_SIZE \<Longrightarrow>
   bl_tail (retain_prefix fw lg bs) =
     drop (length (bl_tail lg) + length bs - TAIL_SIZE) (bl_tail lg @ bs)"
  by (auto simp: retain_prefix_def Let_def)

lemma content_simps [simp]: "content (lg\<lparr>bl_tail := x\<rparr>) = content lg" "content (lg\<lparr>bl_accepted := n\<rparr>) = content lg"
  "content (lg\<lparr>bl_status := st\<rparr>) = content lg"
  by (simp_all add: content_def)

lemma retain_prefix_content:
  assumes "length (bl_tail lg) \<le> TAIL_SIZE"
  shows "\<exists>n \<le> length (bl_tail lg) + length bs - TAIL_SIZE.
    length (content (retain_prefix fw lg bs)) = length (content lg) + n \<and>
    ls_file_bytes (bl_status (retain_prefix fw lg bs)) = ls_file_bytes (bl_status lg) + n"
proof -
  define flush where "flush = length (bl_tail lg) + length bs - TAIL_SIZE"
  define old where "old = min flush (length (bl_tail lg))"
  define lg1 where "lg1 = (write_bytes fw lg (take old (bl_tail lg)))\<lparr>bl_tail := drop old (bl_tail lg)\<rparr>"
  define lg2 where "lg2 = write_bytes fw lg1 (take (flush - old) bs)"
  have eq: "retain_prefix fw lg bs = lg2\<lparr>bl_tail := bl_tail lg2 @ drop (flush - old) bs\<rparr>"
    by (simp add: retain_prefix_def Let_def lg2_def lg1_def flush_def old_def min_def)
  obtain n1 where 1: "n1 \<le> length (take old (bl_tail lg))" "length (content lg1) = length (content lg) + n1"
    "ls_file_bytes (bl_status lg1) = ls_file_bytes (bl_status lg) + n1"
    using write_bytes_content [of "take old (bl_tail lg)" fw lg] by (auto simp: lg1_def)
  obtain n2 where 2: "n2 \<le> length (take (flush - old) bs)" "length (content lg2) = length (content lg1) + n2"
    "ls_file_bytes (bl_status lg2) = ls_file_bytes (bl_status lg1) + n2"
    using write_bytes_content [of "take (flush - old) bs" fw lg1] by (auto simp: lg2_def)
  have "n1 + n2 \<le> flush" using 1(1) 2(1) by (auto simp: old_def)
  then show ?thesis
    unfolding eq flush_def [symmetric] using 1 2 by (intro exI [of _ "n1 + n2"]) simp
qed

lemma scalar_start_le: "scalar_start bs n \<le> n"
  by (induction n) auto

lemma log_utf8_prefix_le: "log_utf8_prefix bs n \<le> n"
  using scalar_start_le [of bs "n - 1"] by (auto simp: log_utf8_prefix_def Let_def)

lemma bounded_write_ok:
  assumes ok: "log_ok K E lg"
  shows "\<exists>lg'. bounded_write fw lg bs = Some lg' \<and> log_ok K E lg' \<and>
    ls_limit (bl_status lg') = ls_limit (bl_status lg) \<and> ls_open_errno (bl_status lg') = ls_open_errno (bl_status lg)"
proof (cases "bs = [] \<or> ls_truncated (bl_status lg) \<or> ls_open_errno (bl_status lg) \<noteq> None \<or>
    ls_write_errno (bl_status lg) \<noteq> None")
  case True
  then show ?thesis using ok by (auto simp: bounded_write_def)
next
  case False
  then have tr: "\<not> ls_truncated (bl_status lg)" by simp
  show ?thesis
  proof (cases "K < MARKER_SIZE")
    case True
    then show ?thesis
      using False ok by (auto simp: bounded_write_def log_ok_def)
  next
    case big: False
    define keep where "keep = min (length bs) (K - bl_accepted lg)"
    define lg1 where "lg1 = (retain_prefix fw lg (take keep bs))\<lparr>bl_accepted := bl_accepted lg + keep\<rparr>"
    have acc: "bl_accepted lg \<le> K" "length (content lg) + length (bl_tail lg) \<le> bl_accepted lg"
      "length (bl_tail lg) = min (bl_accepted lg) TAIL_SIZE" "bl_capacity lg = K"
      using ok tr by (auto simp: log_ok_def)
    have tail: "length (bl_tail lg1) = min (bl_accepted lg + keep) TAIL_SIZE"
      using acc(3) by (simp add: lg1_def retain_prefix_tail keep_def min_def del: drop_append)
    obtain n where n: "n \<le> length (bl_tail lg) + keep - TAIL_SIZE"
      "length (content lg1) = length (content lg) + n"
      "ls_file_bytes (bl_status lg1) = ls_file_bytes (bl_status lg) + n"
      using retain_prefix_content [of lg "take keep bs" fw] acc by (auto simp: lg1_def keep_def)
    have keep: "bl_accepted lg + keep \<le> K" using acc by (auto simp: keep_def)
    have l1: "log_ok K E lg1" "\<not> ls_truncated (bl_status lg1)"
      using ok tr acc tail n keep by (auto simp: log_ok_def lg1_def)
    show ?thesis
    proof (cases "length bs > K - bl_accepted lg")
      case False
      then have "bounded_write fw lg bs = Some lg1"
        using \<open>\<not> (bs = [] \<or> _)\<close> big acc by (auto simp: bounded_write_def lg1_def keep_def Let_def)
      then show ?thesis using l1 by (simp add: lg1_def)
    next
      case True
      define pre where "pre = log_utf8_prefix (bl_tail lg1) (length (bl_tail lg1) - MARKER_SIZE)"
      define lg2 where "lg2 = write_bytes fw (write_bytes fw (set_truncated lg1) (take pre (bl_tail lg1))) log_marker"
      have full: "bl_accepted lg1 = K" using True keep by (auto simp: lg1_def keep_def)
      then have big1: "\<not> length (bl_tail lg1) < MARKER_SIZE" using big tail by (auto simp: lg1_def)
      have "bounded_write fw lg bs = Some (lg2\<lparr>bl_tail := []\<rparr>)"
        using \<open>\<not> (bs = [] \<or> _)\<close> big acc True big1
        by (auto simp: bounded_write_def lg1_def lg2_def pre_def keep_def Let_def min_def)
      moreover obtain n1 where n1: "n1 \<le> length (take pre (bl_tail lg1))"
        "length (content (write_bytes fw (set_truncated lg1) (take pre (bl_tail lg1)))) = length (content lg1) + n1"
        "ls_file_bytes (bl_status (write_bytes fw (set_truncated lg1) (take pre (bl_tail lg1)))) = ls_file_bytes (bl_status lg1) + n1"
        using write_bytes_content [of "take pre (bl_tail lg1)" fw "set_truncated lg1"] by auto
      moreover obtain n2 where "n2 \<le> length log_marker" "length (content lg2) = length (content lg1) + n1 + n2"
        "ls_file_bytes (bl_status lg2) = ls_file_bytes (bl_status lg1) + n1 + n2"
        using write_bytes_content [of log_marker fw "write_bytes fw (set_truncated lg1) (take pre (bl_tail lg1))"] n1
        by (auto simp: lg2_def)
      moreover have "pre + MARKER_SIZE \<le> length (bl_tail lg1)"
        using log_utf8_prefix_le [of "bl_tail lg1" "length (bl_tail lg1) - MARKER_SIZE"] big1
        by (simp add: pre_def)
      ultimately show ?thesis
        using l1 by (auto simp: log_ok_def lg2_def lg1_def)
    qed
  qed
qed

subsection \<open>The file as a function of the whole output\<close>

text \<open>
  The reference: all of the output when it fits, else the longest prefix that leaves room
  for the marker, cut back over an incomplete scalar among its last three bytes.
\<close>

definition log_cut :: "nat \<Rightarrow> bytes \<Rightarrow> nat" where
  "log_cut K T = (let k = K - MARKER_SIZE; w = min 3 k
                  in k - w + log_utf8_prefix (drop (k - w) T) w)"

definition log_spec :: "nat \<Rightarrow> bytes \<Rightarrow> bytes" where
  "log_spec K T = (if length T \<le> K then T else take (log_cut K T) T @ log_marker)"

definition perfect :: "fwrite_env \<Rightarrow> bool" where
  "perfect fw \<longleftrightarrow> (\<forall>i n. n \<le> fst (fw i n) \<and> \<not> fst (snd (fw i n)))"

lemma write_bytes_perfect:
  assumes "perfect fw" "bl_sink lg = Some c" "ls_write_errno (bl_status lg) = None"
  shows "bl_sink (write_bytes fw lg bs) = Some (c @ bs)"
    "ls_write_errno (bl_status (write_bytes fw lg bs)) = None"
proof -
  obtain n f e where f: "fw (bl_writes lg) (length bs) = (n, f, e)" by (cases "fw (bl_writes lg) (length bs)")
  then have "length bs \<le> n" "\<not> f" using assms(1) unfolding perfect_def by (metis fst_conv, metis fst_conv snd_conv)
  then show "bl_sink (write_bytes fw lg bs) = Some (c @ bs)"
    "ls_write_errno (bl_status (write_bytes fw lg bs)) = None"
    using assms(2,3) f by (auto simp: write_bytes_def Let_def min_def)
qed

lemma retain_prefix_perfect:
  assumes "perfect fw" "bl_sink lg = Some c" "ls_write_errno (bl_status lg) = None"
    "length (bl_tail lg) \<le> TAIL_SIZE"
  shows "bl_sink (retain_prefix fw lg bs) =
      Some (c @ take (length (bl_tail lg) + length bs - TAIL_SIZE) (bl_tail lg @ bs))"
    "ls_write_errno (bl_status (retain_prefix fw lg bs)) = None"
  using assms(4) write_bytes_perfect [OF assms(1)] assms(2,3)
  by (auto simp: retain_prefix_def Let_def)

definition stream_ok :: "nat \<Rightarrow> bytes \<Rightarrow> bounded_log \<Rightarrow> bool" where
  "stream_ok K T lg \<longleftrightarrow> bl_capacity lg = K \<and> ls_open_errno (bl_status lg) = None \<and>
     ls_write_errno (bl_status lg) = None \<and> (ls_truncated (bl_status lg) \<longleftrightarrow> K < length T) \<and>
     (if K < length T then bl_sink lg = Some (log_spec K T) \<and> bl_tail lg = []
      else bl_accepted lg = length T \<and> length (bl_tail lg) = min (length T) TAIL_SIZE \<and>
        (\<exists>c. bl_sink lg = Some c \<and> c @ bl_tail lg = T))"

lemma scalar_start_cong:
  "(\<And>i. i \<le> n \<Longrightarrow> xs ! i = ys ! i) \<Longrightarrow> scalar_start xs n = scalar_start ys n"
  by (induction n) auto

lemma log_utf8_prefix_cong:
  assumes "\<And>i. i < n \<Longrightarrow> xs ! i = ys ! i"
  shows "log_utf8_prefix xs n = log_utf8_prefix ys n"
proof (cases n)
  case (Suc m)
  have "scalar_start xs m = scalar_start ys m" using assms Suc by (intro scalar_start_cong) simp
  then show ?thesis using assms Suc scalar_start_le [of ys m] by (simp add: log_utf8_prefix_def Let_def)
qed (simp add: log_utf8_prefix_def)

lemma log_cut_append:
  assumes "K \<le> length T"
  shows "log_cut K (T @ U) = log_cut K T"
proof -
  have "log_utf8_prefix (drop (K - 23 - min 3 (K - 23)) (T @ U)) (min 3 (K - 23)) =
      log_utf8_prefix (drop (K - 23 - min 3 (K - 23)) T) (min 3 (K - 23))"
    using assms by (intro log_utf8_prefix_cong) (auto simp: nth_append simp del: drop_append)
  then show ?thesis by (simp add: log_cut_def Let_def del: drop_append)
qed

lemma log_cut_le: "log_cut K T \<le> K - MARKER_SIZE"
proof -
  define k where "k = K - MARKER_SIZE"
  define w where "w = min 3 k"
  have "log_utf8_prefix (drop (k - w) T) w \<le> w" "w \<le> k"
    by (rule log_utf8_prefix_le) (simp add: w_def)
  then have "k - w + log_utf8_prefix (drop (k - w) T) w \<le> k" by linarith
  then show ?thesis unfolding log_cut_def Let_def w_def k_def .
qed

lemma log_spec_append: "K < length T \<Longrightarrow> log_spec K (T @ U) = log_spec K T"
  using log_cut_le [of K T] by (simp add: log_spec_def log_cut_append)

lemma bounded_write_stream:
  assumes fw: "perfect fw" and K: "MARKER_SIZE \<le> K" and ok: "stream_ok K T lg"
  shows "\<exists>lg'. bounded_write fw lg bs = Some lg' \<and> stream_ok K (T @ bs) lg'"
proof (cases "bs = [] \<or> K < length T")
  case True
  then show ?thesis using ok
    by (auto simp: bounded_write_def stream_ok_def log_spec_append)
next
  case False
  then have T: "\<not> K < length T" and ne: "bs \<noteq> []" by auto
  obtain c where c: "bl_sink lg = Some c" "c @ bl_tail lg = T" "bl_accepted lg = length T"
    "length (bl_tail lg) = min (length T) TAIL_SIZE" "ls_write_errno (bl_status lg) = None"
    "ls_open_errno (bl_status lg) = None" "\<not> ls_truncated (bl_status lg)" "bl_capacity lg = K"
    using ok T by (auto simp: stream_ok_def)
  define keep where "keep = min (length bs) (K - length T)"
  define lg1 where "lg1 = (retain_prefix fw lg (take keep bs))\<lparr>bl_accepted := length T + keep\<rparr>"
  define U where "U = T @ take keep bs"
  have U: "length U = length T + keep" "length U \<le> K" using T by (auto simp: U_def keep_def)
  have tl: "length (bl_tail lg) \<le> TAIL_SIZE" using c(4) by simp
  let ?n = "length (bl_tail lg) + keep - TAIL_SIZE"
  have len: "length (take keep bs) = keep" by (simp add: keep_def)
  have s1: "bl_sink lg1 = Some (c @ take ?n (bl_tail lg @ take keep bs))"
    "ls_write_errno (bl_status lg1) = None" "bl_tail lg1 = drop ?n (bl_tail lg @ take keep bs)"
    using retain_prefix_perfect [OF fw c(1,5) tl, of "take keep bs"] retain_prefix_tail [OF tl, of fw "take keep bs"]
    unfolding len by (simp_all add: lg1_def del: drop_append take_append)
  have whole: "(c @ take ?n (bl_tail lg @ take keep bs)) @ bl_tail lg1 = U"
    unfolding s1(3) U_def c(2) [symmetric] by (simp only: append_assoc append_take_drop_id)
  have tail1: "length (bl_tail lg1) = min (length U) TAIL_SIZE"
    using s1(3) c(4) len U(1) by (simp add: min_def del: drop_append)
  have fr: "bl_capacity lg1 = K" "bl_accepted lg1 = length U" "ls_open_errno (bl_status lg1) = None"
    "\<not> ls_truncated (bl_status lg1)" using c U by (simp_all add: lg1_def)
  show ?thesis
  proof (cases "length bs > K - length T")
    case False
    then have "U = T @ bs" by (simp add: U_def keep_def)
    moreover have "bounded_write fw lg bs = Some lg1"
      using c ne K False T by (simp add: bounded_write_def lg1_def keep_def Let_def min_def)
    ultimately show ?thesis
      using s1 whole tail1 fr U by (intro exI [of _ lg1]) (auto simp: stream_ok_def)
  next
    case True
    then have UK: "length U = K" "K < length (T @ bs)" using T by (auto simp: U_def keep_def)
    let ?t = "bl_tail lg1" and ?m = "length (bl_tail lg1) - MARKER_SIZE"
    define c1 where "c1 = c @ take ?n (bl_tail lg @ take keep bs)"
    define pre where "pre = log_utf8_prefix ?t ?m"
    define lg2 where "lg2 = write_bytes fw (write_bytes fw (set_truncated lg1) (take pre ?t)) log_marker"
    have big: "\<not> length ?t < MARKER_SIZE" using tail1 UK K by simp
    have w: "bounded_write fw lg bs = Some (lg2\<lparr>bl_tail := []\<rparr>)"
      using c ne K True T big by (simp add: bounded_write_def lg1_def lg2_def pre_def keep_def Let_def min_def)
    have "bl_sink (set_truncated lg1) = Some c1" "ls_write_errno (bl_status (set_truncated lg1)) = None"
      using s1 by (simp_all add: c1_def)
    note p1 = write_bytes_perfect [OF fw this, of "take pre ?t"]
    have lg2: "bl_sink lg2 = Some (c1 @ take pre ?t @ log_marker)" "ls_write_errno (bl_status lg2) = None"
      using write_bytes_perfect [OF fw p1, of log_marker] by (simp_all add: lg2_def)
    have c1: "c1 @ ?t = U" using whole by (simp add: c1_def)
    then have lc1: "length c1 = K - length ?t" using UK by (metis add_diff_cancel_right' length_append)
    have m: "?m = min 3 (K - 23)" "length c1 = K - 23 - min 3 (K - 23)"
      using tail1 UK K lc1 by (auto simp: min_def)
    have "?t = drop (length c1) U" using c1 by (metis append_eq_conv_conj)
    then have "pre = log_utf8_prefix (drop (length c1) U) ?m" by (simp add: pre_def)
    then have cut: "log_cut K U = length c1 + pre"
      unfolding log_cut_def Let_def MARKER_SIZE_eq m(2) by (simp only: m(1) [unfolded MARKER_SIZE_eq])
    have split: "T @ bs = U @ drop keep bs" by (simp add: U_def)
    have "log_spec K (T @ bs) = take (log_cut K U) (U @ drop keep bs) @ log_marker"
      using log_cut_append [of K U "drop keep bs"] UK(1)
      unfolding log_spec_def if_not_P [OF UK(2) [folded not_le]] unfolding split by simp
    also have "take (log_cut K U) (U @ drop keep bs) = c1 @ take pre ?t"
      unfolding cut unfolding c1 [symmetric] using log_utf8_prefix_le [of ?t ?m] big by (simp add: pre_def)
    finally show ?thesis
      using w lg2 fr UK c by (simp add: stream_ok_def lg2_def)
  qed
qed

lemma bounded_writes_stream:
  assumes "perfect fw" "MARKER_SIZE \<le> K"
  shows "stream_ok K T lg \<Longrightarrow> \<exists>lg'. bounded_writes fw lg ws = Some lg' \<and> stream_ok K (T @ concat ws) lg'"
proof (induction ws arbitrary: T lg)
  case (Cons bs ws)
  obtain lg1 where 1: "bounded_write fw lg bs = Some lg1" "stream_ok K (T @ bs) lg1"
    using bounded_write_stream [OF assms Cons.prems] by blast
  then show ?case using Cons.IH [OF 1(2)] by simp
qed simp

subsection \<open>The cut and UTF-8\<close>

abbreviation is_cont :: "byte \<Rightarrow> bool" where
  "is_cont b \<equiv> b AND 0xc0 = 0x80"

text \<open>Lead byte, width and continuation bytes of an encoded scalar.\<close>

definition well_encoded :: "bytes \<Rightarrow> bool" where
  "well_encoded x \<longleftrightarrow> x \<noteq> [] \<and> length x \<le> 4 \<and> \<not> is_cont (hd x) \<and>
     scalar_width (hd x) = length x \<and> (\<forall>c\<in>set (tl x). is_cont c)"

lemma cont_byte: "is_cont (ucast (0x80 OR (x AND 0x3f) :: uint32) :: byte)"
proof -
  have "(ucast (0x80 OR (x AND 0x3f)) :: byte) = 0x80 OR (ucast x AND 0x3f)"
    by (simp add: unsigned_or_eq unsigned_and_eq)
  then show ?thesis by (simp add: bit.conj_disj_distrib2 and.assoc)
qed

lemma ascii_lead:
  assumes "s \<le> 0x7f"
  shows "\<not> is_cont (ucast (s :: uint32) :: byte)" "scalar_width (ucast s :: byte) = 1"
proof -
  have "unat (ucast s :: byte) \<le> 127"
    using assms by (simp add: word_le_nat_alt unat_ucast_mod)
  then have le: "(ucast s :: byte) \<le> 0x7f" by (simp add: word_le_nat_alt)
  have "(ucast s :: byte) AND 0xc0 \<le> ucast s" by (rule word_and_le2)
  then show "\<not> is_cont (ucast s :: byte)" using le by (auto simp: word_le_nat_alt)
  show "scalar_width (ucast s :: byte) = 1" using le by (simp add: scalar_width_def word_le_nat_alt)
qed

lemma lead_tables:
  "list_all (\<lambda>k. \<not> is_cont (ucast (0xc0 OR (word_of_nat k :: uint32))) \<and>
     scalar_width (ucast (0xc0 OR (word_of_nat k :: uint32))) = 2) [2..<32]"
  "list_all (\<lambda>k. \<not> is_cont (ucast (0xe0 OR (word_of_nat k :: uint32))) \<and>
     scalar_width (ucast (0xe0 OR (word_of_nat k :: uint32))) = 3) [0..<16]"
  "list_all (\<lambda>k. \<not> is_cont (ucast (0xf0 OR (word_of_nat k :: uint32))) \<and>
     scalar_width (ucast (0xf0 OR (word_of_nat k :: uint32))) = 4) [0..<5]"
  by code_simp+

lemma lead_table:
  assumes "list_all (\<lambda>k. P (word_of_nat k)) [a..<b]" "a \<le> unat d" "unat d < b"
  shows "P (d :: uint32)"
  using assms by (auto simp: list_all_iff dest!: bspec [of _ _ "unat d"])

lemma unat_drop_bit_32: "unat (drop_bit n (s :: uint32)) = unat s div 2 ^ n"
  unfolding unsigned_drop_bit_eq by (simp add: drop_bit_eq_div take_bit_nat_eq_self)

lemma utf8_bytes_encoded:
  assumes "scalar_ok s"
  shows "well_encoded (utf8_bytes s)"
proof -
  have s: "unat s \<le> 1114111" using assms by (simp add: scalar_ok_def word_le_nat_alt)
  consider "s \<le> 0x7f" | "\<not> s \<le> 0x7f" "s \<le> 0x7ff" | "\<not> s \<le> 0x7ff" "s \<le> 0xffff" | "\<not> s \<le> 0xffff"
    by fastforce
  then show ?thesis
  proof cases
    case 1
    then show ?thesis using ascii_lead [OF 1] by (simp add: well_encoded_def utf8_bytes_def)
  next
    case 2
    then have "unat (drop_bit 6 s) \<ge> 2" "unat (drop_bit 6 s) < 32"
      by (simp_all add: unat_drop_bit_32 word_le_nat_alt)
    from lead_table [OF lead_tables(1) this] 2 show ?thesis
      by (simp add: well_encoded_def utf8_bytes_def cont_byte)
  next
    case 3
    then have "unat (drop_bit 12 s) \<ge> 0" "unat (drop_bit 12 s) < 16"
      by (simp_all add: unat_drop_bit_32 word_le_nat_alt)
    moreover have "\<not> s \<le> 0x7f" using 3 by (simp add: word_le_nat_alt)
    ultimately show ?thesis using lead_table [OF lead_tables(2), of "drop_bit 12 s"] 3
      by (simp add: well_encoded_def utf8_bytes_def cont_byte)
  next
    case 4
    then have "unat (drop_bit 18 s) \<ge> 0" "unat (drop_bit 18 s) < 5"
      using s by (simp_all add: unat_drop_bit_32)
    moreover have "\<not> s \<le> 0x7f" "\<not> s \<le> 0x7ff" using 4 by (simp_all add: word_le_nat_alt)
    ultimately show ?thesis using lead_table [OF lead_tables(3), of "drop_bit 18 s"] 4
      by (simp add: well_encoded_def utf8_bytes_def cont_byte)
  qed
qed


lemma scalar_start_run:
  assumes "a \<le> n" "\<And>i. a < i \<Longrightarrow> i \<le> n \<Longrightarrow> is_cont (bs ! i)" "a = 0 \<or> \<not> is_cont (bs ! a)"
  shows "scalar_start bs n = a"
  using assms
proof (induction n)
  case (Suc n)
  then show ?case by (cases "a = Suc n") auto
qed simp

lemma cont_width: "is_cont b \<Longrightarrow> scalar_width b = 1"
proof -
  assume b: "is_cont b"
  have "\<not> 0xc0 \<le> b"
  proof
    assume le: "0xc0 \<le> b"
    have "list_all (\<lambda>k. \<not> is_cont (word_of_nat k)) [192..<256]" by code_simp
    moreover have "unat b \<in> set [192..<256]" 
      unfolding set_upt atLeastLessThan_iff using le unat_lt_byte [of b] by (simp add: word_le_nat_alt)
    ultimately have "\<not> is_cont (word_of_nat (unat b))" unfolding list_all_iff by blast
    then show False using b by simp
  qed
  then show ?thesis by (auto simp: scalar_width_def word_le_nat_alt)
qed

lemma concat_split:
  assumes "\<And>x. x \<in> set xss \<Longrightarrow> x \<noteq> []" "k \<le> length (concat xss)"
  shows "(\<exists>ys zs. xss = ys @ zs \<and> length (concat ys) = k) \<or>
    (\<exists>ys x zs. xss = ys @ x # zs \<and> length (concat ys) < k \<and> k < length (concat ys) + length x)"
  using assms
proof (induction xss arbitrary: k)
  case Nil
  then show ?case by auto
next
  case (Cons x xss)
  consider "k = 0" | "0 < k" "k < length x" | "length x \<le> k" by linarith
  then show ?case
  proof cases
    case 1
    then show ?thesis by (intro disjI1 exI [of _ "[]"] exI [of _ "x # xss"]) auto
  next
    case 2
    then show ?thesis by (intro disjI2 exI [of _ "[]"] exI [of _ x] exI [of _ xss]) auto
  next
    case 3
    then have "k - length x \<le> length (concat xss)" using Cons.prems(2) by simp
    from Cons.IH [OF _ this] Cons.prems(1) consider
      (a) ys zs where "xss = ys @ zs" "length (concat ys) = k - length x" |
      (b) ys y zs where "xss = ys @ y # zs" "length (concat ys) < k - length x"
        "k - length x < length (concat ys) + length y" by auto
    then show ?thesis
    proof cases
      case a
      then show ?thesis using 3 by (intro disjI1 exI [of _ "x # ys"] exI [of _ zs]) auto
    next
      case b
      then show ?thesis using 3
        by (intro disjI2 exI [of _ "x # ys"] exI [of _ y] exI [of _ zs]) auto
    qed
  qed
qed

lemma well_encoded_nth:
  "well_encoded x \<Longrightarrow> x \<noteq> []" "well_encoded x \<Longrightarrow> length x \<le> 4"
  "well_encoded x \<Longrightarrow> \<not> is_cont (x ! 0)" "well_encoded x \<Longrightarrow> scalar_width (x ! 0) = length x"
  by (auto simp: well_encoded_def hd_conv_nth)

lemma well_encoded_cont: "well_encoded x \<Longrightarrow> 0 < i \<Longrightarrow> i < length x \<Longrightarrow> is_cont (x ! i)"
  by (cases x; cases i) (auto simp: well_encoded_def)

lemma window_nth:
  assumes "w \<le> length A + n" "w \<le> i + n" "i + n - w < length x"
  shows "drop (length A + n - w) (A @ x @ B) ! i = x ! (i + n - w)"
proof -
  have j: "length A + n - w + i = length A + (i + n - w)" using assms by linarith
  have "drop (length A + n - w) (A @ x @ B) ! i = (A @ x @ B) ! (length A + n - w + i)"
    using assms by (intro nth_drop) simp
  then show ?thesis unfolding j using assms(3) by (simp add: nth_append)
qed

text \<open>
  The window of the last \<open>w \<le> 3\<close> bytes before position \<open>k\<close> decides the cut: behind a whole
  scalar it keeps everything, inside a scalar it goes back to its start.
\<close>

lemma window_whole:
  assumes x: "well_encoded x" and w: "w = min 3 (length A + length x)"
  shows "log_utf8_prefix (drop (length A + length x - w) (A @ x @ B)) w = w"
proof -
  define W where "W = drop (length A + length x - w) (A @ x @ B)"
  note x' = well_encoded_nth [OF x] and cont = well_encoded_cont [OF x]
  have wl: "w \<le> length A + length x" "0 < w" "0 < length x" using w x'(1) by (auto simp: min_def)
  have nth: "W ! i = x ! (i + length x - w)" if "w \<le> i + length x" "i < w" for i
    unfolding W_def using that wl by (intro window_nth) auto
  show ?thesis
  proof (cases "length x \<le> w")
    case True
    have le: "w - length x \<le> w - 1" using wl(3) by linarith
    have "scalar_start W (w - 1) = w - length x"
      using True x' wl by (intro scalar_start_run [OF le]) (auto simp: nth cont)
    then show ?thesis
      unfolding W_def [symmetric] using True wl x' nth [of "w - length x"]
      by (simp add: log_utf8_prefix_def Let_def)
  next
    case False
    then have "scalar_start W (w - 1) = 0"
      using wl by (intro scalar_start_run) (auto simp: nth cont)
    moreover have "scalar_width (W ! 0) = 1" using False wl cont by (intro cont_width) (simp add: nth)
    ultimately show ?thesis
      unfolding W_def [symmetric] using wl by (simp add: log_utf8_prefix_def Let_def)
  qed
qed

lemma window_inside:
  assumes x: "well_encoded x" and r: "0 < r" "r < length x" and w: "w = min 3 (length A + r)"
  shows "log_utf8_prefix (drop (length A + r - w) (A @ x @ B)) w = w - r"
proof -
  define W where "W = drop (length A + r - w) (A @ x @ B)"
  note x' = well_encoded_nth [OF x] and cont = well_encoded_cont [OF x]
  have wl: "w \<le> length A + r" "r \<le> w" "0 < w" using w r x'(2) by (auto simp: min_def)
  have nth: "W ! i = x ! (i + r - w)" if "w \<le> i + r" "i < w" for i
    unfolding W_def using that wl r by (intro window_nth) auto
  have "scalar_start W (w - 1) = w - r"
    using x' wl r by (intro scalar_start_run) (auto simp: nth cont)
  then show ?thesis
    unfolding W_def [symmetric] using wl r x' nth [of "w - r"] by (simp add: log_utf8_prefix_def Let_def)
qed

lemma log_cut_boundary:
  assumes "utf8_text T" "MARKER_SIZE \<le> K" "K < length T"
  shows "utf8_text (take (log_cut K T) T)" "K - MARKER_SIZE < log_cut K T + 4"
proof -
  obtain ss where ss: "T = concat (map utf8_bytes ss)" "\<forall>s\<in>set ss. scalar_ok s \<and> s \<noteq> 0"
    using assms(1) by (auto simp: utf8_text_def)
  define k where "k = K - MARKER_SIZE"
  define w where "w = min 3 k"
  have cut: "log_cut K T = k - w + log_utf8_prefix (drop (k - w) T) w"
    unfolding log_cut_def Let_def w_def k_def ..
  have enc: "well_encoded (utf8_bytes s)" if "s \<in> set ss" for s
    using ss(2) that utf8_bytes_encoded by auto
  have tx: "utf8_text (concat (map utf8_bytes ts))" if "set ts \<subseteq> set ss" for ts
    using ss(2) that unfolding utf8_text_def by (intro exI [of _ ts]) auto
  have "k \<le> length (concat (map utf8_bytes ss))" using assms(3) ss(1) by (simp add: k_def)
  then have "(\<exists>ys zs. map utf8_bytes ss = ys @ zs \<and> length (concat ys) = k) \<or>
    (\<exists>ys x zs. map utf8_bytes ss = ys @ x # zs \<and> length (concat ys) < k \<and> k < length (concat ys) + length x)"
    using utf8_bytes_length(2) by (intro concat_split) auto
  then consider
    (aligned) ys zs where "map utf8_bytes ss = ys @ zs" "length (concat ys) = k" |
    (inside) ys x zs where "map utf8_bytes ss = ys @ x # zs" "length (concat ys) < k"
      "k < length (concat ys) + length x"
    by blast
  then have "\<exists>ys zs. map utf8_bytes ss = ys @ zs \<and> log_cut K T = length (concat ys) \<and> k < log_cut K T + 4"
  proof cases
    case aligned
    show ?thesis
    proof (cases ys rule: rev_cases)
      case Nil
      then show ?thesis using aligned cut by (intro exI [of _ ys] exI [of _ zs]) (simp add: w_def log_utf8_prefix_def)
    next
      case (snoc ys' x)
      then have "x \<in> utf8_bytes ` set ss" using aligned(1) by (metis in_set_conv_decomp list.set_map append_assoc append_Cons)
      then have "well_encoded x" using enc by auto
      moreover have "T = concat ys' @ x @ concat zs" using ss(1) aligned(1) snoc by simp
      moreover have "k = length (concat ys') + length x" using aligned(2) snoc by simp
      ultimately have "log_utf8_prefix (drop (k - w) T) w = w" using window_whole [of x w "concat ys'" "concat zs"] by (simp add: w_def)
      then have "log_cut K T = k" using cut by (simp add: w_def)
      then show ?thesis using aligned by (intro exI [of _ ys] exI [of _ zs]) simp
    qed
  next
    case inside
    define r where "r = k - length (concat ys)"
    have r: "0 < r" "r < length x" "k = length (concat ys) + r" using inside by (auto simp: r_def)
    have "x \<in> utf8_bytes ` set ss" using inside(1) by (metis in_set_conv_decomp list.set_map)
    then have x: "well_encoded x" using enc by auto
    moreover have "T = concat ys @ x @ concat zs" using ss(1) inside(1) by simp
    ultimately have "log_utf8_prefix (drop (k - w) T) w = w - r"
      using window_inside [of x r w "concat ys" "concat zs"] r by (simp add: w_def)
    moreover have "r \<le> w" "w \<le> k" "r \<le> 3" using r x by (auto simp: w_def well_encoded_def)
    ultimately have "log_cut K T = length (concat ys)" "k < log_cut K T + 4" using cut r by simp_all
    then show ?thesis using inside(1) by blast
  qed
  then obtain ys zs where yz: "map utf8_bytes ss = ys @ zs" "log_cut K T = length (concat ys)" "k < log_cut K T + 4"
    by blast
  obtain ts us where "ss = ts @ us" "ys = map utf8_bytes ts" using yz(1) by (auto simp: map_eq_append_conv)
  moreover have "take (log_cut K T) T = concat ys" using ss(1) yz by simp
  ultimately show "utf8_text (take (log_cut K T) T)" "K - MARKER_SIZE < log_cut K T + 4"
    using tx yz(3) by (auto simp: k_def)
qed


subsection \<open>Properties\<close>

lemma wrap_log_ok:
  assumes "iperf_bounded_log_wrap fw env sink E st = (Some lg, st')"
  shows "log_ok (if MARKER_SIZE \<le> ls_limit st \<and> E \<le> ls_limit st then ls_limit st - E else 0) E
      (lg\<lparr>bl_status := (bl_status lg)\<lparr>ls_truncated := t\<rparr>\<rparr>)"
    "ls_limit (bl_status lg) = ls_limit st" "bl_sink lg = (if sink then Some [] else None)"
  using assms
  by (auto simp: iperf_bounded_log_wrap_def Let_def log_ok_def content_def split: if_splits option.splits prod.splits)

lemma bounded_writes_ok:
  "log_ok K E lg \<Longrightarrow> \<exists>lg'. bounded_writes fw lg ws = Some lg' \<and> log_ok K E lg'"
proof (induction ws arbitrary: lg)
  case (Cons bs ws)
  then show ?case using bounded_write_ok [OF Cons.prems, of fw bs] by auto
qed simp

lemma bounded_close_content:
  "content (fst (bounded_close fw fc lg)) = content (write_bytes fw lg (bl_tail lg))"
  "ls_file_bytes (bl_status (fst (bounded_close fw fc lg))) =
     ls_file_bytes (bl_status (write_bytes fw lg (bl_tail lg)))"
  "bl_sink (fst (bounded_close fw fc lg)) = bl_sink (write_bytes fw lg (bl_tail lg))"
  "ls_truncated (bl_status (fst (bounded_close fw fc lg))) = ls_truncated (bl_status lg)"
  by (simp_all add: bounded_close_def Let_def)


definition fresh_status :: "nat \<Rightarrow> iperf_log_status" where
  "fresh_status limit = \<lparr>ls_limit = limit, ls_bytes_written = 0, ls_file_bytes = 0, ls_attempted = False,
     ls_file_size_known = False, ls_truncated = False, ls_open_errno = None, ls_write_errno = None,
     ls_close_errno = None\<rparr>"

definition good_env :: wrap_env where
  "good_env = \<lparr>we_calloc = True, we_setvbuf = None, we_funopen = None, we_fclose = (False, None)\<rparr>"


text \<open>
  C10. With a working sink the streaming log is equivalent to its reference: however the output
  is cut into writes, the file ends up with all of it when it fits, and otherwise with a
  prefix and the truncation marker, and truncation is reported exactly in that case.
\<close>

theorem log_stream_equiv:
  assumes "perfect fw" "MARKER_SIZE \<le> K" "bl_capacity lg = K" "bl_sink lg = Some []" "bl_tail lg = []"
    "bl_accepted lg = 0" "ls_truncated (bl_status lg) = False" "ls_open_errno (bl_status lg) = None"
    "ls_write_errno (bl_status lg) = None"
  shows "\<exists>lg'. bounded_writes fw lg ws = Some lg' \<and>
    (let lg2 = fst (bounded_close fw fc lg') in
       bl_sink lg2 = Some (log_spec K (concat ws)) \<and>
       (ls_truncated (bl_status lg2) \<longleftrightarrow> K < length (concat ws)))"
proof -
  have "stream_ok K [] lg" using assms by (simp add: stream_ok_def)
  then obtain lg' where lg': "bounded_writes fw lg ws = Some lg'" "stream_ok K (concat ws) lg'"
    using bounded_writes_stream [OF assms(1,2)] by fastforce
  then obtain c where c: "bl_sink lg' = Some c" "ls_write_errno (bl_status lg') = None"
    "c @ bl_tail lg' = log_spec K (concat ws)"
    by (cases "K < length (concat ws)") (auto simp: stream_ok_def log_spec_def)
  have "bl_sink (write_bytes fw lg' (bl_tail lg')) = Some (log_spec K (concat ws))"
    using write_bytes_perfect(1) [OF assms(1) c(1,2), of "bl_tail lg'"] c(3) by simp
  then show ?thesis
    using lg' bounded_close_content(3,4) [of fw fc lg'] by (auto simp: stream_ok_def Let_def)
qed

definition new_log :: "nat \<Rightarrow> bounded_log" where
  "new_log K = \<lparr>bl_sink = Some [], bl_status = fresh_status K, bl_capacity = K, bl_accepted = 0,
     bl_tail = [], bl_writes = 0\<rparr>"

theorem log_stream_equiv_witness:
  "\<exists>lg'. bounded_writes (\<lambda>_ n. (n, False, None)) (new_log 25)
      [bytes_of ''abcdefghij'', bytes_of ''klmnopqrstuvwxyz''] = Some lg' \<and>
    bl_sink (fst (bounded_close (\<lambda>_ n. (n, False, None)) (False, None) lg')) = Some (bytes_of ''ab'' @ log_marker)"
proof -
  have "log_spec 25 (concat [bytes_of ''abcdefghij'', bytes_of ''klmnopqrstuvwxyz'']) = bytes_of ''ab'' @ log_marker"
    by code_simp
  then show ?thesis
    using log_stream_equiv [of "\<lambda>_ n. (n, False, None)" 25 "new_log 25"
        "[bytes_of ''abcdefghij'', bytes_of ''klmnopqrstuvwxyz'']" "(False, None)"]
    by (auto simp: Let_def perfect_def new_log_def fresh_status_def simp del: bounded_writes.simps)
qed

text \<open>
  C11. A truncated log of UTF-8 output keeps whole characters and wastes almost nothing: the
  kept prefix is itself UTF-8 text, the file fits the limit, and at most three bytes of the
  room left by the marker stay unused.
\<close>

theorem log_truncation_utf8:
  assumes "utf8_text T" "MARKER_SIZE \<le> K" "K < length T"
  shows "\<exists>pre. log_spec K T = pre @ iperf_log_truncation_marker \<and> utf8_text pre \<and>
    length (log_spec K T) \<le> K \<and> K < length (log_spec K T) + 4"
proof -
  have len: "length (take (log_cut K T) T) = log_cut K T" using log_cut_le [of K T] assms(3) by simp
  have "log_cut K T + 23 \<le> K" "K < log_cut K T + 27"
    using log_cut_le [of K T] log_cut_boundary(2) [OF assms] assms(2) by (simp_all add: le_diff_conv2)
  then show ?thesis
    using log_cut_boundary(1) [OF assms] assms(3) len
    by (intro exI [of _ "take (log_cut K T) T"])
      (simp add: log_spec_def iperf_log_truncation_marker_def del: length_take)
qed

definition euro_text :: bytes where
  "euro_text = concat (map utf8_bytes (replicate 9 0x20ac))"

theorem log_truncation_utf8_witness:
  "\<exists>pre. log_spec 26 euro_text = pre @ iperf_log_truncation_marker \<and> utf8_text pre \<and>
     26 < length (log_spec 26 euro_text) + 4"
proof -
  have "utf8_text euro_text"
    unfolding utf8_text_def euro_text_def
    by (intro exI [of _ "replicate 9 0x20ac"]) (simp add: scalar_ok_def)
  moreover have "length euro_text = 27" by code_simp
  ultimately show ?thesis using log_truncation_utf8 [of euro_text 26] by auto
qed

end
