(* ===== verification/C_Numbers.thy ===== *)
theory C_Numbers
  imports Prelude
begin

text \<open>
  The parts of C arithmetic that the JSON code relies on: the values of an IEEE 754 binary64
  \<open>double\<close> including infinities and NaN, rounding of an exact rational to the nearest
  double (ties to even, gradual underflow, overflow to infinity), the conversion to
  \<open>int64_t\<close>, the \<open>%d\<close>, \<open>%x\<close> and \<open>%.Pg\<close> conversions of \<open>printf\<close>, and \<open>strtod\<close> on the
  characters that a JSON number may contain. Negative zero is not told apart from zero.
\<close>

subsection \<open>Doubles\<close>

datatype ieee = Fin rat | PInf | NInf | NaN

abbreviation isnan :: "ieee \<Rightarrow> bool" where "isnan d \<equiv> d = NaN"

abbreviation isinf :: "ieee \<Rightarrow> bool" where "isinf d \<equiv> d = PInf \<or> d = NInf"

definition round_half_even :: "rat \<Rightarrow> int" where
  "round_half_even x =
     (let f = \<lfloor>x\<rfloor>; r = x - of_int f
      in if r < 1 / 2 then f else if 1 / 2 < r then f + 1 else if even f then f else f + 1)"

text \<open>
  \<open>scale b e\<close> is \<open>b\<close> to the power \<open>e\<close>, \<open>ndigits b n\<close> the number of digits of \<open>n\<close> in
  base \<open>b\<close>, \<open>log_floor b x\<close> the exponent of the leading digit of \<open>x\<close>.
\<close>

definition scale :: "int \<Rightarrow> int \<Rightarrow> rat" where
  "scale b e = (if 0 \<le> e then of_int b ^ nat e else 1 / of_int b ^ nat (- e))"

function ndigits :: "int \<Rightarrow> int \<Rightarrow> int" where
  "ndigits b n = (if b \<le> 1 \<or> n \<le> 0 then 0 else 1 + ndigits b (n div b))"
  by pat_completeness auto
termination
proof (relation "measure (\<lambda>(b, n). nat n)")
  fix b n :: int
  assume "\<not> (b \<le> 1 \<or> n \<le> 0)"
  then have "n div b < n" by (intro int_div_less_self) auto
  then show "((b, n div b), b, n) \<in> measure (\<lambda>(b, n). nat n)"
    using \<open>\<not> (b \<le> 1 \<or> n \<le> 0)\<close> by auto
qed simp

declare ndigits.simps [simp del]

definition log_floor :: "int \<Rightarrow> rat \<Rightarrow> int" where
  "log_floor b x =
     (let (p, q) = quotient_of x; k = ndigits b p - ndigits b q
      in if scale b k \<le> x then k else k - 1)"

definition round64 :: "rat \<Rightarrow> ieee" where
  "round64 x =
     (if x = 0 then Fin 0
      else let e = max (log_floor 2 \<bar>x\<bar> - 52) (- 1074);
               y = of_int (round_half_even (\<bar>x\<bar> / scale 2 e)) * scale 2 e
           in if scale 2 1024 \<le> y then (if 0 < x then PInf else NInf)
              else Fin (if 0 < x then y else - y))"

definition of_int64 :: "int \<Rightarrow> ieee" where "of_int64 n = round64 (of_int n)"

text \<open>The comparison \<open>==\<close>, and the operations of \<open>compare_double\<close>.\<close>

definition deq :: "ieee \<Rightarrow> ieee \<Rightarrow> bool" where
  "deq a b \<longleftrightarrow> a = b \<and> a \<noteq> NaN"

fun dabs :: "ieee \<Rightarrow> ieee" where
  "dabs (Fin x) = Fin \<bar>x\<bar>" | "dabs NaN = NaN" | "dabs _ = PInf"

fun dle :: "ieee \<Rightarrow> ieee \<Rightarrow> bool" where
  "dle (Fin x) (Fin y) \<longleftrightarrow> x \<le> y"
| "dle a b \<longleftrightarrow> a \<noteq> NaN \<and> b \<noteq> NaN \<and> (a = NInf \<or> b = PInf)"

definition dlt :: "ieee \<Rightarrow> ieee \<Rightarrow> bool" where
  "dlt a b \<longleftrightarrow> dle a b \<and> \<not> deq a b"

fun dminus :: "ieee \<Rightarrow> ieee \<Rightarrow> ieee" where
  "dminus (Fin x) (Fin y) = round64 (x - y)"
| "dminus (Fin _) PInf = NInf" | "dminus (Fin _) NInf = PInf"
| "dminus PInf (Fin _) = PInf" | "dminus PInf NInf = PInf"
| "dminus NInf (Fin _) = NInf" | "dminus NInf PInf = NInf"
| "dminus _ _ = NaN"

text \<open>Multiplication by \<open>DBL_EPSILON\<close>.\<close>

fun times_epsilon :: "ieee \<Rightarrow> ieee" where
  "times_epsilon (Fin x) = round64 (x / 2 ^ 52)" | "times_epsilon d = d"

text \<open>\<open>(int64_t) d\<close>; the conversion of a NaN or of a value out of range is undefined.\<close>

fun to_int64 :: "ieee \<Rightarrow> int option" where
  "to_int64 (Fin x) =
     (let n = (if 0 \<le> x then \<lfloor>x\<rfloor> else \<lceil>x\<rceil>)
      in if - (2 ^ 63) \<le> n \<and> n < 2 ^ 63 then Some n else None)"
| "to_int64 _ = None"

subsection \<open>Characters\<close>

abbreviation chr_digit :: "int \<Rightarrow> byte" where "chr_digit n \<equiv> of_int (48 + n)"

definition is_digit :: "byte \<Rightarrow> bool" where "is_digit c \<longleftrightarrow> 48 \<le> c \<and> c \<le> 57"

definition digit_val :: "byte \<Rightarrow> int" where "digit_val c = uint c - 48"

text \<open>The bytes of a string literal.\<close>

definition lit :: "string \<Rightarrow> bytes" where "lit s = map of_char s"

subsection \<open>Printing numbers\<close>

function dec :: "int \<Rightarrow> bytes" where
  "dec n = (if n < 10 then [chr_digit n] else dec (n div 10) @ [chr_digit (n mod 10)])"
  by pat_completeness auto
termination by (relation "measure nat") auto

declare dec.simps [simp del]

text \<open>\<open>"%" PRId64\<close>\<close>

definition format_d :: "int \<Rightarrow> bytes" where
  "format_d n = (if n < 0 then 45 # dec (- n) else dec n)"

text \<open>\<open>"%04x"\<close> of a byte\<close>

definition hex_char :: "nat \<Rightarrow> byte" where
  "hex_char n = (if n < 10 then of_nat (48 + n) else of_nat (87 + n))"

definition format_04x :: "byte \<Rightarrow> bytes" where
  "format_04x b = [48, 48, hex_char (unat b div 16), hex_char (unat b mod 16)]"

text \<open>\<open>"%.Pg"\<close> of a finite double\<close>

definition strip_zeros :: "bytes \<Rightarrow> bytes" where
  "strip_zeros ds = rev (dropWhile (\<lambda>c. c = 48) (rev ds))"

definition fraction :: "bytes \<Rightarrow> bytes" where
  "fraction ds = (let t = strip_zeros ds in if t = [] then [] else 46 # t)"

definition format_fixed :: "bytes \<Rightarrow> int \<Rightarrow> bytes" where
  "format_fixed ds e =
     (if 0 \<le> e then take (nat e + 1) ds @ fraction (drop (nat e + 1) ds)
      else 48 # fraction (replicate (nat (- e) - 1) 48 @ ds))"

definition format_exp :: "bytes \<Rightarrow> int \<Rightarrow> bytes" where
  "format_exp ds e =
     take 1 ds @ fraction (drop 1 ds) @ 101 # (if e < 0 then 45 else 43) #
       (if \<bar>e\<bar> < 10 then [48] else []) @ dec \<bar>e\<bar>"

definition format_g :: "nat \<Rightarrow> rat \<Rightarrow> bytes" where
  "format_g P x =
     (if x = 0 then [48]
      else let e = log_floor 10 \<bar>x\<bar>;
               m = round_half_even (\<bar>x\<bar> / scale 10 (e - int P + 1));
               (m', e') = (if m = 10 ^ P then (m div 10, e + 1) else (m, e));
               ds = dec m'
           in (if x < 0 then [45] else []) @
              (if - 4 \<le> e' \<and> e' < int P then format_fixed ds e' else format_exp ds e'))"

subsection \<open>strtod\<close>

definition digits_val :: "bytes \<Rightarrow> int" where
  "digits_val ds = foldl (\<lambda>n c. 10 * n + digit_val c) 0 ds"

text \<open>An optional sign: whether it is a minus, and the number of characters it takes.\<close>

definition sign_of :: "bytes \<Rightarrow> bool \<times> nat" where
  "sign_of s = (case s of [] \<Rightarrow> (False, 0)
     | c # _ \<Rightarrow> if c = 45 then (True, 1) else if c = 43 then (False, 1) else (False, 0))"

definition strtod_exponent :: "bytes \<Rightarrow> int \<times> nat" where
  "strtod_exponent s = (case s of [] \<Rightarrow> (0, 0)
     | c # r \<Rightarrow>
        if c = 101 \<or> c = 69 then
          let (neg, k) = sign_of r; ds = takeWhile is_digit (drop k r)
          in if ds = [] then (0, 0)
             else ((if neg then - digits_val ds else digits_val ds), 1 + k + length ds)
        else (0, 0))"

text \<open>The value and the number of characters read; 0 characters when there is no number.\<close>

definition strtod :: "bytes \<Rightarrow> ieee \<times> nat" where
  "strtod s =
     (let (neg, k) = sign_of s;
          s1 = drop k s;
          ip = takeWhile is_digit s1;
          s2 = drop (length ip) s1;
          point = (s2 \<noteq> [] \<and> hd s2 = 46);
          fp = (if point then takeWhile is_digit (tl s2) else []);
          n2 = (if point then 1 + length fp else 0)
      in if ip = [] \<and> fp = [] then (Fin 0, 0)
         else let (ex, n3) = strtod_exponent (drop n2 s2);
                  x = of_int (digits_val (ip @ fp)) * scale 10 (ex - int (length fp))
              in (round64 (if neg then - x else x), k + length ip + n2 + n3))"

end
