(* ===== verification/Cjson.thy ===== *)
theory Cjson
  imports C_Numbers
begin

text \<open>
  The items of \<open>cjson.c\<close>: the tree of \<open>cJSON\<close> structs, the allocator that every operation
  goes through, the constructors, accessors and editing operations, duplication, comparison
  and minification. The chain of \<open>next\<close> pointers from \<open>child\<close> is a list; the theory of
  sibling links treats the pointers themselves. C strings are byte lists without their
  terminator and \<open>None\<close> is \<open>NULL\<close>. An item that was made as a reference holds a copy of the
  fields of its original, as \<open>memcpy\<close> does, and owns neither its children nor its string.
\<close>

subsection \<open>The allocator\<close>

text \<open>
  \<open>h_ok n\<close> tells whether the n-th allocation succeeds and \<open>h_fill n i\<close> is byte \<open>i\<close> of the
  uninitialised block it returns; \<open>h_live\<close> is the number of blocks allocated and not freed;
  \<open>h_realloc\<close> tells whether the \<open>reallocate\<close> hook is set.
\<close>

record heap =
  h_ok :: "nat \<Rightarrow> bool"
  h_fill :: "nat \<Rightarrow> nat \<Rightarrow> byte"
  h_calls :: nat
  h_live :: int
  h_realloc :: bool

definition allocate :: "heap \<Rightarrow> bool \<times> heap" where
  "allocate h = (let ok = h_ok h (h_calls h)
     in (ok, h\<lparr>h_calls := h_calls h + 1, h_live := h_live h + (if ok then 1 else 0)\<rparr>))"

definition deallocate :: "heap \<Rightarrow> heap" where
  "deallocate h = h\<lparr>h_live := h_live h - 1\<rparr>"

datatype hook_fn = c_malloc | c_free | c_realloc | user_fn nat

record internal_hooks =
  hk_allocate :: hook_fn
  hk_deallocate :: hook_fn
  hk_reallocate :: "hook_fn option"

text \<open>The argument is the \<open>malloc_fn\<close> and the \<open>free_fn\<close> of the caller's struct.\<close>

definition cJSON_InitHooks :: "(hook_fn option \<times> hook_fn option) option \<Rightarrow> internal_hooks" where
  "cJSON_InitHooks hooks =
     (case hooks of
        None \<Rightarrow> \<lparr>hk_allocate = c_malloc, hk_deallocate = c_free, hk_reallocate = Some c_realloc\<rparr>
      | Some (malloc_fn, free_fn) \<Rightarrow>
          let a = (case malloc_fn of None \<Rightarrow> c_malloc | Some f \<Rightarrow> f);
              d = (case free_fn of None \<Rightarrow> c_free | Some f \<Rightarrow> f)
          in \<lparr>hk_allocate = a, hk_deallocate = d,
              hk_reallocate = (if a = c_malloc \<and> d = c_free then Some c_realloc else None)\<rparr>)"

subsection \<open>Items\<close>

definition cJSON_Invalid :: int where "cJSON_Invalid = 0"
definition cJSON_False :: int where "cJSON_False = 1"
definition cJSON_True :: int where "cJSON_True = 2"
definition cJSON_NULL :: int where "cJSON_NULL = 4"
definition cJSON_Number :: int where "cJSON_Number = 8"
definition cJSON_String :: int where "cJSON_String = 16"
definition cJSON_Array :: int where "cJSON_Array = 32"
definition cJSON_Object :: int where "cJSON_Object = 64"
definition cJSON_Raw :: int where "cJSON_Raw = 128"
definition cJSON_IsReference :: int where "cJSON_IsReference = 256"
definition cJSON_StringIsConst :: int where "cJSON_StringIsConst = 512"

lemmas cJSON_types = cJSON_Invalid_def cJSON_False_def cJSON_True_def cJSON_NULL_def
  cJSON_Number_def cJSON_String_def cJSON_Array_def cJSON_Object_def cJSON_Raw_def
  cJSON_IsReference_def cJSON_StringIsConst_def

datatype cJSON =
  Item (c_type: int) (c_valuestring: "bytes option") (c_valueint: int) (c_valuedouble: ieee)
       (c_string: "bytes option") (c_child: "cJSON list")

primrec set_type :: "int \<Rightarrow> cJSON \<Rightarrow> cJSON" where
  "set_type t' (Item t vs vi vd s ch) = Item t' vs vi vd s ch"

primrec set_valuestring :: "bytes option \<Rightarrow> cJSON \<Rightarrow> cJSON" where
  "set_valuestring vs' (Item t vs vi vd s ch) = Item t vs' vi vd s ch"

primrec set_number :: "int \<Rightarrow> ieee \<Rightarrow> cJSON \<Rightarrow> cJSON" where
  "set_number vi' vd' (Item t vs vi vd s ch) = Item t vs vi' vd' s ch"

primrec set_string :: "bytes option \<Rightarrow> cJSON \<Rightarrow> cJSON" where
  "set_string s' (Item t vs vi vd s ch) = Item t vs vi vd s' ch"

primrec set_child :: "cJSON list \<Rightarrow> cJSON \<Rightarrow> cJSON" where
  "set_child ch' (Item t vs vi vd s ch) = Item t vs vi vd s ch'"

abbreviation kind :: "cJSON \<Rightarrow> int" where "kind i \<equiv> c_type i AND 255"

abbreviation is_reference :: "cJSON \<Rightarrow> bool" where
  "is_reference i \<equiv> c_type i AND cJSON_IsReference \<noteq> 0"

abbreviation string_is_const :: "cJSON \<Rightarrow> bool" where
  "string_is_const i \<equiv> c_type i AND cJSON_StringIsConst \<noteq> 0"

definition new_item :: cJSON where "new_item = Item cJSON_Invalid None 0 (Fin 0) None []"

definition cJSON_New_Item :: "heap \<Rightarrow> cJSON option \<times> heap" where
  "cJSON_New_Item h = (let (ok, h) = allocate h in (if ok then Some new_item else None, h))"

text \<open>The first argument is the chain of siblings that starts at the item.\<close>

fun cJSON_Delete :: "cJSON list \<Rightarrow> heap \<Rightarrow> heap" where
  "cJSON_Delete [] h = h"
| "cJSON_Delete (Item t vs vi vd s ch # nxt) h =
     (let ref = (t AND cJSON_IsReference \<noteq> 0);
          h = (if \<not> ref \<and> ch \<noteq> [] then cJSON_Delete ch h else h);
          h = (if \<not> ref \<and> vs \<noteq> None then deallocate h else h);
          h = (if t AND cJSON_StringIsConst = 0 \<and> s \<noteq> None then deallocate h else h)
      in cJSON_Delete nxt (deallocate h))"

definition cJSON_strdup :: "bytes option \<Rightarrow> heap \<Rightarrow> bytes option \<times> heap" where
  "cJSON_strdup str h =
     (case str of None \<Rightarrow> (None, h)
      | Some s \<Rightarrow> let (ok, h) = allocate h in (if ok then Some s else None, h))"

definition cJSON_Version :: bytes where
  "cJSON_Version = format_d 1 @ lit ''.'' @ format_d 7 @ lit ''.'' @ format_d 15"

subsection \<open>Strings\<close>

definition tolower :: "byte \<Rightarrow> int" where
  "tolower c = (if 65 \<le> c \<and> c \<le> 90 then uint c + 32 else uint c)"

fun ci_loop :: "bytes \<Rightarrow> bytes \<Rightarrow> int" where
  "ci_loop [] [] = 0"
| "ci_loop [] (b # bs) = tolower 0 - tolower b"
| "ci_loop (a # as) [] = tolower a - tolower 0"
| "ci_loop (a # as) (b # bs) =
     (if tolower a = tolower b then ci_loop as bs else tolower a - tolower b)"

definition case_insensitive_strcmp :: "bytes option \<Rightarrow> bytes option \<Rightarrow> int" where
  "case_insensitive_strcmp string1 string2 =
     (case (string1, string2) of (Some a, Some b) \<Rightarrow> ci_loop a b | _ \<Rightarrow> 1)"

subsection \<open>Numbers\<close>

definition LLONG_MAX :: int where "LLONG_MAX = 9223372036854775807"
definition LLONG_MIN :: int where "LLONG_MIN = - LLONG_MAX - 1"

text \<open>The conversion that parsing, creating and setting a number share.\<close>

definition saturate :: "ieee \<Rightarrow> int option" where
  "saturate number =
     (if dle (of_int64 LLONG_MAX) number then Some LLONG_MAX
      else if dle number (of_int64 LLONG_MIN) then Some LLONG_MIN
      else to_int64 number)"

definition cJSON_SetNumberHelper :: "cJSON \<Rightarrow> ieee \<Rightarrow> (ieee \<times> cJSON) option" where
  "cJSON_SetNumberHelper object number =
     do { v \<leftarrow> saturate number; Some (number, set_number v number object) }"

definition compare_double :: "ieee \<Rightarrow> ieee \<Rightarrow> bool" where
  "compare_double a b =
     (let maxVal = (if dlt (dabs b) (dabs a) then dabs a else dabs b)
      in dle (dabs (dminus a b)) (times_epsilon maxVal))"

text \<open>\<open>None\<close>: \<open>strlen\<close> of a \<open>NULL\<close> string.\<close>

definition cJSON_SetValuestring ::
  "cJSON \<Rightarrow> bytes \<Rightarrow> heap \<Rightarrow> (bytes option \<times> cJSON \<times> heap) option" where
  "cJSON_SetValuestring object str h =
     (if c_type object AND cJSON_String = 0 \<or> is_reference object then Some (None, object, h)
      else do { old \<leftarrow> c_valuestring object;
        if length str \<le> length old then Some (Some str, set_valuestring (Some str) object, h)
        else let (copy, h) = cJSON_strdup (Some str) h
          in (case copy of
                None \<Rightarrow> Some (None, object, h)
              | Some c \<Rightarrow> Some (Some c, set_valuestring (Some c) object, deallocate h)) })"

subsection \<open>Type tests and values\<close>

definition has_kind :: "int \<Rightarrow> cJSON option \<Rightarrow> bool" where
  "has_kind t item = (case item of None \<Rightarrow> False | Some i \<Rightarrow> kind i = t)"

definition cJSON_IsInvalid :: "cJSON option \<Rightarrow> bool" where
  "cJSON_IsInvalid = has_kind cJSON_Invalid"
definition cJSON_IsFalse :: "cJSON option \<Rightarrow> bool" where
  "cJSON_IsFalse = has_kind cJSON_False"
definition cJSON_IsTrue :: "cJSON option \<Rightarrow> bool" where
  "cJSON_IsTrue = has_kind cJSON_True"
definition cJSON_IsBool :: "cJSON option \<Rightarrow> bool" where
  "cJSON_IsBool item =
     (case item of None \<Rightarrow> False | Some i \<Rightarrow> c_type i AND (cJSON_True OR cJSON_False) \<noteq> 0)"
definition cJSON_IsNull :: "cJSON option \<Rightarrow> bool" where
  "cJSON_IsNull = has_kind cJSON_NULL"
definition cJSON_IsNumber :: "cJSON option \<Rightarrow> bool" where
  "cJSON_IsNumber = has_kind cJSON_Number"
definition cJSON_IsString :: "cJSON option \<Rightarrow> bool" where
  "cJSON_IsString = has_kind cJSON_String"
definition cJSON_IsArray :: "cJSON option \<Rightarrow> bool" where
  "cJSON_IsArray = has_kind cJSON_Array"
definition cJSON_IsObject :: "cJSON option \<Rightarrow> bool" where
  "cJSON_IsObject = has_kind cJSON_Object"
definition cJSON_IsRaw :: "cJSON option \<Rightarrow> bool" where
  "cJSON_IsRaw = has_kind cJSON_Raw"

definition cJSON_GetStringValue :: "cJSON option \<Rightarrow> bytes option" where
  "cJSON_GetStringValue item =
     (if \<not> cJSON_IsString item then None else Option.bind item c_valuestring)"

definition cJSON_GetNumberValue :: "cJSON option \<Rightarrow> ieee" where
  "cJSON_GetNumberValue item =
     (if \<not> cJSON_IsNumber item then NaN
      else case item of None \<Rightarrow> NaN | Some i \<Rightarrow> c_valuedouble i)"

subsection \<open>Looking up children\<close>

text \<open>A pointer to a child is its position in the chain.\<close>

definition cJSON_GetArraySize :: "cJSON option \<Rightarrow> int" where
  "cJSON_GetArraySize array =
     (case array of None \<Rightarrow> 0 | Some a \<Rightarrow> sint (of_nat (length (c_child a)) :: 32 word))"

fun array_walk :: "nat \<Rightarrow> cJSON list \<Rightarrow> nat \<Rightarrow> nat option" where
  "array_walk i [] idx = None"
| "array_walk i (c # cs) 0 = Some i"
| "array_walk i (c # cs) (Suc idx) = array_walk (Suc i) cs idx"

definition get_array_item :: "cJSON option \<Rightarrow> nat \<Rightarrow> nat option" where
  "get_array_item array idx =
     (case array of None \<Rightarrow> None | Some a \<Rightarrow> array_walk 0 (c_child a) idx)"

definition nth_child :: "cJSON option \<Rightarrow> nat option \<Rightarrow> cJSON option" where
  "nth_child parent p =
     (case (parent, p) of (Some a, Some i) \<Rightarrow> Some (c_child a ! i) | _ \<Rightarrow> None)"

definition cJSON_GetArrayItem :: "cJSON option \<Rightarrow> int \<Rightarrow> cJSON option" where
  "cJSON_GetArrayItem array idx =
     (if idx < 0 then None else nth_child array (get_array_item array (nat idx)))"

fun object_walk :: "bool \<Rightarrow> bytes \<Rightarrow> nat \<Rightarrow> cJSON list \<Rightarrow> nat option" where
  "object_walk cs name i [] = None"
| "object_walk cs name i (e # es) =
     (if cs then
        (case c_string e of
           None \<Rightarrow> None
         | Some s \<Rightarrow> if name \<noteq> s then object_walk cs name (Suc i) es else Some i)
      else if case_insensitive_strcmp (Some name) (c_string e) \<noteq> 0
        then object_walk cs name (Suc i) es
      else if c_string e = None then None else Some i)"

definition get_object_item :: "cJSON option \<Rightarrow> bytes option \<Rightarrow> bool \<Rightarrow> nat option" where
  "get_object_item object name case_sensitive =
     (case (object, name) of
        (Some ob, Some n) \<Rightarrow> object_walk case_sensitive n 0 (c_child ob)
      | _ \<Rightarrow> None)"

definition cJSON_GetObjectItem :: "cJSON option \<Rightarrow> bytes option \<Rightarrow> cJSON option" where
  "cJSON_GetObjectItem object str = nth_child object (get_object_item object str False)"

definition cJSON_GetObjectItemCaseSensitive :: "cJSON option \<Rightarrow> bytes option \<Rightarrow> cJSON option" where
  "cJSON_GetObjectItemCaseSensitive object str = nth_child object (get_object_item object str True)"

definition cJSON_HasObjectItem :: "cJSON option \<Rightarrow> bytes option \<Rightarrow> bool" where
  "cJSON_HasObjectItem object str \<longleftrightarrow> cJSON_GetObjectItem object str \<noteq> None"

subsection \<open>Creating items\<close>

definition the_list :: "'a option \<Rightarrow> 'a list" where
  "the_list x = (case x of None \<Rightarrow> [] | Some y \<Rightarrow> [y])"

definition create_typed :: "int \<Rightarrow> heap \<Rightarrow> cJSON option \<times> heap" where
  "create_typed t h = (let (item, h) = cJSON_New_Item h in (map_option (set_type t) item, h))"

definition cJSON_CreateNull :: "heap \<Rightarrow> cJSON option \<times> heap" where
  "cJSON_CreateNull = create_typed cJSON_NULL"
definition cJSON_CreateTrue :: "heap \<Rightarrow> cJSON option \<times> heap" where
  "cJSON_CreateTrue = create_typed cJSON_True"
definition cJSON_CreateFalse :: "heap \<Rightarrow> cJSON option \<times> heap" where
  "cJSON_CreateFalse = create_typed cJSON_False"
definition cJSON_CreateBool :: "bool \<Rightarrow> heap \<Rightarrow> cJSON option \<times> heap" where
  "cJSON_CreateBool boolean = create_typed (if boolean then cJSON_True else cJSON_False)"
definition cJSON_CreateArray :: "heap \<Rightarrow> cJSON option \<times> heap" where
  "cJSON_CreateArray = create_typed cJSON_Array"
definition cJSON_CreateObject :: "heap \<Rightarrow> cJSON option \<times> heap" where
  "cJSON_CreateObject = create_typed cJSON_Object"

text \<open>\<open>None\<close>: the number has no \<open>int64_t\<close> conversion.\<close>

definition cJSON_CreateNumber :: "ieee \<Rightarrow> heap \<Rightarrow> (cJSON option \<times> heap) option" where
  "cJSON_CreateNumber num h =
     (let (item, h) = cJSON_New_Item h
      in case item of
           None \<Rightarrow> Some (None, h)
         | Some i \<Rightarrow>
             do { v \<leftarrow> saturate num; Some (Some (set_number v num (set_type cJSON_Number i)), h) })"

definition create_text :: "int \<Rightarrow> bytes option \<Rightarrow> heap \<Rightarrow> cJSON option \<times> heap" where
  "create_text t str h =
     (let (item, h) = cJSON_New_Item h
      in case item of
           None \<Rightarrow> (None, h)
         | Some i \<Rightarrow>
             let (copy, h) = cJSON_strdup str h; i = set_valuestring copy (set_type t i)
             in if copy = None then (None, cJSON_Delete [i] h) else (Some i, h))"

definition cJSON_CreateString :: "bytes option \<Rightarrow> heap \<Rightarrow> cJSON option \<times> heap" where
  "cJSON_CreateString = create_text cJSON_String"
definition cJSON_CreateRaw :: "bytes option \<Rightarrow> heap \<Rightarrow> cJSON option \<times> heap" where
  "cJSON_CreateRaw = create_text cJSON_Raw"

definition cJSON_CreateStringReference :: "bytes option \<Rightarrow> heap \<Rightarrow> cJSON option \<times> heap" where
  "cJSON_CreateStringReference str h =
     (let (item, h) = cJSON_New_Item h
      in (map_option (\<lambda>i. set_valuestring str (set_type (cJSON_String OR cJSON_IsReference) i)) item, h))"

definition cJSON_CreateObjectReference :: "cJSON list \<Rightarrow> heap \<Rightarrow> cJSON option \<times> heap" where
  "cJSON_CreateObjectReference ch h =
     (let (item, h) = cJSON_New_Item h
      in (map_option (\<lambda>i. set_child ch (set_type (cJSON_Object OR cJSON_IsReference) i)) item, h))"

definition cJSON_CreateArrayReference :: "cJSON list \<Rightarrow> heap \<Rightarrow> cJSON option \<times> heap" where
  "cJSON_CreateArrayReference ch h =
     (let (item, h) = cJSON_New_Item h
      in (map_option (\<lambda>i. set_child ch (set_type (cJSON_Array OR cJSON_IsReference) i)) item, h))"

text \<open>
  The loop of the four array constructors: the elements made so far, and \<open>None\<close> inside when
  an element could not be made.
\<close>

fun create_elements ::
  "('a \<Rightarrow> heap \<Rightarrow> (cJSON option \<times> heap) option) \<Rightarrow> cJSON \<Rightarrow> 'a list \<Rightarrow> heap \<Rightarrow>
     (cJSON option \<times> heap) option" where
  "create_elements mk a [] h = Some (Some a, h)"
| "create_elements mk a (x # xs) h =
     do { (n, h) \<leftarrow> mk x h;
          case n of
            None \<Rightarrow> Some (None, cJSON_Delete [a] h)
          | Some i \<Rightarrow> create_elements mk (set_child (c_child a @ [i]) a) xs h }"

definition create_array_of ::
  "('a \<Rightarrow> heap \<Rightarrow> (cJSON option \<times> heap) option) \<Rightarrow> 'a list option \<Rightarrow> int \<Rightarrow> heap \<Rightarrow>
     (cJSON option \<times> heap) option" where
  "create_array_of mk elems count h =
     (case elems of
        None \<Rightarrow> Some (None, h)
      | Some xs \<Rightarrow>
          if count < 0 then Some (None, h)
          else if length xs < nat count then None
          else let (a, h) = cJSON_CreateArray h
            in case a of None \<Rightarrow> Some (None, h) | Some a \<Rightarrow> create_elements mk a (take (nat count) xs) h)"

definition cJSON_CreateIntArray :: "int list option \<Rightarrow> int \<Rightarrow> heap \<Rightarrow> (cJSON option \<times> heap) option" where
  "cJSON_CreateIntArray = create_array_of (\<lambda>n. cJSON_CreateNumber (Fin (of_int n)))"
definition cJSON_CreateFloatArray :: "ieee list option \<Rightarrow> int \<Rightarrow> heap \<Rightarrow> (cJSON option \<times> heap) option" where
  "cJSON_CreateFloatArray = create_array_of cJSON_CreateNumber"
definition cJSON_CreateDoubleArray :: "ieee list option \<Rightarrow> int \<Rightarrow> heap \<Rightarrow> (cJSON option \<times> heap) option" where
  "cJSON_CreateDoubleArray = create_array_of cJSON_CreateNumber"
definition cJSON_CreateStringArray :: "bytes option list option \<Rightarrow> int \<Rightarrow> heap \<Rightarrow> (cJSON option \<times> heap) option" where
  "cJSON_CreateStringArray = create_array_of (\<lambda>s h. Some (cJSON_CreateString s h))"

subsection \<open>Editing\<close>

text \<open>
  The operations take the parent by value and return it updated. The tests of the code that
  a parent and its new child are the same struct do not arise for values.
\<close>

definition add_item_to_array :: "cJSON option \<Rightarrow> cJSON option \<Rightarrow> bool \<times> cJSON option" where
  "add_item_to_array array item =
     (case (array, item) of
        (Some a, Some i) \<Rightarrow> (True, Some (set_child (c_child a @ [i]) a))
      | _ \<Rightarrow> (False, array))"

definition cJSON_AddItemToArray :: "cJSON option \<Rightarrow> cJSON option \<Rightarrow> bool \<times> cJSON option" where
  "cJSON_AddItemToArray = add_item_to_array"

definition create_reference :: "cJSON option \<Rightarrow> heap \<Rightarrow> cJSON option \<times> heap" where
  "create_reference item h =
     (case item of
        None \<Rightarrow> (None, h)
      | Some i \<Rightarrow>
          let (r, h) = cJSON_New_Item h
          in (map_option (\<lambda>_. set_type (c_type i OR cJSON_IsReference) (set_string None i)) r, h))"

definition add_item_to_object ::
  "cJSON option \<Rightarrow> bytes option \<Rightarrow> cJSON option \<Rightarrow> heap \<Rightarrow> bool \<Rightarrow> bool \<times> cJSON option \<times> heap" where
  "add_item_to_object object str item h constant_key =
     (case (object, str, item) of
        (Some ob, Some k, Some i) \<Rightarrow>
          let (new_key, h) = (if constant_key then (Some k, h) else cJSON_strdup (Some k) h);
              new_type = (if constant_key then c_type i OR cJSON_StringIsConst
                          else c_type i AND NOT cJSON_StringIsConst)
          in if new_key = None then (False, object, h)
             else let h = (if \<not> string_is_const i \<and> c_string i \<noteq> None then deallocate h else h);
                      (ok, ob') = add_item_to_array object (Some (set_type new_type (set_string new_key i)))
                  in (ok, ob', h)
      | _ \<Rightarrow> (False, object, h))"

definition cJSON_AddItemToObject ::
  "cJSON option \<Rightarrow> bytes option \<Rightarrow> cJSON option \<Rightarrow> heap \<Rightarrow> bool \<times> cJSON option \<times> heap" where
  "cJSON_AddItemToObject object str item h = add_item_to_object object str item h False"

definition cJSON_AddItemToObjectCS ::
  "cJSON option \<Rightarrow> bytes option \<Rightarrow> cJSON option \<Rightarrow> heap \<Rightarrow> bool \<times> cJSON option \<times> heap" where
  "cJSON_AddItemToObjectCS object str item h = add_item_to_object object str item h True"

definition cJSON_AddItemReferenceToArray ::
  "cJSON option \<Rightarrow> cJSON option \<Rightarrow> heap \<Rightarrow> bool \<times> cJSON option \<times> heap" where
  "cJSON_AddItemReferenceToArray array item h =
     (if array = None then (False, array, h)
      else let (r, h) = create_reference item h; (ok, a) = add_item_to_array array r in (ok, a, h))"

definition cJSON_AddItemReferenceToObject ::
  "cJSON option \<Rightarrow> bytes option \<Rightarrow> cJSON option \<Rightarrow> heap \<Rightarrow> bool \<times> cJSON option \<times> heap" where
  "cJSON_AddItemReferenceToObject object str item h =
     (if object = None \<or> str = None then (False, object, h)
      else let (r, h) = create_reference item h in add_item_to_object object str r h False)"

text \<open>
  The tail that the \<open>cJSON_Add...ToObject\<close> functions share: add the new item under the name,
  or delete it. The result is whether the item was added.
\<close>

definition add_or_delete ::
  "cJSON option \<Rightarrow> bytes option \<Rightarrow> cJSON option \<times> heap \<Rightarrow> bool \<times> cJSON option \<times> heap" where
  "add_or_delete object name made =
     (let (item, h) = made; (ok, ob, h) = add_item_to_object object name item h False
      in if ok then (True, ob, h) else (False, ob, cJSON_Delete (the_list item) h))"

definition cJSON_AddNullToObject :: "cJSON option \<Rightarrow> bytes option \<Rightarrow> heap \<Rightarrow> bool \<times> cJSON option \<times> heap" where
  "cJSON_AddNullToObject object name h = add_or_delete object name (cJSON_CreateNull h)"
definition cJSON_AddTrueToObject :: "cJSON option \<Rightarrow> bytes option \<Rightarrow> heap \<Rightarrow> bool \<times> cJSON option \<times> heap" where
  "cJSON_AddTrueToObject object name h = add_or_delete object name (cJSON_CreateTrue h)"
definition cJSON_AddFalseToObject :: "cJSON option \<Rightarrow> bytes option \<Rightarrow> heap \<Rightarrow> bool \<times> cJSON option \<times> heap" where
  "cJSON_AddFalseToObject object name h = add_or_delete object name (cJSON_CreateFalse h)"
definition cJSON_AddBoolToObject ::
  "cJSON option \<Rightarrow> bytes option \<Rightarrow> bool \<Rightarrow> heap \<Rightarrow> bool \<times> cJSON option \<times> heap" where
  "cJSON_AddBoolToObject object name boolean h = add_or_delete object name (cJSON_CreateBool boolean h)"
definition cJSON_AddNumberToObject ::
  "cJSON option \<Rightarrow> bytes option \<Rightarrow> ieee \<Rightarrow> heap \<Rightarrow> (bool \<times> cJSON option \<times> heap) option" where
  "cJSON_AddNumberToObject object name num h =
     map_option (add_or_delete object name) (cJSON_CreateNumber num h)"
definition cJSON_AddStringToObject ::
  "cJSON option \<Rightarrow> bytes option \<Rightarrow> bytes option \<Rightarrow> heap \<Rightarrow> bool \<times> cJSON option \<times> heap" where
  "cJSON_AddStringToObject object name str h = add_or_delete object name (cJSON_CreateString str h)"
definition cJSON_AddRawToObject ::
  "cJSON option \<Rightarrow> bytes option \<Rightarrow> bytes option \<Rightarrow> heap \<Rightarrow> bool \<times> cJSON option \<times> heap" where
  "cJSON_AddRawToObject object name raw h = add_or_delete object name (cJSON_CreateRaw raw h)"
definition cJSON_AddObjectToObject :: "cJSON option \<Rightarrow> bytes option \<Rightarrow> heap \<Rightarrow> bool \<times> cJSON option \<times> heap" where
  "cJSON_AddObjectToObject object name h = add_or_delete object name (cJSON_CreateObject h)"
definition cJSON_AddArrayToObject :: "cJSON option \<Rightarrow> bytes option \<Rightarrow> heap \<Rightarrow> bool \<times> cJSON option \<times> heap" where
  "cJSON_AddArrayToObject object name h = add_or_delete object name (cJSON_CreateArray h)"

definition remove_nth :: "nat \<Rightarrow> 'a list \<Rightarrow> 'a list" where
  "remove_nth i xs = take i xs @ drop (Suc i) xs"

definition cJSON_DetachItemViaPointer :: "cJSON option \<Rightarrow> nat option \<Rightarrow> cJSON option \<times> cJSON option" where
  "cJSON_DetachItemViaPointer parent item =
     (case (parent, item) of
        (Some p, Some i) \<Rightarrow> (Some (c_child p ! i), Some (set_child (remove_nth i (c_child p)) p))
      | _ \<Rightarrow> (None, parent))"

definition cJSON_DetachItemFromArray :: "cJSON option \<Rightarrow> int \<Rightarrow> cJSON option \<times> cJSON option" where
  "cJSON_DetachItemFromArray array which =
     (if which < 0 then (None, array)
      else cJSON_DetachItemViaPointer array (get_array_item array (nat which)))"

definition cJSON_DeleteItemFromArray :: "cJSON option \<Rightarrow> int \<Rightarrow> heap \<Rightarrow> cJSON option \<times> heap" where
  "cJSON_DeleteItemFromArray array which h =
     (let (item, a) = cJSON_DetachItemFromArray array which in (a, cJSON_Delete (the_list item) h))"

definition cJSON_DetachItemFromObject :: "cJSON option \<Rightarrow> bytes option \<Rightarrow> cJSON option \<times> cJSON option" where
  "cJSON_DetachItemFromObject object str =
     cJSON_DetachItemViaPointer object (get_object_item object str False)"

definition cJSON_DetachItemFromObjectCaseSensitive ::
  "cJSON option \<Rightarrow> bytes option \<Rightarrow> cJSON option \<times> cJSON option" where
  "cJSON_DetachItemFromObjectCaseSensitive object str =
     cJSON_DetachItemViaPointer object (get_object_item object str True)"

definition cJSON_DeleteItemFromObject :: "cJSON option \<Rightarrow> bytes option \<Rightarrow> heap \<Rightarrow> cJSON option \<times> heap" where
  "cJSON_DeleteItemFromObject object str h =
     (let (item, ob) = cJSON_DetachItemFromObject object str in (ob, cJSON_Delete (the_list item) h))"

definition cJSON_DeleteItemFromObjectCaseSensitive ::
  "cJSON option \<Rightarrow> bytes option \<Rightarrow> heap \<Rightarrow> cJSON option \<times> heap" where
  "cJSON_DeleteItemFromObjectCaseSensitive object str h =
     (let (item, ob) = cJSON_DetachItemFromObjectCaseSensitive object str
      in (ob, cJSON_Delete (the_list item) h))"

text \<open>\<open>None\<close>: a \<open>NULL\<close> item is dereferenced.\<close>

definition cJSON_InsertItemInArray ::
  "cJSON option \<Rightarrow> int \<Rightarrow> cJSON option \<Rightarrow> (bool \<times> cJSON option) option" where
  "cJSON_InsertItemInArray array which newitem =
     (if which < 0 then Some (False, array)
      else case (array, get_array_item array (nat which)) of
        (Some a, Some i) \<Rightarrow>
          do { n \<leftarrow> newitem;
               Some (True, Some (set_child (take i (c_child a) @ n # drop i (c_child a)) a)) }
      | _ \<Rightarrow> Some (add_item_to_array array newitem))"

definition cJSON_ReplaceItemViaPointer ::
  "cJSON option \<Rightarrow> nat option \<Rightarrow> cJSON option \<Rightarrow> heap \<Rightarrow> bool \<times> cJSON option \<times> heap" where
  "cJSON_ReplaceItemViaPointer parent item replacement h =
     (case (parent, item, replacement) of
        (Some p, Some i, Some r) \<Rightarrow>
          (True, Some (set_child ((c_child p)[i := r]) p), cJSON_Delete [c_child p ! i] h)
      | _ \<Rightarrow> (False, parent, h))"

definition cJSON_ReplaceItemInArray ::
  "cJSON option \<Rightarrow> int \<Rightarrow> cJSON option \<Rightarrow> heap \<Rightarrow> bool \<times> cJSON option \<times> heap" where
  "cJSON_ReplaceItemInArray array which newitem h =
     (if which < 0 then (False, array, h)
      else cJSON_ReplaceItemViaPointer array (get_array_item array (nat which)) newitem h)"

text \<open>The replacement is renamed first; it is returned because a failure leaves it renamed.\<close>

definition replace_item_in_object ::
  "cJSON option \<Rightarrow> bytes option \<Rightarrow> cJSON option \<Rightarrow> bool \<Rightarrow> heap \<Rightarrow>
     bool \<times> cJSON option \<times> cJSON option \<times> heap" where
  "replace_item_in_object object str replacement case_sensitive h =
     (case (str, replacement) of
        (Some k, Some r) \<Rightarrow>
          let h = (if \<not> string_is_const r \<and> c_string r \<noteq> None then deallocate h else h);
              (copy, h) = cJSON_strdup (Some k) h;
              r = set_string copy r
          in if copy = None then (False, object, Some r, h)
             else let r = set_type (c_type r AND NOT cJSON_StringIsConst) r;
                      (ok, ob, h) = cJSON_ReplaceItemViaPointer object
                        (get_object_item object str case_sensitive) (Some r) h
                  in (ok, ob, Some r, h)
      | _ \<Rightarrow> (False, object, replacement, h))"

definition cJSON_ReplaceItemInObject where
  "cJSON_ReplaceItemInObject object str newitem h = replace_item_in_object object str newitem False h"
definition cJSON_ReplaceItemInObjectCaseSensitive where
  "cJSON_ReplaceItemInObjectCaseSensitive object str newitem h =
     replace_item_in_object object str newitem True h"

subsection \<open>Duplication\<close>

text \<open>
  \<open>dup_children\<close> is the loop over the children: whether it got to the end, and the copies
  made so far.
\<close>

fun cJSON_Duplicate :: "cJSON \<Rightarrow> bool \<Rightarrow> heap \<Rightarrow> cJSON option \<times> heap"
  and dup_children :: "cJSON list \<Rightarrow> heap \<Rightarrow> bool \<times> cJSON list \<times> heap" where
  "cJSON_Duplicate (Item t vs vi vd s ch) recurse h =
     (let (node, h) = cJSON_New_Item h
      in if node = None then (None, h)
         else
           let t' = t AND NOT cJSON_IsReference;
               (vs', h) = cJSON_strdup vs h
           in if vs \<noteq> None \<and> vs' = None then (None, cJSON_Delete [Item t' None vi vd None []] h)
              else
                let (s', h) = (if t AND cJSON_StringIsConst \<noteq> 0 then (s, h) else cJSON_strdup s h)
                in if s \<noteq> None \<and> s' = None then (None, cJSON_Delete [Item t' vs' vi vd None []] h)
                   else if \<not> recurse then (Some (Item t' vs' vi vd s' []), h)
                   else
                     let (ok, ch', h) = dup_children ch h; copy = Item t' vs' vi vd s' ch'
                     in if ok then (Some copy, h) else (None, cJSON_Delete [copy] h))"
| "dup_children [] h = (True, [], h)"
| "dup_children (c # cs) h =
     (let (c', h) = cJSON_Duplicate c True h
      in case c' of
           None \<Rightarrow> (False, [], h)
         | Some d \<Rightarrow> let (ok, ds, h) = dup_children cs h in (ok, d # ds, h))"

subsection \<open>Comparison\<close>

lemma object_walk_bound: "object_walk cs name i es = Some j \<Longrightarrow> i \<le> j \<and> j < i + length es"
  by (induction es arbitrary: i) (fastforce split: if_splits option.splits)+

lemma get_object_item_bound:
  "get_object_item (Some b) name cs = Some j \<Longrightarrow> j < length (c_child b)"
  using object_walk_bound [of cs _ 0 "c_child b" j]
  by (auto simp: get_object_item_def split: option.splits)

lemma size_child_less: "j < length (c_child b) \<Longrightarrow> size (c_child b ! j) < size b"
  by (cases b) (auto dest: size_list_estimation' [where f = size, OF nth_mem, OF _ order_refl])

lemma size_children_less: "size_list size (c_child b) < size b"
  by (cases b) auto

definition comparable :: "int \<Rightarrow> bool" where
  "comparable k \<longleftrightarrow> k \<in> {cJSON_False, cJSON_True, cJSON_NULL, cJSON_Number, cJSON_String,
     cJSON_Raw, cJSON_Array, cJSON_Object}"

text \<open>
  \<open>compare_elements\<close> is the loop over the elements of two arrays, \<open>compare_members\<close> the one
  that looks every member of an object up in another.
\<close>

function compare_items :: "bool \<Rightarrow> cJSON \<Rightarrow> cJSON \<Rightarrow> bool"
  and compare_elements :: "bool \<Rightarrow> cJSON list \<Rightarrow> cJSON list \<Rightarrow> bool"
  and compare_members :: "bool \<Rightarrow> cJSON list \<Rightarrow> cJSON \<Rightarrow> bool" where
  "compare_items cs a b =
     (if kind a \<noteq> kind b \<or> \<not> comparable (kind a) then False
      else if kind a \<in> {cJSON_False, cJSON_True, cJSON_NULL} then True
      else if kind a = cJSON_Number then compare_double (c_valuedouble a) (c_valuedouble b)
      else if kind a = cJSON_String \<or> kind a = cJSON_Raw then
        c_valuestring a \<noteq> None \<and> c_valuestring b \<noteq> None \<and> c_valuestring a = c_valuestring b
      else if kind a = cJSON_Array then compare_elements cs (c_child a) (c_child b)
      else compare_members cs (c_child a) b \<and> compare_members cs (c_child b) a)"
| "compare_elements cs [] [] = True"
| "compare_elements cs (a # as) [] = False"
| "compare_elements cs [] (b # bs) = False"
| "compare_elements cs (a # as) (b # bs) = (compare_items cs a b \<and> compare_elements cs as bs)"
| "compare_members cs [] b = True"
| "compare_members cs (a # as) b =
     (case get_object_item (Some b) (c_string a) cs of
        None \<Rightarrow> False
      | Some i \<Rightarrow> compare_items cs a (c_child b ! i) \<and> compare_members cs as b)"
  by pat_completeness auto
termination
  by (relation "measure (case_sum (\<lambda>(cs, a, b). size a + size b)
        (case_sum (\<lambda>(cs, as, bs). size_list size as + size_list size bs)
                  (\<lambda>(cs, as, b). size_list size as + size b)))")
    (use size_children_less in \<open>auto simp: less_Suc_eq_le add.commute
       dest!: get_object_item_bound size_child_less intro: add_mono less_imp_le add_less_le_mono\<close>)

declare compare_items.simps [simp del]

definition cJSON_Compare :: "cJSON option \<Rightarrow> cJSON option \<Rightarrow> bool \<Rightarrow> bool" where
  "cJSON_Compare a b case_sensitive =
     (case (a, b) of (Some x, Some y) \<Rightarrow> compare_items case_sensitive x y | _ \<Rightarrow> False)"

subsection \<open>Minification\<close>

fun oneline_rest :: "bytes \<Rightarrow> bytes" where
  "oneline_rest [] = []"
| "oneline_rest (c # r) = (if c = 10 then r else oneline_rest r)"

definition skip_oneline_comment :: "bytes \<Rightarrow> bytes" where
  "skip_oneline_comment input = oneline_rest (drop 2 input)"

fun multiline_rest :: "bytes \<Rightarrow> bytes" where
  "multiline_rest [] = []"
| "multiline_rest (c # r) =
     (if c = 42 \<and> r \<noteq> [] \<and> hd r = 47 then tl r else multiline_rest r)"

definition skip_multiline_comment :: "bytes \<Rightarrow> bytes" where
  "skip_multiline_comment input = multiline_rest (drop 2 input)"

text \<open>The text copied to the output, and the rest of the input.\<close>

fun minify_chars :: "bytes \<Rightarrow> bytes \<times> bytes" where
  "minify_chars [] = ([], [])"
| "minify_chars (c # r) =
     (if c = 34 then ([34], r)
      else if c = 92 \<and> r \<noteq> [] \<and> hd r = 34 then
        (let (out, rest) = minify_chars (tl r) in (c # 34 # out, rest))
      else (let (out, rest) = minify_chars r in (c # out, rest)))"

definition minify_string :: "bytes \<Rightarrow> bytes \<times> bytes" where
  "minify_string input = (let (out, rest) = minify_chars (tl input) in (hd input # out, rest))"

lemma length_oneline_rest: "length (oneline_rest s) \<le> length s"
  by (induction s) auto

lemma length_multiline_rest: "length (multiline_rest s) \<le> length s"
  by (induction s) auto

lemma length_minify_chars: "length (snd (minify_chars s)) \<le> length s"
  by (induction s rule: minify_chars.induct) (auto simp: case_prod_beta Let_def)

function minify :: "bytes \<Rightarrow> bytes" where
  "minify [] = []"
| "minify (c # r) =
     (if c \<in> {32, 9, 13, 10} then minify r
      else if c = 47 then
        (if r \<noteq> [] \<and> hd r = 47 then minify (skip_oneline_comment (c # r))
         else if r \<noteq> [] \<and> hd r = 42 then minify (skip_multiline_comment (c # r))
         else minify r)
      else if c = 34 then
        (let (out, rest) = minify_string (c # r) in out @ minify rest)
      else c # minify r)"
  by pat_completeness auto
termination
proof (relation "measure length", goal_cases)
  case (3 c r)
  then show ?case
    using length_oneline_rest [of "drop 1 r"] by (cases r) (auto simp: skip_oneline_comment_def)
next
  case (4 c r)
  then show ?case
    using length_multiline_rest [of "drop 1 r"] by (cases r) (auto simp: skip_multiline_comment_def)
next
  case (6 c r out rest)
  then show ?case
    using length_minify_chars [of r] by (auto simp: minify_string_def case_prod_beta Let_def)
qed auto

definition cJSON_Minify :: "bytes option \<Rightarrow> bytes option" where
  "cJSON_Minify json = map_option minify json"

end
