(* ===== verification/Cjson_Parse.thy ===== *)
theory Cjson_Parse
  imports Cjson
begin

text \<open>
  The recursive-descent parser of \<open>cjson.c\<close>. The parse buffer is a record whose \<open>content\<close>
  is exactly the memory the caller handed in, so that the C field \<open>length\<close> is its length;
  a read at or behind the end and a write behind the end of an output block are \<open>None\<close>. The
  nesting limit bounds the recursion: \<open>parse_value\<close> recurses on the number of levels left,
  and the loops over elements and members take the parser of the next level as an argument.
\<close>

record parse_buffer =
  content :: bytes
  offset :: nat
  depth :: nat
  pheap :: heap

definition CJSON_NESTING_LIMIT :: nat where "CJSON_NESTING_LIMIT = 1000"

definition can_read :: "parse_buffer \<Rightarrow> nat \<Rightarrow> bool" where
  "can_read b n \<longleftrightarrow> offset b + n \<le> length (content b)"

text \<open>The byte at an index relative to the offset.\<close>

definition char_at :: "parse_buffer \<Rightarrow> nat \<Rightarrow> byte option" where
  "char_at b i = (if offset b + i < length (content b) then Some (content b ! (offset b + i)) else None)"

definition can_access :: "parse_buffer \<Rightarrow> nat \<Rightarrow> bool" where
  "can_access b i \<longleftrightarrow> offset b + i < length (content b)"

definition looking_at :: "string \<Rightarrow> parse_buffer \<Rightarrow> bool" where
  "looking_at s b \<longleftrightarrow> can_read b (length s) \<and> take (length s) (drop (offset b) (content b)) = lit s"

abbreviation skip :: "nat \<Rightarrow> parse_buffer \<Rightarrow> parse_buffer" where
  "skip n b \<equiv> b\<lparr>offset := offset b + n\<rparr>"

type_synonym 'r parse = "parse_buffer \<Rightarrow> ('r \<times> parse_buffer) option"

subsection \<open>Numbers\<close>

definition number_char :: "byte \<Rightarrow> bool" where
  "number_char c \<longleftrightarrow> is_digit c \<or> c \<in> {43, 45, 101, 69, 46}"

definition parse_number :: "cJSON \<Rightarrow> (bool \<times> cJSON) parse" where
  "parse_number item b =
     (let number_c_string = takeWhile number_char (take 63 (drop (offset b) (content b)));
          (number, n) = strtod number_c_string
      in if n = 0 then Some ((False, item), b)
         else do { v \<leftarrow> saturate number;
                   Some ((True, set_type cJSON_Number (set_number v number item)), skip n b) })"

subsection \<open>Strings\<close>

fun hex_digit_value :: "byte \<Rightarrow> uint32 option" where
  "hex_digit_value c =
     (if 48 \<le> c \<and> c \<le> 57 then Some (ucast c - 48)
      else if 65 \<le> c \<and> c \<le> 70 then Some (10 + ucast c - 65)
      else if 97 \<le> c \<and> c \<le> 102 then Some (10 + ucast c - 97)
      else None)"

fun hex4_digits :: "nat \<Rightarrow> uint32 \<Rightarrow> bytes \<Rightarrow> uint32" where
  "hex4_digits i h [] = h"
| "hex4_digits i h (c # cs) =
     (case hex_digit_value c of
        None \<Rightarrow> 0
      | Some d \<Rightarrow> hex4_digits (i + 1) (if i < 3 then push_bit 4 (h + d) else h + d) cs)"

definition parse_hex4 :: "bytes \<Rightarrow> uint32" where
  "parse_hex4 input = hex4_digits 0 0 input"

definition mem4 :: "bytes \<Rightarrow> nat \<Rightarrow> bytes option" where
  "mem4 m i = (if i + 4 \<le> length m then Some (take 4 (drop i m)) else None)"

fun utf8_tail :: "nat \<Rightarrow> uint64 \<Rightarrow> bytes \<Rightarrow> uint64 \<times> bytes" where
  "utf8_tail 0 codepoint out = (codepoint, out)"
| "utf8_tail (Suc n) codepoint out =
     utf8_tail n (drop_bit 6 codepoint) (ucast ((codepoint OR 0x80) AND 0xBF) # out)"

definition utf8_encode :: "uint64 \<Rightarrow> bytes option" where
  "utf8_encode codepoint =
     (let build = (\<lambda>n (mark :: uint64). let (c, out) = utf8_tail (n - 1) codepoint []
                  in Some (ucast ((c OR mark) AND 0xFF) # out))
      in if codepoint < 0x80 then Some [ucast (codepoint AND 0x7F)]
         else if codepoint < 0x800 then build 2 0xC0
         else if codepoint < 0x10000 then build 3 0xE0
         else if codepoint \<le> 0x10FFFF then build 4 0xF0
         else None)"

text \<open>
  The result of the conversion: the length of the sequence (0 for failure), and the bytes
  written to the output.
\<close>

definition put_literal :: "nat \<Rightarrow> uint64 \<Rightarrow> nat \<times> bytes" where
  "put_literal sequence_length codepoint =
     (case utf8_encode codepoint of None \<Rightarrow> (0, []) | Some bs \<Rightarrow> (sequence_length, bs))"

definition surrogate_pair :: "bytes \<Rightarrow> nat \<Rightarrow> nat \<Rightarrow> uint32 \<Rightarrow> (nat \<times> bytes) option" where
  "surrogate_pair m second_sequence input_end first_code =
     (if input_end < second_sequence + 6 then Some (0, [])
      else if length m \<le> second_sequence + 1 then None
      else if m ! second_sequence \<noteq> 92 \<or> m ! (second_sequence + 1) \<noteq> 117 then Some (0, [])
      else case mem4 m (second_sequence + 2) of
        None \<Rightarrow> None
      | Some digits \<Rightarrow>
          let second_code = parse_hex4 digits in
          if second_code < 0xDC00 \<or> 0xDFFF < second_code then Some (0, [])
          else Some (put_literal 12 (0x10000 +
                 ucast (push_bit 10 (first_code AND 0x3FF) OR (second_code AND 0x3FF)))))"

definition utf16_literal_to_utf8 :: "bytes \<Rightarrow> nat \<Rightarrow> nat \<Rightarrow> (nat \<times> bytes) option" where
  "utf16_literal_to_utf8 m input_pointer input_end =
     (if input_end < input_pointer + 6 then Some (0, [])
      else case mem4 m (input_pointer + 2) of
        None \<Rightarrow> None
      | Some digits \<Rightarrow>
          let first_code = parse_hex4 digits in
          if 0xDC00 \<le> first_code \<and> first_code \<le> 0xDFFF then Some (0, [])
          else if 0xD800 \<le> first_code \<and> first_code \<le> 0xDBFF then
            surrogate_pair m (input_pointer + 6) input_end first_code
          else Some (put_literal 6 (ucast first_code)))"

text \<open>
  The first loop of \<open>parse_string\<close>: the position of the closing quote and the number of
  bytes that escapes save, or \<open>None\<close> when the string does not end.
\<close>

fun scan_string :: "bytes \<Rightarrow> nat \<Rightarrow> nat \<Rightarrow> (nat \<times> nat) option" where
  "scan_string [] input_end skipped = None"
| "scan_string (c # r) input_end skipped =
     (if c = 34 then Some (input_end, skipped)
      else if c = 92 then
        (case r of [] \<Rightarrow> None | _ # r' \<Rightarrow> scan_string r' (input_end + 2) (skipped + 1))
      else scan_string r (input_end + 1) skipped)"

definition escape_char :: "byte \<Rightarrow> byte option" where
  "escape_char c =
     (if c = 98 then Some 8 else if c = 102 then Some 12 else if c = 110 then Some 10
      else if c = 114 then Some 13 else if c = 116 then Some 9
      else if c = 34 \<or> c = 92 \<or> c = 47 then Some c else None)"

text \<open>One round of the second loop: the sequence length (0 for failure) and its output.\<close>

definition unescape :: "bytes \<Rightarrow> nat \<Rightarrow> nat \<Rightarrow> (nat \<times> bytes) option" where
  "unescape m input_pointer input_end =
     (if length m \<le> input_pointer then None
      else if m ! input_pointer \<noteq> 92 then Some (1, [m ! input_pointer])
      else if length m \<le> input_pointer + 1 then None
      else if m ! (input_pointer + 1) = 117 then utf16_literal_to_utf8 m input_pointer input_end
      else (case escape_char (m ! (input_pointer + 1)) of
              None \<Rightarrow> Some (0, []) | Some c \<Rightarrow> Some (2, [c])))"

text \<open>
  The second loop, on an output block of \<open>cap\<close> bytes: whether it succeeded, where it stopped,
  and the output.
\<close>

function decode_loop :: "bytes \<Rightarrow> nat \<Rightarrow> nat \<Rightarrow> nat \<Rightarrow> bytes \<Rightarrow> (bool \<times> nat \<times> bytes) option" where
  "decode_loop m input_end cap input_pointer out =
     (if input_pointer < input_end then
        (case unescape m input_pointer input_end of
           None \<Rightarrow> None
         | Some (n, bs) \<Rightarrow>
             if n = 0 then Some (False, input_pointer, out)
             else if cap < length out + length bs then None
             else decode_loop m input_end cap (input_pointer + n) (out @ bs))
      else Some (True, input_pointer, out))"
  by pat_completeness auto
termination by (relation "measure (\<lambda>(m, e, cap, p, out). e - p)") auto

declare decode_loop.simps [simp del]

text \<open>What C code sees of a block: the bytes before the first NUL.\<close>

definition cstr :: "bytes \<Rightarrow> bytes" where "cstr bs = takeWhile (\<lambda>c. c \<noteq> 0) bs"

definition parse_string :: "cJSON \<Rightarrow> (bool \<times> cJSON) parse" where
  "parse_string item b =
     do { c \<leftarrow> char_at b 0;
          if c \<noteq> 34 then Some ((False, item), skip 1 b)
          else (case scan_string (drop (offset b + 1) (content b)) (offset b + 1) 0 of
            None \<Rightarrow> Some ((False, item), skip 1 b)
          | Some (input_end, skipped) \<Rightarrow>
              let allocation_length = input_end - offset b - skipped;
                  (ok, h) = allocate (pheap b); b = b\<lparr>pheap := h\<rparr>
              in if \<not> ok then Some ((False, item), skip 1 b)
                 else do {
                   (done, ip, output) \<leftarrow>
                     decode_loop (content b) input_end (allocation_length + 1) (offset b + 1) [];
                   if \<not> done then
                     Some ((False, item), b\<lparr>pheap := deallocate (pheap b), offset := ip\<rparr>)
                   else if allocation_length + 1 \<le> length output then None
                   else Some ((True, set_type cJSON_String (set_valuestring (Some (cstr output)) item)),
                              b\<lparr>offset := input_end + 1\<rparr>) }) }"

subsection \<open>White space\<close>

definition space_prefix :: "bytes \<Rightarrow> nat" where
  "space_prefix bs = length (takeWhile (\<lambda>c. c \<le> 32) bs)"

definition buffer_skip_whitespace :: "parse_buffer \<Rightarrow> parse_buffer" where
  "buffer_skip_whitespace b =
     (if \<not> can_access b 0 then b
      else let b = skip (space_prefix (drop (offset b) (content b))) b
           in if offset b = length (content b) then b\<lparr>offset := offset b - 1\<rparr> else b)"

definition skip_utf8_bom :: "parse_buffer \<Rightarrow> parse_buffer option" where
  "skip_utf8_bom b =
     (if offset b \<noteq> 0 then None
      else if can_access b 4 \<and> take 3 (drop (offset b) (content b)) = [0xEF, 0xBB, 0xBF]
        then Some (skip 3 b) else Some b)"

subsection \<open>Values\<close>

text \<open>
  The loop of \<open>parse_array\<close>: whether every element was parsed, and the chain of items, the
  one under construction included.
\<close>

partial_function (option) array_loop ::
  "(cJSON \<Rightarrow> (bool \<times> cJSON) parse) \<Rightarrow> cJSON list \<Rightarrow> (bool \<times> cJSON list) parse" where
  "array_loop pv items b =
     (let (node, h) = cJSON_New_Item (pheap b); b = b\<lparr>pheap := h\<rparr>
      in case node of
           None \<Rightarrow> Some ((False, items), b)
         | Some item \<Rightarrow>
             do { ((ok, current_item), b) \<leftarrow> pv item (buffer_skip_whitespace (skip 1 b));
                  if \<not> ok then Some ((False, items @ [current_item]), b)
                  else let b = buffer_skip_whitespace b
                    in if char_at b 0 = Some 44 then array_loop pv (items @ [current_item]) b
                       else Some ((True, items @ [current_item]), b) })"

text \<open>
  Whether a container is left successfully: its closing bracket is there. The chain is
  attached to the item, or deleted.
\<close>

definition close_container ::
  "int \<Rightarrow> byte \<Rightarrow> cJSON \<Rightarrow> bool \<times> cJSON list \<Rightarrow> (bool \<times> cJSON) parse" where
  "close_container t bracket item r b =
     (let (ok, head) = r
      in if \<not> ok \<or> char_at b 0 \<noteq> Some bracket then
           Some ((False, item), b\<lparr>pheap := cJSON_Delete head (pheap b)\<rparr>)
         else Some ((True, set_child head (set_type t item)),
                    b\<lparr>depth := depth b - 1, offset := offset b + 1\<rparr>))"

definition parse_array :: "(cJSON \<Rightarrow> (bool \<times> cJSON) parse) \<Rightarrow> cJSON \<Rightarrow> (bool \<times> cJSON) parse" where
  "parse_array pv item b =
     (if CJSON_NESTING_LIMIT \<le> depth b then Some ((False, item), b)
      else let b = b\<lparr>depth := depth b + 1\<rparr> in
        do { c \<leftarrow> char_at b 0;
             if c \<noteq> 91 then Some ((False, item), b)
             else let b = buffer_skip_whitespace (skip 1 b)
               in if char_at b 0 = Some 93 then close_container cJSON_Array 93 item (True, []) b
                  else if \<not> can_access b 0 then Some ((False, item), b\<lparr>offset := offset b - 1\<rparr>)
                  else do { (r, b) \<leftarrow> array_loop pv [] (b\<lparr>offset := offset b - 1\<rparr>);
                            close_container cJSON_Array 93 item r b } })"

text \<open>The loop of \<open>parse_object\<close>.\<close>

partial_function (option) object_loop ::
  "(cJSON \<Rightarrow> (bool \<times> cJSON) parse) \<Rightarrow> cJSON list \<Rightarrow> (bool \<times> cJSON list) parse" where
  "object_loop pv items b =
     (let (node, h) = cJSON_New_Item (pheap b); b = b\<lparr>pheap := h\<rparr>
      in case node of
           None \<Rightarrow> Some ((False, items), b)
         | Some item \<Rightarrow>
             do { ((ok, current_item), b) \<leftarrow> parse_string item (buffer_skip_whitespace (skip 1 b));
                  if \<not> ok then Some ((False, items @ [current_item]), b)
                  else
                    let b = buffer_skip_whitespace b;
                        current_item =
                          set_valuestring None (set_string (c_valuestring current_item) current_item)
                    in if char_at b 0 \<noteq> Some 58 then Some ((False, items @ [current_item]), b)
                       else do {
                         ((ok, current_item), b) \<leftarrow> pv current_item (buffer_skip_whitespace (skip 1 b));
                         if \<not> ok then Some ((False, items @ [current_item]), b)
                         else let b = buffer_skip_whitespace b
                           in if char_at b 0 = Some 44 then object_loop pv (items @ [current_item]) b
                              else Some ((True, items @ [current_item]), b) } })"

definition parse_object :: "(cJSON \<Rightarrow> (bool \<times> cJSON) parse) \<Rightarrow> cJSON \<Rightarrow> (bool \<times> cJSON) parse" where
  "parse_object pv item b =
     (if CJSON_NESTING_LIMIT \<le> depth b then Some ((False, item), b)
      else let b = b\<lparr>depth := depth b + 1\<rparr> in
        if char_at b 0 \<noteq> Some 123 then Some ((False, item), b)
        else let b = buffer_skip_whitespace (skip 1 b)
          in if char_at b 0 = Some 125 then close_container cJSON_Object 125 item (True, []) b
             else if \<not> can_access b 0 then Some ((False, item), b\<lparr>offset := offset b - 1\<rparr>)
             else do { (r, b) \<leftarrow> object_loop pv [] (b\<lparr>offset := offset b - 1\<rparr>);
                       close_container cJSON_Object 125 item r b })"

text \<open>
  The first argument is the number of levels that may still be entered. It is never 0 when
  it exceeds what the nesting limit leaves.
\<close>

primrec parse_value :: "nat \<Rightarrow> cJSON \<Rightarrow> (bool \<times> cJSON) parse" where
  "parse_value 0 item b = None"
| "parse_value (Suc n) item b =
     (if looking_at ''null'' b then Some ((True, set_type cJSON_NULL item), skip 4 b)
      else if looking_at ''false'' b then Some ((True, set_type cJSON_False item), skip 5 b)
      else if looking_at ''true'' b then
        Some ((True, set_type cJSON_True (set_number 1 (c_valuedouble item) item)), skip 4 b)
      else case char_at b 0 of
        None \<Rightarrow> Some ((False, item), b)
      | Some c \<Rightarrow>
          if c = 34 then parse_string item b
          else if c = 45 \<or> (48 \<le> c \<and> c \<le> 57) then parse_number item b
          else if c = 91 then parse_array (parse_value n) item b
          else if c = 123 then parse_object (parse_value n) item b
          else Some ((False, item), b))"

subsection \<open>Entry points\<close>

text \<open>
  \<open>pr_item\<close> is the returned item, \<open>pr_end\<close> what is stored through \<open>return_parse_end\<close> and
  \<open>pr_error\<close> the position in \<open>global_error\<close>, both relative to the text.
\<close>

record parse_result =
  pr_item :: "cJSON option"
  pr_end :: "nat option"
  pr_error :: "nat option"
  pr_heap :: heap

definition parse_failed :: "cJSON option \<Rightarrow> bytes \<Rightarrow> nat \<Rightarrow> heap \<Rightarrow> parse_result" where
  "parse_failed item m off h =
     (let position = (if off < length m then off else if 0 < length m then length m - 1 else 0)
      in \<lparr>pr_item = None, pr_end = Some position, pr_error = Some position,
          pr_heap = cJSON_Delete (the_list item) h\<rparr>)"

definition cJSON_ParseWithLengthOpts :: "bytes option \<Rightarrow> bool \<Rightarrow> heap \<Rightarrow> parse_result option" where
  "cJSON_ParseWithLengthOpts val require_null_terminated h =
     (case val of
        None \<Rightarrow> Some \<lparr>pr_item = None, pr_end = None, pr_error = None, pr_heap = h\<rparr>
      | Some m \<Rightarrow>
          if m = [] then Some (parse_failed None m 0 h)
          else
            let (item, h) = cJSON_New_Item h
            in case item of
                 None \<Rightarrow> Some (parse_failed None m 0 h)
               | Some item \<Rightarrow>
                   do { b \<leftarrow> skip_utf8_bom \<lparr>content = m, offset = 0, depth = 0, pheap = h\<rparr>;
                        ((ok, item), b) \<leftarrow>
                          parse_value (CJSON_NESTING_LIMIT + 1) item (buffer_skip_whitespace b);
                        if \<not> ok then Some (parse_failed (Some item) m (offset b) (pheap b))
                        else
                          let b = (if require_null_terminated then buffer_skip_whitespace b else b)
                          in if require_null_terminated \<and> char_at b 0 \<noteq> Some 0 then
                               Some (parse_failed (Some item) m (offset b) (pheap b))
                             else Some \<lparr>pr_item = Some item, pr_end = Some (offset b),
                                        pr_error = None, pr_heap = pheap b\<rparr> })"

definition cJSON_ParseWithOpts :: "bytes option \<Rightarrow> bool \<Rightarrow> heap \<Rightarrow> parse_result option" where
  "cJSON_ParseWithOpts val require_null_terminated h =
     (case val of
        None \<Rightarrow> Some \<lparr>pr_item = None, pr_end = None, pr_error = None, pr_heap = h\<rparr>
      | Some s \<Rightarrow> cJSON_ParseWithLengthOpts (Some (s @ [0])) require_null_terminated h)"

definition cJSON_Parse :: "bytes option \<Rightarrow> heap \<Rightarrow> parse_result option" where
  "cJSON_Parse val h = cJSON_ParseWithOpts val False h"

definition cJSON_ParseWithLength :: "bytes option \<Rightarrow> heap \<Rightarrow> parse_result option" where
  "cJSON_ParseWithLength val h = cJSON_ParseWithLengthOpts val False h"

text \<open>The text and the position of \<open>global_error\<close>; the pointer \<open>cJSON_GetErrorPtr\<close> returns.\<close>

definition cJSON_GetErrorPtr :: "bytes \<Rightarrow> nat option \<Rightarrow> bytes option" where
  "cJSON_GetErrorPtr m err = map_option (\<lambda>p. drop p m) err"

end
