(* ===== verification/Cjson_Parse_Safe.thy ===== *)
theory Cjson_Parse_Safe
  imports Cjson_Parse
begin

text \<open>
  Memory safety, termination and ownership of the JSON parser. On a text that ends with a
  NUL byte the parser reads only the text, writes only the blocks it allocated, returns for
  every input and every pattern of allocation failures, and leaves exactly the blocks of the
  returned item allocated.
\<close>

subsection \<open>Ownership\<close>

fun owned :: "cJSON list \<Rightarrow> int" where
  "owned [] = 0"
| "owned (Item t vs vi vd s ch # nxt) =
     (if t AND cJSON_IsReference \<noteq> 0 then 0 else owned ch + (if vs = None then 0 else 1)) +
     (if t AND cJSON_StringIsConst = 0 \<and> s \<noteq> None then 1 else 0) + 1 + owned nxt"

lemma cJSON_Delete_live [simp]: "h_live (cJSON_Delete is h) = h_live h - owned is"
  by (induction "is" h rule: cJSON_Delete.induct) (auto simp: Let_def deallocate_def)

lemma owned_append [simp]: "owned (xs @ ys) = owned xs + owned ys"
  by (induction xs rule: owned.induct) auto

lemma owned_Cons: "owned (i # is) = owned [i] + owned is"
  by (cases i) simp

text \<open>An item as the parser receives it: it may have a name, and nothing else.\<close>

definition fresh :: "cJSON \<Rightarrow> bool" where
  "fresh i \<longleftrightarrow> c_type i \<in> {cJSON_Invalid, cJSON_String} \<and> c_valuestring i = None \<and> c_child i = []"

lemma fresh_new_item [simp]: "fresh new_item"
  by (simp add: fresh_def new_item_def cJSON_types)

lemma owned_new_item [simp]: "owned [new_item] = 1"
  by (simp add: new_item_def cJSON_types)

lemma owned_simple:
  assumes "fresh i"
    and "t \<in> {cJSON_NULL, cJSON_False, cJSON_True, cJSON_Number, cJSON_String, cJSON_Array, cJSON_Object}"
  shows "owned [set_type t i] = owned [i]"
    and "owned [set_type t (set_number v d i)] = owned [i]"
    and "owned [set_type t (set_valuestring (Some s) i)] = owned [i] + 1"
    and "owned [set_child ch (set_type t i)] = owned [i] + owned ch"
  using assms by (cases i; auto simp: fresh_def cJSON_types)+

text \<open>The item whose name has just been parsed.\<close>

definition named :: "bytes \<Rightarrow> cJSON \<Rightarrow> cJSON" where
  "named s i = set_valuestring None (set_string (Some s) (set_type cJSON_String i))"

lemma named_key:
  "set_valuestring None (set_string (c_valuestring (set_type cJSON_String (set_valuestring (Some s) i)))
     (set_type cJSON_String (set_valuestring (Some s) i))) = named s i"
  by (cases i) (simp add: named_def)

lemma fresh_named [simp]: "fresh i \<Longrightarrow> fresh (named s i)"
  by (cases i) (auto simp: fresh_def named_def)

lemma owned_named [simp]: "owned [named s new_item] = 2"
  by (simp add: named_def new_item_def cJSON_types)

lemma cJSON_New_Item_cases:
  obtains h' where "cJSON_New_Item h = (None, h')" "h_live h' = h_live h"
  | h' where "cJSON_New_Item h = (Some new_item, h')" "h_live h' = h_live h + 1"
  by (cases "h_ok h (h_calls h)") (auto simp: cJSON_New_Item_def allocate_def Let_def)

subsection \<open>Output of the string decoder\<close>

lemma hex_digit_value_le: "hex_digit_value c = Some d \<Longrightarrow> unat d \<le> 15"
proof -
  assume a: "hex_digit_value c = Some d"
  have "d = ucast c - 48 \<and> 48 \<le> unat c \<and> unat c \<le> 57 \<or>
        d = 10 + ucast c - 65 \<and> 65 \<le> unat c \<and> unat c \<le> 70 \<or>
        d = 10 + ucast c - 97 \<and> 97 \<le> unat c \<and> unat c \<le> 102"
    using a by (auto simp: word_le_nat_alt split: if_splits)
  then obtain k where k: "d = of_nat k" "k \<le> 15"
  proof (elim disjE conjE, goal_cases)
    case 1
    then show ?case
      by (intro 1(1) [of "unat c - 48"]) (auto simp: of_nat_diff)
  next
    case 2
    then show ?case
      by (intro 2(1) [of "unat c - 55"]) (auto simp: of_nat_diff)
  next
    case 3
    then show ?case
      by (intro 3(1) [of "unat c - 87"]) (auto simp: of_nat_diff)
  qed
  then show ?thesis by (simp add: unat_of_nat take_bit_nat_eq_self)
qed

lemma unat_hex_step:
  fixes h d :: uint32
  assumes "unat h \<le> 65520" "unat d \<le> 15"
  shows "unat (h + d) \<le> unat h + 15"
    and "unat (push_bit 4 (h + d)) \<le> 16 * (unat h + 15)"
proof -
  have s: "unat (h + d) = unat h + unat d"
    using assms by (intro unat_add_no_wrap) simp
  then show "unat (h + d) \<le> unat h + 15" using assms by simp
  have "push_bit 4 (h + d) = (h + d) * 16" by (simp add: push_bit_eq_mult)
  moreover have "unat ((h + d) * 16) \<le> unat (h + d) * unat (16 :: uint32)"
    unfolding unat_word_ariths(2) by (rule mod_less_eq_dividend)
  ultimately show "unat (push_bit 4 (h + d)) \<le> 16 * (unat h + 15)" using s assms by simp
qed

lemma parse_hex4_less:
  assumes "length s = 4"
  shows "unat (parse_hex4 s) < 65536"
proof -
  obtain a b c d where s: "s = [a, b, c, d]"
    using assms by (auto simp: numeral_eq_Suc length_Suc_conv)
  have bound: "unat (push_bit 4 (push_bit 4 (push_bit 4 (0 + x) + y) + z) + w) < 65536"
    if "unat x \<le> 15" "unat y \<le> 15" "unat z \<le> 15" "unat w \<le> 15" for x y z w :: uint32
  proof -
    have le240: "(n :: nat) \<le> 65520" if "n \<le> 240" for n using that by simp
    have le4080: "(n :: nat) \<le> 65520" if "n \<le> 4080" for n using that by simp
    have le1: "(k :: nat) \<le> 16 * (n + 15) \<Longrightarrow> n \<le> 240 \<Longrightarrow> k \<le> 4080" for k n by simp
    have le2: "(k :: nat) \<le> 16 * (n + 15) \<Longrightarrow> n \<le> 4080 \<Longrightarrow> k \<le> 65520" for k n by simp
    have le3: "(k :: nat) \<le> n + 15 \<Longrightarrow> n \<le> 65520 \<Longrightarrow> k < 65536" for k n by simp
    have 1: "unat (push_bit 4 (0 + x)) \<le> 240"
      using unat_hex_step(2) [of 0 x] that by simp
    have 2: "unat (push_bit 4 (push_bit 4 (0 + x) + y)) \<le> 4080"
      by (rule le1 [OF unat_hex_step(2) [OF le240 [OF 1] that(2)] 1])
    have 3: "unat (push_bit 4 (push_bit 4 (push_bit 4 (0 + x) + y) + z)) \<le> 65520"
      by (rule le2 [OF unat_hex_step(2) [OF le4080 [OF 2] that(3)] 2])
    show ?thesis
      by (rule le3 [OF unat_hex_step(1) [OF 3 that(4)] 3])
  qed
  show ?thesis
    unfolding parse_hex4_def s
    using bound by (auto simp del: hex_digit_value.simps simp: hex_digit_value_le
        split: option.split)
qed

lemma length_utf8_tail: "length (snd (utf8_tail n c out)) = n + length out"
  by (induction n c out rule: utf8_tail.induct) auto

lemma length_utf8_encode:
  assumes "utf8_encode c = Some bs"
  shows "bs \<noteq> []" "length bs \<le> 4" "c < 0x10000 \<Longrightarrow> length bs \<le> 3"
  using assms length_utf8_tail [of _ c "[]"]
  by (auto simp: utf8_encode_def Let_def case_prod_beta split: if_splits)

lemma put_literal_cases:
  obtains "put_literal k c = (0, [])"
  | bs where "put_literal k c = (k, bs)" "length bs \<le> 4" "c < 0x10000 \<Longrightarrow> length bs \<le> 3"
  using length_utf8_encode [of c] by (cases "utf8_encode c") (auto simp: put_literal_def)

lemma mem4_Some: "i + 4 \<le> length m \<Longrightarrow> mem4 m i = Some (take 4 (drop i m))"
  by (simp add: mem4_def)

lemma surrogate_pair_safe:
  assumes "input_end < length m"
  obtains n bs where "surrogate_pair m p input_end fc = Some (n, bs)"
    "n = 0 \<or> n = 12 \<and> p + 6 \<le> input_end \<and> length bs \<le> 4"
proof (cases "input_end < p + 6")
  case True
  then show ?thesis by (intro that [of 0 "[]"]) (auto simp: surrogate_pair_def)
next
  case False
  then have m: "mem4 m (p + 2) = Some (take 4 (drop (p + 2) m))" "\<not> length m \<le> p + 1"
    using assms by (simp_all add: mem4_Some)
  define sc where "sc = parse_hex4 (take 4 (drop (p + 2) m))"
  have eq: "surrogate_pair m p input_end fc =
      (if m ! p \<noteq> 92 \<or> m ! (p + 1) \<noteq> 117 \<or> sc < 0xDC00 \<or> 0xDFFF < sc then Some (0, [])
       else Some (put_literal 12 (0x10000 + ucast (push_bit 10 (fc AND 0x3FF) OR (sc AND 0x3FF)))))"
    unfolding surrogate_pair_def m option.case Let_def sc_def [symmetric] using False m(2) by simp
  show ?thesis
  proof (cases rule: put_literal_cases
      [of 12 "0x10000 + ucast (push_bit 10 (fc AND 0x3FF) OR (sc AND 0x3FF))"])
    case 1
    show ?thesis by (rule that [of 0 "[]"]) (simp_all only: eq 1 if_cancel simp_thms)
  next
    case (2 bs)
    then have "surrogate_pair m p input_end fc \<in> {Some (0, []), Some (12, bs)}"
      unfolding eq 2(1) by simp
    then show ?thesis using False 2(2) that [of 0 "[]"] that [of 12 bs] by auto
  qed
qed

lemma utf16_literal_to_utf8_safe:
  assumes e: "input_end < length m"
  obtains n bs where "utf16_literal_to_utf8 m p input_end = Some (n, bs)"
    "n = 0 \<or> n = 6 \<and> length bs \<le> 3 \<or> n = 12 \<and> length bs \<le> 4"
    "n = 0 \<or> p + n \<le> input_end"
proof (cases "input_end < p + 6")
  case True
  then show ?thesis by (intro that [of 0 "[]"]) (simp_all add: utf16_literal_to_utf8_def)
next
  case False
  define fc where "fc = parse_hex4 (take 4 (drop (p + 2) m))"
  have m: "mem4 m (p + 2) = Some (take 4 (drop (p + 2) m))"
    using False e by (simp add: mem4_Some)
  have "unat fc < 65536" unfolding fc_def by (rule parse_hex4_less) (use False e in simp)
  then have fc: "(ucast fc :: uint64) < 0x10000" by (simp add: word_less_nat_alt)
  have eq: "utf16_literal_to_utf8 m p input_end =
      (if 0xDC00 \<le> fc \<and> fc \<le> 0xDFFF then Some (0, [])
       else if 0xD800 \<le> fc \<and> fc \<le> 0xDBFF then surrogate_pair m (p + 6) input_end fc
       else Some (put_literal 6 (ucast fc)))"
    unfolding utf16_literal_to_utf8_def m option.case Let_def fc_def [symmetric] using False by simp
  consider "utf16_literal_to_utf8 m p input_end = Some (0, [])"
    | "utf16_literal_to_utf8 m p input_end = surrogate_pair m (p + 6) input_end fc"
    | "utf16_literal_to_utf8 m p input_end = Some (put_literal 6 (ucast fc))"
    unfolding eq by presburger
  then show ?thesis
  proof cases
    case 1
    then show ?thesis by (intro that [of 0 "[]"]) simp_all
  next
    case 2
    obtain n bs where "surrogate_pair m (p + 6) input_end fc = Some (n, bs)"
      "n = 0 \<or> n = 12 \<and> p + 6 + 6 \<le> input_end \<and> length bs \<le> 4"
      by (rule surrogate_pair_safe [OF e])
    then show ?thesis using 2 by (intro that [of n bs]) auto
  next
    case 3
    then show ?thesis
      using False fc that [of 0 "[]"] that [of 6] by (cases rule: put_literal_cases [of 6 "ucast fc"]) auto
  qed
qed

subsection \<open>Room for the decoded string\<close>

text \<open>
  The scan pairs each backslash with the byte behind it; \<open>skips f r\<close> counts the pairs of the
  rest \<open>r\<close>, where \<open>f\<close> is false when \<open>r\<close> starts with the second half of a pair, and
  \<open>paired f r\<close> says that no pair is cut off.
\<close>

fun skips :: "bool \<Rightarrow> bytes \<Rightarrow> nat" where
  "skips f [] = 0"
| "skips f (c # r) = (if f \<and> c = 92 then 1 + skips False r else skips True r)"

fun paired :: "bool \<Rightarrow> bytes \<Rightarrow> bool" where
  "paired f [] = f"
| "paired f (c # r) = paired (\<not> (f \<and> c = 92)) r"

lemma skips_drop:
  "n \<le> length r \<Longrightarrow> paired f r \<Longrightarrow>
     \<exists>f'. paired f' (drop n r) \<and> skips f r \<le> skips f' (drop n r) + (n + (if f then 1 else 0)) div 2"
proof (induction r arbitrary: n f)
  case (Cons c r)
  show ?case
  proof (cases n)
    case (Suc k)
    define g where "g = (\<not> (f \<and> c = 92))"
    have "k \<le> length r" "paired g r" using Cons.prems Suc by (simp_all add: g_def)
    from Cons.IH [OF this] obtain f' where f': "paired f' (drop k r)"
      "skips g r \<le> skips f' (drop k r) + (k + (if g then 1 else 0)) div 2" by blast
    have "(if g then 0 else 1) + (k + (if g then 1 else 0)) div 2 \<le> (Suc k + (if f then 1 else 0)) div 2"
      by (auto simp: g_def)
    moreover have "skips f (c # r) = (if g then 0 else 1) + skips g r"
      by (auto simp: g_def)
    ultimately have "skips f (c # r) \<le> skips f' (drop k r) + (Suc k + (if f then 1 else 0)) div 2"
      using f'(2) by linarith
    then show ?thesis unfolding Suc drop_Suc_Cons using f'(1) by blast
  next
    case 0
    show ?thesis unfolding 0 drop_0 using Cons.prems(2) by (intro exI [of _ f] conjI) simp_all
  qed
next
  case Nil
  then show ?case by (intro exI [of _ f]) simp
qed

lemma skips_le: "2 * skips f r \<le> length r + (if f then 1 else 0)"
proof (induction r arbitrary: f)
  case (Cons c r)
  show ?case using Cons.IH [of True] Cons.IH [of False] by (cases f) auto
qed simp

lemma skips_less: "skips f r \<le> length r"
  using skips_le [of f r] by (cases r; cases f) auto

text \<open>One round of the decoder takes as much room as the scan counted for it.\<close>

lemma unescape_safe:
  assumes e: "input_end < length m" and p: "ip < input_end"
    and r: "r = take (input_end - ip) (drop ip m)" and pr: "paired f r"
  obtains n bs where "unescape m ip input_end = Some (n, bs)"
    "n = 0 \<or> input_end < ip + n \<and> length bs + skips f r \<le> length r \<or>
     ip + n \<le> input_end \<and> (\<exists>f'. paired f' (drop n r) \<and> length bs + skips f r \<le> n + skips f' (drop n r))"
proof -
  have len: "length r = input_end - ip" using e r by simp
  have r0: "r ! 0 = m ! ip" using e p r by simp
  obtain c r' where rc: "r = c # r'" using len p by (cases r) auto
  have c: "c = m ! ip" using r0 rc by simp
  have window: "\<exists>f'. paired f' (drop n r) \<and> k + skips f r \<le> n + skips f' (drop n r)"
    if w: "n \<le> length r" "k + (n + 1) div 2 \<le> n" for n k
  proof -
    obtain f' where f': "paired f' (drop n r)"
      "skips f r \<le> skips f' (drop n r) + (n + (if f then 1 else 0)) div 2"
      using skips_drop [OF w(1) pr] by blast
    have "(n + (if f then 1 else 0)) div 2 \<le> (n + 1) div 2" by (rule div_le_mono) simp
    then show ?thesis using f' w(2) by (intro exI [of _ f']) linarith
  qed
  consider (plain) "m ! ip \<noteq> 92" | (uni) "m ! ip = 92" "m ! (ip + 1) = 117"
    | (esc) "m ! ip = 92" "m ! (ip + 1) \<noteq> 117" by blast
  then show ?thesis
  proof cases
    case plain
    then have "paired True (drop 1 r)" "skips f r = skips True (drop 1 r)"
      using pr rc c by auto
    then have "\<exists>f'. paired f' (drop 1 r) \<and> length [m ! ip] + skips f r \<le> 1 + skips f' (drop 1 r)"
      by (intro exI [of _ True]) simp
    moreover have "unescape m ip input_end = Some (1, [m ! ip])"
      using plain e p by (simp add: unescape_def)
    ultimately show ?thesis using p by (intro that [of 1 "[m ! ip]"]) auto
  next
    case uni
    obtain n bs where u: "utf16_literal_to_utf8 m ip input_end = Some (n, bs)"
      "n = 0 \<or> n = 6 \<and> length bs \<le> 3 \<or> n = 12 \<and> length bs \<le> 4" "n = 0 \<or> ip + n \<le> input_end"
      by (rule utf16_literal_to_utf8_safe [OF e, of ip])
    have "unescape m ip input_end = Some (n, bs)"
      using u(1) uni e p by (auto simp: unescape_def)
    moreover have "n \<noteq> 0 \<Longrightarrow> \<exists>f'. paired f' (drop n r) \<and> length bs + skips f r \<le> n + skips f' (drop n r)"
      using u(2,3) len by (intro window) auto
    ultimately show ?thesis using u(3) by (intro that [of n bs]) blast+
  next
    case esc
    show ?thesis
    proof (cases "escape_char (m ! (ip + 1))")
      case None
      then show ?thesis using esc e p by (intro that [of 0 "[]"]) (auto simp: unescape_def)
    next
      case (Some x)
      have u: "unescape m ip input_end = Some (2, [x])"
        using Some esc e p by (auto simp: unescape_def)
      show ?thesis
      proof (cases "ip + 2 \<le> input_end")
        case True
        then have "\<exists>f'. paired f' (drop 2 r) \<and> length [x] + skips f r \<le> 2 + skips f' (drop 2 r)"
          using len by (intro window) auto
        then show ?thesis using u True by (intro that [of 2 "[x]"]) blast+
      next
        case False
        then have "r = [c]" using len rc by (cases r') auto
        then have "skips f r = 0" using pr by (auto split: if_splits)
        then have "length [x] + skips f r \<le> length r" using len p by simp
        then show ?thesis using u False by (intro that [of 2 "[x]"]) auto
      qed
    qed
  qed
qed

lemma decode_loop_safe:
  assumes "input_end < length m" "ip \<le> input_end"
    and "paired f (take (input_end - ip) (drop ip m))"
    and "length out + length (take (input_end - ip) (drop ip m)) \<le>
           limit + skips f (take (input_end - ip) (drop ip m))"
    and "limit \<le> cap"
  shows "\<exists>ok ip' out'. decode_loop m input_end cap ip out = Some (ok, ip', out') \<and> length out' \<le> limit"
  using assms
proof (induction m input_end cap ip out arbitrary: f rule: decode_loop.induct)
  case (1 m input_end cap ip out)
  let ?r = "take (input_end - ip) (drop ip m)"
  show ?case
  proof (cases "ip < input_end")
    case False
    then show ?thesis using 1(5) unfolding decode_loop.simps [of m input_end cap ip out] by auto
  next
    case True
    obtain n bs where u: "unescape m ip input_end = Some (n, bs)"
      and n: "n = 0 \<or> input_end < ip + n \<and> length bs + skips f ?r \<le> length ?r \<or>
        ip + n \<le> input_end \<and>
        (\<exists>f'. paired f' (drop n ?r) \<and> length bs + skips f ?r \<le> n + skips f' (drop n ?r))"
      using unescape_safe [OF 1(2) True refl 1(4)] .
    from n consider (stop) "n = 0"
      | (over) "n \<noteq> 0" "input_end < ip + n" "length bs + skips f ?r \<le> length ?r"
      | (step) f' where "n \<noteq> 0" "ip + n \<le> input_end" "paired f' (drop n ?r)"
          "length bs + skips f ?r \<le> n + skips f' (drop n ?r)"
      by blast
    then show ?thesis
    proof cases
      case stop
      then show ?thesis
        using True u 1(5) skips_less [of f ?r] unfolding decode_loop.simps [of m input_end cap ip out]
        by auto
    next
      case over
      have "decode_loop m input_end cap (ip + n) (out @ bs) = Some (True, ip + n, out @ bs)"
        using over unfolding decode_loop.simps [of m input_end cap "ip + n"] by simp
      moreover have "length out + length bs \<le> limit" using over 1(5) by linarith
      ultimately show ?thesis using True u over 1(6)
        unfolding decode_loop.simps [of m input_end cap ip out] by auto
    next
      case step
      have dr: "drop n ?r = take (input_end - (ip + n)) (drop (ip + n) m)"
        by (simp add: drop_take add.commute)
      have len: "length (drop n ?r) = length ?r - n" "n \<le> length ?r"
        using step 1(2) by auto
      have sk: "skips f' (drop n ?r) \<le> length ?r - n"
        using skips_less [of f' "drop n ?r"] len by simp
      have room: "length out + length bs \<le> limit"
        using step(4) 1(5) sk len by linarith
      have "\<exists>ok ip' out'. decode_loop m input_end cap (ip + n) (out @ bs) = Some (ok, ip', out') \<and>
          length out' \<le> limit"
        using True u step(1,2) room 1(6)
      proof (intro 1(1) [where f = f'])
        show "paired f' (take (input_end - (ip + n)) (drop (ip + n) m))" using step(3) dr by simp
        show "length (out @ bs) + length (take (input_end - (ip + n)) (drop (ip + n) m))
          \<le> limit + skips f' (take (input_end - (ip + n)) (drop (ip + n) m))"
          using step(4) 1(5) len unfolding dr [symmetric] length_append by linarith
      qed (use 1(2,6) in auto)
      then show ?thesis using True u step(1) room 1(6)
        unfolding decode_loop.simps [of m input_end cap ip out] by simp
    qed
  qed
qed

lemma scan_string_list:
  "scan_string s p k = Some (e, k') \<Longrightarrow>
     p \<le> e \<and> e - p < length s \<and> s ! (e - p) = 34 \<and> paired True (take (e - p) s) \<and>
     k' = k + skips True (take (e - p) s)"
proof (induction s p k arbitrary: e k' rule: scan_string.induct)
  case (2 c r p k)
  show ?case
  proof (cases "c = 34 \<or> c \<noteq> 92")
    case True
    then show ?thesis
    proof
      assume "c \<noteq> 92"
      show ?thesis
      proof (cases "c = 34")
        case False
        then have "p + 1 \<le> e \<and> e - (p + 1) < length r \<and> r ! (e - (p + 1)) = 34 \<and>
            paired True (take (e - (p + 1)) r) \<and> k' = k + skips True (take (e - (p + 1)) r)"
          using 2 \<open>c \<noteq> 92\<close> by (intro 2(2)) auto
        moreover then have "e - p = Suc (e - (p + 1))" by linarith
        ultimately show ?thesis using \<open>c \<noteq> 92\<close> by simp
      qed (use 2(3) in auto)
    qed (use 2(3) in auto)
  next
    case False
    then obtain x r' where r: "r = x # r'" "scan_string r' (p + 2) (k + 1) = Some (e, k')"
      using 2(3) by (auto split: list.splits)
    have "p + 2 \<le> e \<and> e - (p + 2) < length r' \<and> r' ! (e - (p + 2)) = 34 \<and>
        paired True (take (e - (p + 2)) r') \<and> k' = k + 1 + skips True (take (e - (p + 2)) r')"
      using False r by (intro 2(1)) auto
    moreover then have "e - p = Suc (Suc (e - (p + 2)))" by linarith
    ultimately show ?thesis using False r by simp
  qed
qed simp

lemma scan_string_spec:
  assumes "scan_string (drop p m) p 0 = Some (e, k)"
  shows "p \<le> e" "e < length m" "m ! e = 34" "paired True (take (e - p) (drop p m))"
    "k = skips True (take (e - p) (drop p m))"
  using scan_string_list [OF assms] by auto

subsection \<open>Numbers\<close>

lemma of_int64_LLONG_MAX [simp]: "of_int64 LLONG_MAX = Fin 9223372036854775808"
  by code_simp

lemma of_int64_LLONG_MIN [simp]: "of_int64 LLONG_MIN = Fin (- 9223372036854775808)"
  by code_simp

lemma saturate_defined: "d \<noteq> NaN \<Longrightarrow> saturate d \<noteq> None"
proof (cases d)
  case (Fin x)
  have "- 9223372036854775808 \<le> (if 0 \<le> x then \<lfloor>x\<rfloor> else \<lceil>x\<rceil>) \<and>
        (if 0 \<le> x then \<lfloor>x\<rfloor> else \<lceil>x\<rceil>) < 9223372036854775808"
    if "x < 9223372036854775808" "- 9223372036854775808 < x"
    using that by (auto simp: floor_less_iff le_floor_iff ceiling_less_iff le_ceiling_iff)
  then show ?thesis using Fin by (auto simp: saturate_def Let_def)
qed (auto simp: saturate_def)

lemma round64_not_NaN [simp]: "round64 x \<noteq> NaN"
  by (simp add: round64_def Let_def)

lemma sign_of_le: "snd (sign_of s) \<le> length s"
  by (cases s) (auto simp: sign_of_def)

lemma length_takeWhile_drop: "k \<le> length s \<Longrightarrow> k + length (takeWhile P (drop k s)) \<le> length s"
  using length_takeWhile_le [of P "drop k s"] by simp

lemma strtod_exponent_le: "snd (strtod_exponent s) \<le> length s"
proof (cases s)
  case (Cons c r)
  have "snd (sign_of r) + length (takeWhile is_digit (drop (snd (sign_of r)) r)) \<le> length r"
    by (intro length_takeWhile_drop sign_of_le)
  then show ?thesis using Cons by (auto simp: strtod_exponent_def Let_def case_prod_beta)
qed (simp add: strtod_exponent_def)

lemma strtod_le: "snd (strtod s) \<le> length s"
proof -
  define k where "k = snd (sign_of s)"
  define ip where "ip = takeWhile is_digit (drop k s)"
  define s2 where "s2 = drop (length ip) (drop k s)"
  define point where "point = (s2 \<noteq> [] \<and> hd s2 = 46)"
  define fp where "fp = (if point then takeWhile is_digit (tl s2) else [])"
  define n2 where "n2 = (if point then 1 + length fp else 0)"
  have 1: "k + length ip \<le> length s"
    unfolding ip_def k_def by (intro length_takeWhile_drop sign_of_le)
  have 2: "n2 \<le> length s2"
    using length_takeWhile_le [of is_digit "tl s2"] by (cases s2) (auto simp: n2_def fp_def point_def)
  have 3: "snd (strtod_exponent (drop n2 s2)) \<le> length s2 - n2"
    using strtod_exponent_le [of "drop n2 s2"] by simp
  have "snd (strtod s) \<in> {0, k + length ip + n2 + snd (strtod_exponent (drop n2 s2))}"
    by (simp add: strtod_def Let_def case_prod_beta k_def ip_def s2_def point_def fp_def n2_def)
  moreover have "length s2 = length s - (k + length ip)" by (simp add: s2_def)
  ultimately show ?thesis using 1 2 3 by auto
qed

lemma strtod_not_NaN: "fst (strtod s) \<noteq> NaN"
  by (simp add: strtod_def Let_def case_prod_beta)

subsection \<open>The parse buffer\<close>

definition pb_ok :: "parse_buffer \<Rightarrow> bool" where
  "pb_ok b \<longleftrightarrow> offset b < length (content b) \<and> content b ! (length (content b) - 1) = 0"

lemma pb_ok_skip:
  assumes "pb_ok b" "offset b + n \<le> length (content b)" "0 < n"
    and "content b ! (offset b + n - 1) \<noteq> 0"
  shows "pb_ok (skip n b)"
proof -
  have "offset b + n - 1 \<noteq> length (content b) - 1"
    using assms by (auto simp: pb_ok_def)
  then show ?thesis using assms by (auto simp: pb_ok_def)
qed

lemma char_at_ok: "pb_ok b \<Longrightarrow> char_at b 0 = Some (content b ! offset b)"
  by (simp add: char_at_def pb_ok_def)

lemma pb_ok_skip1: "pb_ok b \<Longrightarrow> char_at b 0 = Some c \<Longrightarrow> c \<noteq> 0 \<Longrightarrow> pb_ok (skip 1 b)"
  by (rule pb_ok_skip) (auto simp: char_at_def pb_ok_def split: if_splits)

lemma skip_whitespace_simps [simp]:
  "content (buffer_skip_whitespace b) = content b"
  "depth (buffer_skip_whitespace b) = depth b"
  "pheap (buffer_skip_whitespace b) = pheap b"
  by (simp_all add: buffer_skip_whitespace_def Let_def)

lemma skip_whitespace_ok:
  assumes "pb_ok b"
  shows "pb_ok (buffer_skip_whitespace b)" "offset b \<le> offset (buffer_skip_whitespace b)"
proof -
  have "space_prefix (drop (offset b) (content b)) \<le> length (content b) - offset b"
    using length_takeWhile_le [of "\<lambda>c. c \<le> 32" "drop (offset b) (content b)"]
    by (simp add: space_prefix_def)
  then show "pb_ok (buffer_skip_whitespace b)" "offset b \<le> offset (buffer_skip_whitespace b)"
    using assms by (auto simp: buffer_skip_whitespace_def Let_def pb_ok_def can_access_def)
qed

text \<open>
  What parsing an item guarantees: on success the offset advanced, the text still ends behind
  it and the new blocks belong to the item; on failure the item and the live blocks are as
  before.
\<close>

definition parsed :: "cJSON \<Rightarrow> parse_buffer \<Rightarrow> bool \<times> cJSON \<Rightarrow> parse_buffer \<Rightarrow> bool" where
  "parsed item b r b' \<longleftrightarrow> content b' = content b \<and>
     (if fst r then pb_ok b' \<and> offset b < offset b' \<and> depth b' = depth b \<and>
        h_live (pheap b') - owned [snd r] = h_live (pheap b) - owned [item]
      else snd r = item \<and> h_live (pheap b') = h_live (pheap b))"

lemma parse_number_parsed:
  assumes b: "pb_ok b" and i: "fresh item"
  shows "wp (parsed item b) (parse_number item b)"
proof -
  define s where "s = takeWhile number_char (take 63 (drop (offset b) (content b)))"
  obtain v n where vn: "strtod s = (v, n)" by fastforce
  have n: "n \<le> length s" using strtod_le [of s] vn by simp
  obtain k where k: "saturate v = Some k"
    using saturate_defined [of v] strtod_not_NaN [of s] vn by auto
  have len: "length s \<le> length (content b) - offset b"
    using length_takeWhile_le [of number_char "take 63 (drop (offset b) (content b))"]
    by (auto simp: s_def)
  have "pb_ok (skip n b)" if "n \<noteq> 0"
  proof (rule pb_ok_skip [OF b])
    have "s ! (n - 1) = content b ! (offset b + (n - 1))"
      using that n len takeWhile_nth [of "n - 1" number_char "take 63 (drop (offset b) (content b))"]
        length_takeWhile_le [of number_char "take 63 (drop (offset b) (content b))"]
      by (simp add: s_def)
    moreover have "number_char (s ! (n - 1))"
      unfolding s_def by (rule set_takeWhileD [THEN conjunct2, OF nth_mem]) (use that n in \<open>simp add: s_def\<close>)
    ultimately show "content b ! (offset b + n - 1) \<noteq> 0"
      using that by (auto simp: number_char_def is_digit_def)
  qed (use that n len b in \<open>auto simp: pb_ok_def\<close>)
  then show ?thesis
    using vn k i by (auto simp: parse_number_def s_def [symmetric] Let_def parsed_def owned_simple)
qed

lemma parse_string_parsed:
  assumes b: "pb_ok b" and i: "fresh item"
  shows "wp (\<lambda>r b'. parsed item b r b' \<and> (fst r \<longrightarrow>
     (\<exists>s. snd r = set_type cJSON_String (set_valuestring (Some s) item)))) (parse_string item b)"
proof (cases "content b ! offset b = 34 \<and>
    scan_string (drop (offset b + 1) (content b)) (offset b + 1) 0 \<noteq> None \<and> fst (allocate (pheap b))")
  case False
  then show ?thesis
    using b by (auto simp: parse_string_def char_at_ok parsed_def allocate_def Let_def split: option.splits)
next
  case True
  then obtain e k where ek: "scan_string (drop (offset b + 1) (content b)) (offset b + 1) 0 = Some (e, k)"
    by auto
  note sc = scan_string_spec [OF ek]
  let ?r = "take (e - (offset b + 1)) (drop (offset b + 1) (content b))"
  have len: "length ?r = e - (offset b + 1)" using sc(1,2) by simp
  have kr: "k \<le> length ?r" using skips_less [of True ?r] sc(5) by simp
  have "\<exists>ok ip out. decode_loop (content b) e (e - offset b - k + 1) (offset b + 1) [] = Some (ok, ip, out) \<and>
      length out \<le> length ?r - k"
    using sc kr by (intro decode_loop_safe [where f = True]) (auto simp: len)
  then obtain ok ip out where sl: "decode_loop (content b) e (e - offset b - k + 1) (offset b + 1) [] =
      Some (ok, ip, out)" and out: "length out \<le> length ?r - k" by blast
  have "e \<noteq> length (content b) - 1" using b sc(3) by (auto simp: pb_ok_def)
  then have "pb_ok (b\<lparr>pheap := h, offset := Suc e\<rparr>)" for h using b sc(2) by (auto simp: pb_ok_def)
  moreover have "\<not> e - offset b - k + 1 \<le> length out" using out len kr sc(1) by linarith
  ultimately show ?thesis
    using True ek sl sc(1) b i
    by (auto simp: parse_string_def char_at_ok parsed_def allocate_def deallocate_def Let_def owned_simple)
qed

subsection \<open>Containers\<close>

text \<open>A parser of the next level, for buffers at a given depth.\<close>

definition level_ok :: "nat \<Rightarrow> (cJSON \<Rightarrow> (bool \<times> cJSON) parse) \<Rightarrow> bool" where
  "level_ok d pv \<longleftrightarrow>
     (\<forall>item b. fresh item \<longrightarrow> pb_ok b \<longrightarrow> depth b = d \<longrightarrow> wp (parsed item b) (pv item b))"

lemma level_okD:
  "level_ok d pv \<Longrightarrow> fresh item \<Longrightarrow> pb_ok b \<Longrightarrow> depth b = d \<Longrightarrow> wp (parsed item b) (pv item b)"
  by (simp add: level_ok_def)

definition chain_parsed ::
  "cJSON list \<Rightarrow> parse_buffer \<Rightarrow> bool \<times> cJSON list \<Rightarrow> parse_buffer \<Rightarrow> bool" where
  "chain_parsed items b r b' \<longleftrightarrow> content b' = content b \<and>
     h_live (pheap b') - owned (snd r) = h_live (pheap b) - owned items \<and>
     (fst r \<longrightarrow> pb_ok b' \<and> offset b < offset b' \<and> depth b' = depth b)"

lemma chain_parsed_trans:
  assumes "chain_parsed items' b1 r b'" "content b1 = content b" "offset b \<le> offset b1"
    "depth b1 = depth b"
    "h_live (pheap b1) - owned items' = h_live (pheap b) - owned items"
  shows "chain_parsed items b r b'"
  using assms by (auto simp: chain_parsed_def)

lemma pb_ok_pheap [simp]: "pb_ok (b\<lparr>pheap := h\<rparr>) = pb_ok b"
  by (simp add: pb_ok_def)

lemma pb_ok_depth [simp]: "pb_ok (b\<lparr>depth := d\<rparr>) = pb_ok b"
  by (simp add: pb_ok_def)

lemma array_loop_parsed:
  assumes "level_ok d pv" "depth b = d" "pb_ok (skip 1 b)"
  shows "wp (chain_parsed items b) (array_loop pv items b)"
  using assms(2,3)
proof (induction "length (content b) - offset b" arbitrary: items b rule: less_induct)
  case less
  show ?case
  proof (cases rule: cJSON_New_Item_cases [of "pheap b"])
    case (1 h)
    then show ?thesis
      by (subst array_loop.simps) (simp add: chain_parsed_def)
  next
    case (2 h)
    let ?b = "buffer_skip_whitespace (skip 1 (b\<lparr>pheap := h\<rparr>))"
    have ok: "pb_ok (skip 1 (b\<lparr>pheap := h\<rparr>))" using less.prems(2) by (simp add: pb_ok_def)
    note ws = skip_whitespace_ok [OF ok]
    have "wp (parsed new_item ?b) (pv new_item ?b)"
      using ws less.prems by (intro level_okD [OF assms(1)]) auto
    then obtain res i' b1 where r: "pv new_item ?b = Some ((res, i'), b1)" "parsed new_item ?b (res, i') b1"
      by (auto simp: wp_ex)
    show ?thesis
    proof (cases res)
      case False
      then show ?thesis
        using r 2 by (subst array_loop.simps) (simp add: chain_parsed_def parsed_def)
    next
      case True
      have p: "pb_ok b1" "content b1 = content b" "offset b < offset b1" "depth b1 = depth b"
          "h_live (pheap b1) = h_live (pheap b) + owned [i']"
        using r(2) True ws(2) 2 by (auto simp: parsed_def)
      note ws1 = skip_whitespace_ok [OF p(1)]
      let ?b1 = "buffer_skip_whitespace b1"
      have live: "h_live (pheap ?b1) - owned (items @ [i']) = h_live (pheap b) - owned items"
        using p(5) by simp
      show ?thesis
      proof (cases "char_at ?b1 0 = Some 44")
        case c: True
        have "wp (chain_parsed (items @ [i']) ?b1) (array_loop pv (items @ [i']) ?b1)"
          using p ws1 less.prems pb_ok_skip1 [OF ws1(1) c] ws(1)
          by (intro less.hyps) (auto simp: pb_ok_def)
        then have "wp (chain_parsed items b) (array_loop pv (items @ [i']) ?b1)"
          by (rule wp_mono) (use p ws1 live in \<open>auto intro: chain_parsed_trans\<close>)
        then show ?thesis using c True r(1) 2 by (subst array_loop.simps) simp
      next
        case c: False
        then show ?thesis
          using True r(1) 2 p ws1 live by (subst array_loop.simps) (simp add: chain_parsed_def)
      qed
    qed
  qed
qed

text \<open>A member of an object: its name, the colon, and its value.\<close>

lemma object_loop_parsed:
  assumes "level_ok d pv" "depth b = d" "pb_ok (skip 1 b)"
  shows "wp (chain_parsed items b) (object_loop pv items b)"
  using assms(2,3)
proof (induction "length (content b) - offset b" arbitrary: items b rule: less_induct)
  case less
  show ?case
  proof (cases rule: cJSON_New_Item_cases [of "pheap b"])
    case (1 h)
    then show ?thesis
      by (subst object_loop.simps) (simp add: chain_parsed_def)
  next
    case (2 h)
    let ?b = "buffer_skip_whitespace (skip 1 (b\<lparr>pheap := h\<rparr>))"
    have ok: "pb_ok (skip 1 (b\<lparr>pheap := h\<rparr>))" using less.prems(2) by (simp add: pb_ok_def)
    note ws = skip_whitespace_ok [OF ok]
    obtain res k b1 where r: "parse_string new_item ?b = Some ((res, k), b1)"
        "parsed new_item ?b (res, k) b1"
        "res \<Longrightarrow> \<exists>s. k = set_type cJSON_String (set_valuestring (Some s) new_item)"
      using parse_string_parsed [OF ws(1) fresh_new_item] by (auto simp: wp_ex)
    show ?thesis
    proof (cases res)
      case False
      then show ?thesis
        using r 2 by (subst object_loop.simps) (simp add: chain_parsed_def parsed_def)
    next
      case True
      obtain s where s: "k = set_type cJSON_String (set_valuestring (Some s) new_item)"
        using r(3) True by auto
      have "owned [k] = 2" by (simp add: s owned_simple)
      then have p: "pb_ok b1" "content b1 = content b" "offset b < offset b1" "depth b1 = depth b"
          "h_live (pheap b1) = h_live (pheap b) + 2"
        using r(2) True ws(2) 2 by (auto simp: parsed_def)
      note ws1 = skip_whitespace_ok [OF p(1)]
      let ?b1 = "buffer_skip_whitespace b1"
      show ?thesis
      proof (cases "char_at ?b1 0 = Some 58")
        case False
        then show ?thesis
          using True r(1) 2 p s by (subst object_loop.simps) (simp add: chain_parsed_def named_key)
      next
        case colon: True
        let ?b2 = "buffer_skip_whitespace (skip 1 ?b1)"
        note ws2 = skip_whitespace_ok [OF pb_ok_skip1 [OF ws1(1) colon]]
        have "wp (parsed (named s new_item) ?b2) (pv (named s new_item) ?b2)"
          using ws2 p less.prems by (intro level_okD [OF assms(1)]) auto
        then obtain res2 i' b3 where r2: "pv (named s new_item) ?b2 = Some ((res2, i'), b3)"
            "parsed (named s new_item) ?b2 (res2, i') b3"
          by (auto simp: wp_ex)
        show ?thesis
        proof (cases res2)
          case False
          then show ?thesis
            using r2 r(1) True 2 p s colon
            by (subst object_loop.simps) (simp add: chain_parsed_def parsed_def named_key)
        next
          case res2: True
          have q: "pb_ok b3" "content b3 = content b" "offset b < offset b3" "depth b3 = depth b"
              "h_live (pheap b3) = h_live (pheap b) + owned [i']"
            using r2(2) res2 ws2(2) ws1(2) p by (auto simp: parsed_def)
          note ws3 = skip_whitespace_ok [OF q(1)]
          let ?b3 = "buffer_skip_whitespace b3"
          have live: "h_live (pheap ?b3) - owned (items @ [i']) = h_live (pheap b) - owned items"
            using q(5) by simp
          show ?thesis
          proof (cases "char_at ?b3 0 = Some 44")
            case c: True
            have "wp (chain_parsed (items @ [i']) ?b3) (object_loop pv (items @ [i']) ?b3)"
              using q ws3 less.prems pb_ok_skip1 [OF ws3(1) c] ws(1)
              by (intro less.hyps) (auto simp: pb_ok_def)
            then have "wp (chain_parsed items b) (object_loop pv (items @ [i']) ?b3)"
              by (rule wp_mono) (use q ws3 live in \<open>auto intro: chain_parsed_trans\<close>)
            then show ?thesis
              using c True res2 r(1) r2(1) 2 s colon by (subst object_loop.simps) (simp add: named_key)
          next
            case c: False
            then show ?thesis
              using True res2 r(1) r2(1) 2 q ws3 live s colon
              by (subst object_loop.simps) (simp add: chain_parsed_def named_key)
          qed
        qed
      qed
    qed
  qed
qed

lemma close_container_parsed:
  assumes c: "chain_parsed [] b1 (ok, items) b2" and i: "fresh item"
    and t: "t \<in> {cJSON_Array, cJSON_Object}" and br: "bracket \<noteq> 0"
    and b1: "content b1 = content b" "offset b \<le> offset b1" "depth b1 = Suc (depth b)"
      "h_live (pheap b1) = h_live (pheap b)"
  shows "wp (parsed item b) (close_container t bracket item (ok, items) b2)"
proof (cases "ok \<and> char_at b2 0 = Some bracket")
  case False
  then have "close_container t bracket item (ok, items) b2 =
      Some ((False, item), b2\<lparr>pheap := cJSON_Delete items (pheap b2)\<rparr>)"
    by (auto simp: close_container_def)
  then show ?thesis using c b1 by (simp add: parsed_def chain_parsed_def)
next
  case True
  then have p: "pb_ok b2" "content b2 = content b" "offset b < offset b2" "depth b2 = Suc (depth b)"
      "h_live (pheap b2) = h_live (pheap b) + owned items"
    using c b1 by (auto simp: chain_parsed_def)
  have "pb_ok (b2\<lparr>depth := d, offset := Suc (offset b2)\<rparr>)" for d
    using pb_ok_skip1 [OF p(1), of bracket] True br by (auto simp: pb_ok_def)
  then show ?thesis
    using True p i t by (auto simp: close_container_def parsed_def owned_simple)
qed

text \<open>The rest of a container behind its opening bracket.\<close>

lemma container_parsed:
  assumes b0: "pb_ok b0" "content b0 = content b" "offset b < offset b0" "depth b0 = Suc (depth b)"
      "h_live (pheap b0) = h_live (pheap b)"
    and b1: "b1 = buffer_skip_whitespace b0"
    and i: "fresh item" and t: "t \<in> {cJSON_Array, cJSON_Object}" and br: "bracket \<noteq> 0"
    and loop: "\<And>b2. depth b2 = Suc (depth b) \<Longrightarrow> pb_ok (skip 1 b2) \<Longrightarrow>
      wp (chain_parsed [] b2) (loop b2)"
  shows "wp (parsed item b)
     (if char_at b1 0 = Some bracket then close_container t bracket item (True, []) b1
      else if \<not> can_access b1 0 then Some ((False, item), b1\<lparr>offset := offset b1 - 1\<rparr>)
      else loop (b1\<lparr>offset := offset b1 - 1\<rparr>) \<bind> (\<lambda>(r, b). close_container t bracket item r b))"
proof -
  note ws = skip_whitespace_ok [OF b0(1), folded b1]
  have b1': "content b1 = content b" "depth b1 = Suc (depth b)" "h_live (pheap b1) = h_live (pheap b)"
    using b0 b1 by simp_all
  show ?thesis
  proof (cases "char_at b1 0 = Some bracket")
    case True
    have "chain_parsed [] (b1\<lparr>offset := offset b\<rparr>) (True, []) b1"
      using ws b0(3) by (auto simp: chain_parsed_def)
    then have "wp (parsed item b) (close_container t bracket item (True, []) b1)"
      by (rule close_container_parsed) (use i t br b1' in auto)
    then show ?thesis using True by simp
  next
    case False
    let ?b2 = "b1\<lparr>offset := offset b1 - 1\<rparr>"
    have acc: "can_access b1 0" using ws(1) by (simp add: can_access_def pb_ok_def)
    have "0 < offset b1" using ws(2) b0(3) by simp
    then have "pb_ok (skip 1 ?b2)" using ws(1) by (simp add: pb_ok_def)
    then have "wp (chain_parsed [] ?b2) (loop ?b2)" using b1' by (intro loop) auto
    then have "wp (\<lambda>r b2. wp (parsed item b) (close_container t bracket item r b2)) (loop ?b2)"
    proof (rule wp_mono)
      fix r b2
      assume c: "chain_parsed [] ?b2 r b2"
      obtain ok items where r: "r = (ok, items)" by (cases r)
      show "wp (parsed item b) (close_container t bracket item r b2)"
        unfolding r
        by (rule close_container_parsed [OF c [unfolded r]]) (use ws(2) b0(3) i t br b1' in auto)
    qed
    then show ?thesis using False acc by simp
  qed
qed

lemma parse_array_parsed:
  assumes b: "pb_ok b" and i: "fresh item"
    and pv: "depth b < CJSON_NESTING_LIMIT \<Longrightarrow> level_ok (Suc (depth b)) pv"
  shows "wp (parsed item b) (parse_array pv item b)"
proof (cases "CJSON_NESTING_LIMIT \<le> depth b \<or> content b ! offset b \<noteq> 91")
  case True
  then show ?thesis using b by (auto simp: parse_array_def parsed_def char_at_ok Let_def)
next
  case False
  let ?b0 = "skip 1 (b\<lparr>depth := Suc (depth b)\<rparr>)"
  have "pb_ok ?b0" using pb_ok_skip1 [of b 91] b False by (auto simp: char_at_ok pb_ok_def)
  moreover have "level_ok (Suc (depth b)) pv" using pv False by simp
  ultimately have "wp (parsed item b)
     (let b1 = buffer_skip_whitespace ?b0 in
      if char_at b1 0 = Some 93 then close_container cJSON_Array 93 item (True, []) b1
      else if \<not> can_access b1 0 then Some ((False, item), b1\<lparr>offset := offset b1 - 1\<rparr>)
      else array_loop pv [] (b1\<lparr>offset := offset b1 - 1\<rparr>) \<bind>
        (\<lambda>(r, b). close_container cJSON_Array 93 item r b))"
    unfolding Let_def
    by (intro container_parsed [OF _ _ _ _ _ refl i] array_loop_parsed) auto
  then show ?thesis using False b by (simp add: parse_array_def char_at_ok Let_def)
qed

lemma parse_object_parsed:
  assumes b: "pb_ok b" and i: "fresh item"
    and pv: "depth b < CJSON_NESTING_LIMIT \<Longrightarrow> level_ok (Suc (depth b)) pv"
  shows "wp (parsed item b) (parse_object pv item b)"
proof (cases "CJSON_NESTING_LIMIT \<le> depth b \<or> content b ! offset b \<noteq> 123")
  case True
  then show ?thesis using b by (auto simp: parse_object_def parsed_def char_at_def pb_ok_def Let_def)
next
  case False
  let ?b0 = "skip 1 (b\<lparr>depth := Suc (depth b)\<rparr>)"
  have "pb_ok ?b0" using pb_ok_skip1 [of b 123] b False by (auto simp: char_at_ok pb_ok_def)
  moreover have "level_ok (Suc (depth b)) pv" using pv False by simp
  ultimately have "wp (parsed item b)
     (let b1 = buffer_skip_whitespace ?b0 in
      if char_at b1 0 = Some 125 then close_container cJSON_Object 125 item (True, []) b1
      else if \<not> can_access b1 0 then Some ((False, item), b1\<lparr>offset := offset b1 - 1\<rparr>)
      else object_loop pv [] (b1\<lparr>offset := offset b1 - 1\<rparr>) \<bind>
        (\<lambda>(r, b). close_container cJSON_Object 125 item r b))"
    unfolding Let_def
    by (intro container_parsed [OF _ _ _ _ _ refl i] object_loop_parsed) auto
  then show ?thesis using False b by (simp add: parse_object_def char_at_ok Let_def)
qed

subsection \<open>Values\<close>

lemma looking_at_ok:
  assumes "looking_at s b" "pb_ok b" "s \<noteq> []" "last (lit s) \<noteq> 0"
  shows "pb_ok (skip (length s) b)"
proof (rule pb_ok_skip [OF assms(2)])
  have t: "take (length s) (drop (offset b) (content b)) = lit s"
    and l: "offset b + length s \<le> length (content b)"
    using assms(1) by (auto simp: looking_at_def can_read_def)
  have "lit s ! (length s - 1) = content b ! (offset b + (length s - 1))"
    unfolding t [symmetric] using assms(3) l by simp
  moreover have "lit s ! (length s - 1) = last (lit s)"
    using assms(3) by (simp add: last_conv_nth lit_def)
  ultimately show "content b ! (offset b + length s - 1) \<noteq> 0"
    using assms(3,4) by (cases s) auto
  show "offset b + length s \<le> length (content b)" by (rule l)
qed (use assms(3) in simp)

lemma parse_value_parsed:
  assumes "pb_ok b" "fresh item" "depth b \<le> CJSON_NESTING_LIMIT" "CJSON_NESTING_LIMIT < depth b + n"
  shows "wp (parsed item b) (parse_value n item b)"
  using assms
proof (induction n arbitrary: item b)
  case (Suc n)
  have pv: "level_ok (Suc (depth b)) (parse_value n)" if "depth b < CJSON_NESTING_LIMIT"
    using Suc.IH Suc.prems(4) that by (auto simp: level_ok_def)
  have lits: "last (lit ''null'') \<noteq> 0" "last (lit ''false'') \<noteq> 0" "last (lit ''true'') \<noteq> 0"
    by (simp_all add: lit_def)
  have ok: "looking_at s b \<Longrightarrow> s \<noteq> [] \<Longrightarrow> last (lit s) \<noteq> 0 \<Longrightarrow> pb_ok (skip (length s) b)" for s
    using looking_at_ok Suc.prems(1) by blast
  consider (null) "looking_at ''null'' b" | (false) "\<not> looking_at ''null'' b" "looking_at ''false'' b"
    | (true) "\<not> looking_at ''null'' b" "\<not> looking_at ''false'' b" "looking_at ''true'' b"
    | (other) "\<not> looking_at ''null'' b" "\<not> looking_at ''false'' b" "\<not> looking_at ''true'' b"
    by blast
  then show ?case
  proof cases
    case null
    then show ?thesis using ok [OF null] lits Suc.prems(2) by (simp add: parsed_def owned_simple numeral_eq_Suc)
  next
    case false
    then show ?thesis using ok [OF false(2)] lits Suc.prems(2) by (simp add: parsed_def owned_simple numeral_eq_Suc)
  next
    case true
    then show ?thesis using ok [OF true(3)] lits Suc.prems(2) by (simp add: parsed_def owned_simple numeral_eq_Suc)
  next
    case other
    have "wp (parsed item b) (Some ((False, item), b))" by (simp add: parsed_def)
    moreover have "wp (parsed item b) (parse_string item b)"
      by (rule wp_mono [OF parse_string_parsed [OF Suc.prems(1,2)]]) simp
    ultimately show ?thesis
      using other Suc.prems(1,2) pv parse_number_parsed parse_array_parsed parse_object_parsed
      by (simp add: char_at_ok)
  qed
qed simp


subsection \<open>Entry points\<close>

lemma skip_utf8_bom_ok:
  assumes "m \<noteq> []" "last m = 0"
  obtains b where "skip_utf8_bom \<lparr>content = m, offset = 0, depth = 0, pheap = h\<rparr> = Some b"
    "pb_ok b" "content b = m" "depth b = 0" "pheap b = h"
  using assms that
  by (cases "can_access \<lparr>content = m, offset = 0, depth = 0, pheap = h\<rparr> 4 \<and> take 3 m = [0xEF, 0xBB, 0xBF]")
    (auto simp: skip_utf8_bom_def pb_ok_def can_access_def last_conv_nth)

definition result_ok :: "bytes \<Rightarrow> heap \<Rightarrow> parse_result \<Rightarrow> bool" where
  "result_ok m h r \<longleftrightarrow>
     (case pr_item r of
        Some item \<Rightarrow> pr_error r = None \<and> (\<exists>e < length m. pr_end r = Some e) \<and>
          h_live (pr_heap r) = h_live h + owned [item]
      | None \<Rightarrow> (\<exists>e < length m. pr_error r = Some e \<and> pr_end r = Some e) \<and>
          h_live (pr_heap r) = h_live h)"

lemma parse_failed_ok:
  "m \<noteq> [] \<Longrightarrow> h_live h' - owned (the_list item) = h_live h \<Longrightarrow> result_ok m h (parse_failed item m off h')"
  by (simp add: result_ok_def parse_failed_def Let_def)

lemma cJSON_ParseWithLengthOpts_ok:
  assumes "m \<noteq> []" "last m = 0"
  shows "\<exists>r. cJSON_ParseWithLengthOpts (Some m) require h = Some r \<and> result_ok m h r"
proof (cases rule: cJSON_New_Item_cases [of h])
  case (1 h')
  then show ?thesis
    using assms by (auto simp: cJSON_ParseWithLengthOpts_def the_list_def intro!: parse_failed_ok)
next
  case (2 h')
  obtain b where b: "skip_utf8_bom \<lparr>content = m, offset = 0, depth = 0, pheap = h'\<rparr> = Some b"
    "pb_ok b" "content b = m" "depth b = 0" "pheap b = h'"
    by (rule skip_utf8_bom_ok [OF assms])
  let ?b = "buffer_skip_whitespace b"
  have "wp (parsed new_item ?b) (parse_value (CJSON_NESTING_LIMIT + 1) new_item ?b)"
    using skip_whitespace_ok(1) [OF b(2)] b(4) by (intro parse_value_parsed) auto
  then obtain ok item b1 where p: "parse_value (CJSON_NESTING_LIMIT + 1) new_item ?b = Some ((ok, item), b1)"
    "parsed new_item ?b (ok, item) b1" by (auto simp: wp_ex)
  define b2 where "b2 = (if require then buffer_skip_whitespace b1 else b1)"
  have eq: "cJSON_ParseWithLengthOpts (Some m) require h =
     (if \<not> ok then Some (parse_failed (Some item) m (offset b1) (pheap b1))
      else if require \<and> char_at b2 0 \<noteq> Some 0 then Some (parse_failed (Some item) m (offset b2) (pheap b2))
      else Some \<lparr>pr_item = Some item, pr_end = Some (offset b2), pr_error = None, pr_heap = pheap b2\<rparr>)"
    unfolding cJSON_ParseWithLengthOpts_def using assms 2(1) b(1) p(1) by (simp add: Let_def b2_def)
  show ?thesis
  proof (cases ok)
    case False
    then show ?thesis
      unfolding eq using assms p(2) 2(2) b(5) by (auto simp: parsed_def the_list_def intro!: parse_failed_ok)
  next
    case True
    have l: "h_live (pheap b2) = h_live h + owned [item]" "content b2 = m" "pb_ok b2"
      using p(2) True 2(2) b(3,5) skip_whitespace_ok(1) [of b1] by (auto simp: parsed_def b2_def)
    then have "result_ok m h (parse_failed (Some item) m (offset b2) (pheap b2))"
      using assms by (intro parse_failed_ok) (simp_all add: the_list_def)
    moreover have "result_ok m h
        \<lparr>pr_item = Some item, pr_end = Some (offset b2), pr_error = None, pr_heap = pheap b2\<rparr>"
      using l by (auto simp: result_ok_def pb_ok_def)
    ultimately show ?thesis unfolding eq using True by auto
  qed
qed

text \<open>
  C12. \<open>cJSON_Parse\<close> and \<open>cJSON_ParseWithOpts\<close> on any C string: whatever the bytes are and
  whichever allocations fail, the parser returns without reading outside the string or
  writing outside its blocks (up to 1000 levels of nesting, and rejecting deeper input).
  When it returns an item, deleting the item frees everything that was allocated; when it
  returns \<open>NULL\<close>, nothing stays allocated and the error position lies in the string.
\<close>

theorem cJSON_Parse_safe:
  "\<exists>r. cJSON_ParseWithOpts (Some s) require_null_terminated h = Some r \<and>
     (case pr_item r of
        Some item \<Rightarrow> pr_error r = None \<and> h_live (cJSON_Delete [item] (pr_heap r)) = h_live h
      | None \<Rightarrow> (\<exists>e. pr_error r = Some e \<and> e \<le> length s) \<and> h_live (pr_heap r) = h_live h)"
proof -
  obtain r where "cJSON_ParseWithLengthOpts (Some (s @ [0])) require_null_terminated h = Some r"
    "result_ok (s @ [0]) h r"
    using cJSON_ParseWithLengthOpts_ok [of "s @ [0]" require_null_terminated h] by auto
  then show ?thesis
    by (intro exI [of _ r])
      (auto simp: cJSON_ParseWithOpts_def result_ok_def less_Suc_eq_le split: option.splits)
qed

declare array_loop.simps [code] object_loop.simps [code]

definition ample_heap :: heap where
  "ample_heap = \<lparr>h_ok = \<lambda>_. True, h_fill = \<lambda>_ _. 0, h_calls = 0, h_live = 0, h_realloc = True\<rparr>"


end
