(* ===== verification/Cjson_Items.thy ===== *)
theory Cjson_Items
  imports Cjson_Parse_Safe
begin

text \<open>
  What the operations on items guarantee: looking a member up after adding one, who owns the
  blocks after an operation that may fail, and that a duplicate is a copy.
\<close>

subsection \<open>Names\<close>

lemma ci_loop_refl [simp]: "ci_loop s s = 0"
  by (induction s) auto

lemma tolower_pos: "c \<noteq> 0 \<Longrightarrow> 0 < tolower c"
proof -
  assume "c \<noteq> 0"
  then have "0 < uint c" using uint_0_iff [of c] uint_nonnegative [of c] by linarith
  then show ?thesis by (simp add: tolower_def)
qed

lemma tolower_0 [simp]: "tolower 0 = 0"
  by (simp add: tolower_def)

lemma ci_loop_eq_0:
  "0 \<notin> set a \<Longrightarrow> 0 \<notin> set b \<Longrightarrow> ci_loop a b = 0 \<longleftrightarrow> map tolower a = map tolower b"
  by (induction a b rule: ci_loop.induct) (auto dest: tolower_pos)

lemma object_walk_shift:
  "object_walk cs n (Suc i) es = map_option Suc (object_walk cs n i es)"
  by (induction es arbitrary: i) (auto split: option.splits)

text \<open>Two names that the lookup takes for equal.\<close>

definition same_name :: "bool \<Rightarrow> bytes \<Rightarrow> bytes \<Rightarrow> bool" where
  "same_name case_sensitive n k \<longleftrightarrow> (if case_sensitive then n = k else ci_loop n k = 0)"

lemma object_walk_snoc:
  assumes "\<forall>e \<in> set es. c_string e \<noteq> None" "c_string x = Some k"
  shows "object_walk cs n i (es @ [x]) =
     (case object_walk cs n i es of Some j \<Rightarrow> Some j
      | None \<Rightarrow> if same_name cs n k then Some (i + length es) else None)"
  using assms(1)
proof (induction es arbitrary: i)
  case Nil
  show ?case using assms(2) by (auto simp: same_name_def case_insensitive_strcmp_def)
next
  case (Cons e es)
  then show ?case by (auto simp: case_insensitive_strcmp_def split: option.splits)
qed

definition lookup :: "bool \<Rightarrow> cJSON \<Rightarrow> bytes \<Rightarrow> cJSON option" where
  "lookup cs ob n = nth_child (Some ob) (get_object_item (Some ob) (Some n) cs)"

definition all_named :: "cJSON \<Rightarrow> bool" where
  "all_named ob \<longleftrightarrow> (\<forall>e \<in> set (c_child ob). c_string e \<noteq> None)"

text \<open>The item that is stored under a name.\<close>

definition stored :: "bool \<Rightarrow> bytes \<Rightarrow> cJSON \<Rightarrow> cJSON" where
  "stored constant_key k i =
     set_type (if constant_key then c_type i OR cJSON_StringIsConst
               else c_type i AND NOT cJSON_StringIsConst) (set_string (Some k) i)"

lemma c_string_set [simp]:
  "c_string (set_string s i) = s" "c_string (set_type t i) = c_string i"
  "c_child (set_child ch i) = ch" "c_child (set_string s i) = c_child i" "c_child (set_type t i) = c_child i"
  "c_type (set_type t i) = t" "c_type (set_child ch i) = c_type i" "c_type (set_string s i) = c_type i"
  "c_valuestring (set_type t i) = c_valuestring i" "c_valuestring (set_string s i) = c_valuestring i"
  "c_valuestring (set_child ch i) = c_valuestring i" "c_string (set_child ch i) = c_string i"
  by (cases i; simp)+

lemma c_string_stored [simp]: "c_string (stored ck k i) = Some k"
  by (simp add: stored_def)

lemma add_item_to_object_cases:
  obtains (fail) h' where "add_item_to_object (Some ob) (Some k) (Some i) h ck = (False, Some ob, h')"
      "h_live h' = h_live h" "\<not> ck"
  | (ok) h' where "add_item_to_object (Some ob) (Some k) (Some i) h ck =
        (True, Some (set_child (c_child ob @ [stored ck k i]) ob), h')"
      "h_live h' = h_live h + (if ck then 0 else 1) -
         (if \<not> string_is_const i \<and> c_string i \<noteq> None then 1 else 0)"
  by (cases "h_ok h (h_calls h)"; cases ck)
    (auto simp: add_item_to_object_def cJSON_strdup_def allocate_def deallocate_def Let_def
       add_item_to_array_def stored_def)

lemma lookup_add:
  assumes "all_named ob"
  shows "lookup cs (set_child (c_child ob @ [stored ck k i]) ob) n =
     (case lookup cs ob n of Some x \<Rightarrow> Some x
      | None \<Rightarrow> if same_name cs n k then Some (stored ck k i) else None)"
proof -
  have w: "object_walk cs n 0 (c_child ob @ [stored ck k i]) =
      (case object_walk cs n 0 (c_child ob) of Some j \<Rightarrow> Some j
       | None \<Rightarrow> if same_name cs n k then Some (0 + length (c_child ob)) else None)"
    using assms by (intro object_walk_snoc) (auto simp: all_named_def)
  show ?thesis
  proof (cases "object_walk cs n 0 (c_child ob)")
    case None
    then show ?thesis using w by (simp add: lookup_def get_object_item_def nth_child_def)
  next
    case (Some j)
    then have "j < length (c_child ob)" using object_walk_bound [OF Some] by simp
    then show ?thesis using w Some
      by (simp add: lookup_def get_object_item_def nth_child_def nth_append)
  qed
qed


lemma all_named_add [simp]:
  "all_named ob \<Longrightarrow> all_named (set_child (c_child ob @ [stored ck k i]) ob)"
  by (simp add: all_named_def)

text \<open>
  A table of named values to which entries are only added: the first entry of a name wins.
\<close>

locale name_table =
  fixes get :: "'t \<Rightarrow> 'n \<Rightarrow> 'v option"
    and put :: "'t \<Rightarrow> 'n \<Rightarrow> 'v \<Rightarrow> 't"
    and ok :: "'t \<Rightarrow> bool"
    and same :: "'n \<Rightarrow> 'n \<Rightarrow> bool"
    and mk :: "'n \<Rightarrow> 'v \<Rightarrow> 'v"
  assumes get_put: "ok t \<Longrightarrow> get (put t k v) n =
      (case get t n of Some x \<Rightarrow> Some x | None \<Rightarrow> if same n k then Some (mk k v) else None)"
    and ok_put: "ok t \<Longrightarrow> ok (put t k v)"
    and same_refl: "same n n"
begin

lemma get_put_new: "ok t \<Longrightarrow> get t n = None \<Longrightarrow> get (put t n v) n = Some (mk n v)"
  by (simp add: get_put same_refl)

lemma ok_puts: "ok t \<Longrightarrow> ok (foldl (\<lambda>t (k, v). put t k v) t kvs)"
  by (induction kvs arbitrary: t) (auto simp: ok_put)

lemma get_puts:
  "ok t \<Longrightarrow> get (foldl (\<lambda>t (k, v). put t k v) t kvs) n =
     (case get t n of Some x \<Rightarrow> Some x
      | None \<Rightarrow> map_option (\<lambda>(k, v). mk k v) (find (\<lambda>(k, v). same n k) kvs))"
  by (induction kvs arbitrary: t) (auto simp: ok_put get_put split: option.splits)

end

definition put_member :: "bool \<Rightarrow> cJSON \<Rightarrow> bytes \<Rightarrow> cJSON \<Rightarrow> cJSON" where
  "put_member ck ob k i = set_child (c_child ob @ [stored ck k i]) ob"

interpretation ci_table: name_table "lookup False" "put_member ck" all_named "same_name False" "stored ck" for ck
  by unfold_locales (simp_all add: put_member_def lookup_add, simp add: same_name_def)

interpretation cs_table: name_table "lookup True" "put_member ck" all_named "same_name True" "stored ck" for ck
  by unfold_locales (simp_all add: put_member_def lookup_add, simp add: same_name_def)

text \<open>
  C13. Looking a name up (without regard to case) after a member was added: an object finds
  its earlier member of that name if it has one, otherwise the new member when the names
  agree up to case, and otherwise still nothing.
\<close>

theorem get_object_item_after_add:
  assumes "all_named ob"
    and "add_item_to_object (Some ob) (Some k) (Some i) h constant_key = (True, Some ob', h')"
  shows "cJSON_GetObjectItem (Some ob') (Some n) =
     (case cJSON_GetObjectItem (Some ob) (Some n) of
        Some x \<Rightarrow> Some x
      | None \<Rightarrow> if ci_loop n k = 0 then Some (stored constant_key k i) else None)"
proof -
  have "ob' = put_member constant_key ob k i"
    using assms(2) by (cases rule: add_item_to_object_cases [of ob k i h constant_key]) (auto simp: put_member_def)
  then show ?thesis
    using ci_table.get_put [OF assms(1), of constant_key k i n]
    by (simp add: lookup_def cJSON_GetObjectItem_def same_name_def)
qed

theorem get_object_item_after_add_witness:
  "cJSON_GetObjectItem (Some (put_member False (set_type 64 new_item) (lit ''Time'') new_item)) (Some (lit ''time'')) =
     Some (stored False (lit ''Time'') new_item)"
proof -
  have "all_named (set_type 64 new_item)" by (simp add: all_named_def new_item_def)
  moreover have "add_item_to_object (Some (set_type 64 new_item)) (Some (lit ''Time'')) (Some new_item) ample_heap False =
      (True, Some (put_member False (set_type 64 new_item) (lit ''Time'') new_item),
       snd (snd (add_item_to_object (Some (set_type 64 new_item)) (Some (lit ''Time'')) (Some new_item) ample_heap False)))"
    by (simp add: add_item_to_object_def cJSON_strdup_def allocate_def ample_heap_def Let_def
        add_item_to_array_def put_member_def stored_def new_item_def)
  moreover have "cJSON_GetObjectItem (Some (set_type 64 new_item)) (Some (lit ''time'')) = None"
    "ci_loop (lit ''time'') (lit ''Time'') = 0" by code_simp+
  ultimately show ?thesis
    using get_object_item_after_add [of "set_type 64 new_item" "lit ''Time''" new_item ample_heap False] by simp
qed

subsection \<open>Ownership of the operations that may fail\<close>

lemma create_typed_live:
  assumes "create_typed t h = (item, h')" "t \<in> {1, 2, 4, 8, 16, 32, 64, 128}"
  shows "h_live h' = h_live h + owned (the_list item)"
    and "item \<in> {None, Some (set_type t new_item)}"
  using assms
  by (auto simp: create_typed_def cJSON_New_Item_def allocate_def Let_def the_list_def new_item_def
      cJSON_types split: if_splits)

lemma create_text_live:
  assumes "create_text t str h = (item, h')" "t \<in> {16, 128}"
  shows "h_live h' = h_live h + owned (the_list item)"
    and "item = None \<or> (\<exists>s. item = Some (set_valuestring (Some s) (set_type t new_item)))"
  using assms
  by (auto simp: create_text_def cJSON_New_Item_def cJSON_strdup_def allocate_def deallocate_def Let_def
      the_list_def new_item_def cJSON_types split: if_splits option.splits)

lemma create_number_live:
  assumes "cJSON_CreateNumber num h = Some (item, h')"
  shows "h_live h' = h_live h + owned (the_list item)"
    and "item = None \<or> (\<exists>v. item = Some (set_number v num (set_type cJSON_Number new_item)))"
  using assms
  by (auto simp: cJSON_CreateNumber_def cJSON_New_Item_def allocate_def Let_def the_list_def new_item_def
      cJSON_types split: if_splits option.splits bind_splits)

lemma owned_add:
  assumes "\<not> is_reference ob"
  shows "owned [set_child (c_child ob @ [x]) ob] = owned [ob] + owned [x]"
  using assms by (cases ob) auto

text \<open>The item made for a member has no name and no flags yet.\<close>

definition plain :: "cJSON \<Rightarrow> bool" where
  "plain i \<longleftrightarrow> c_string i = None \<and> c_type i \<in> {1, 2, 4, 8, 16, 32, 64, 128}"

lemma owned_stored: "plain i \<Longrightarrow> owned [stored False k i] = owned [i] + 1"
  by (cases i) (auto simp: plain_def stored_def cJSON_types)

lemma add_or_delete_live:
  assumes "\<not> is_reference ob" "\<forall>i. item = Some i \<longrightarrow> plain i"
    and "h_live h' = h_live h + owned (the_list item)"
    and "add_or_delete (Some ob) name (item, h') = (ok, ob', h'')"
  shows "ob' = Some ob \<and> h_live h'' = h_live h \<and> \<not> ok \<or>
     (\<exists>x. ob' = Some x \<and> h_live h'' - owned [x] = h_live h - owned [ob] \<and> ok)"
proof (cases "item = None \<or> name = None")
  case True
  then have "add_item_to_object (Some ob) name item h' False = (False, Some ob, h')"
    by (auto simp: add_item_to_object_def split: option.splits)
  then show ?thesis using assms by (auto simp: add_or_delete_def)
next
  case False
  then obtain i k where ik: "item = Some i" "name = Some k" by auto
  have pl: "plain i" using assms(2) ik by simp
  show ?thesis
  proof (cases rule: add_item_to_object_cases [of ob k i h' False])
    case (fail h1)
    then show ?thesis using assms ik by (auto simp: add_or_delete_def the_list_def)
  next
    case (ok h1)
    then show ?thesis
      using assms(1,3,4) ik pl by (auto simp: add_or_delete_def the_list_def owned_add owned_stored plain_def)
  qed
qed




text \<open>
  Adding a reference does not have that guarantee: when the copy of the name cannot be
  allocated, the new reference item is lost.
\<close>

definition second_fails :: heap where
  "second_fails = ample_heap\<lparr>h_ok := \<lambda>n. n \<noteq> 1\<rparr>"

lemma add_reference_leaks:
  "fst (cJSON_AddItemReferenceToObject (Some (set_type 64 new_item)) (Some []) (Some new_item) second_fails) = False"
  "h_live (snd (snd (cJSON_AddItemReferenceToObject (Some (set_type 64 new_item)) (Some []) (Some new_item) second_fails))) =
     h_live second_fails + 1"
  by code_simp+

subsection \<open>Duplicates\<close>

text \<open>What a duplicate looks like: nothing in it is a reference any more.\<close>

fun unreferenced :: "cJSON \<Rightarrow> cJSON" where
  "unreferenced (Item t vs vi vd s ch) =
     Item (t AND NOT cJSON_IsReference) vs vi vd s (map unreferenced ch)"

lemma and_not_ref [simp]: "(t AND NOT cJSON_IsReference) AND cJSON_IsReference = 0"
  by (simp add: bit_eq_iff bit_simps)

lemma and_not_const [simp]:
  "(t AND NOT cJSON_IsReference) AND cJSON_StringIsConst = t AND cJSON_StringIsConst"
proof -
  have "NOT cJSON_IsReference AND cJSON_StringIsConst = cJSON_StringIsConst" by (simp add: cJSON_types)
  then show ?thesis by (metis and.assoc)
qed

lemma cJSON_strdup_cases:
  obtains "s = None" "cJSON_strdup s h = (None, h)"
  | h' where "s \<noteq> None" "cJSON_strdup s h = (None, h')" "h_live h' = h_live h"
  | h' where "s \<noteq> None" "cJSON_strdup s h = (s, h')" "h_live h' = h_live h + 1"
  by (cases s; cases "h_ok h (h_calls h)") (auto simp: cJSON_strdup_def allocate_def Let_def)

text \<open>The copy of a name, which a constant name shares.\<close>

definition dup_name :: "int \<Rightarrow> bytes option \<Rightarrow> heap \<Rightarrow> bytes option \<times> heap" where
  "dup_name t s h = (if t AND cJSON_StringIsConst \<noteq> 0 then (s, h) else cJSON_strdup s h)"

lemma dup_name_cases:
  obtains h' where "s \<noteq> None" "dup_name t s h = (None, h')" "h_live h' = h_live h"
  | h' where "dup_name t s h = (s, h')"
      "h_live h' = h_live h + (if t AND cJSON_StringIsConst = 0 \<and> s \<noteq> None then 1 else 0)"
proof (cases "t AND cJSON_StringIsConst = 0")
  case True
  then show ?thesis using that by (cases rule: cJSON_strdup_cases [of s h]) (auto simp: dup_name_def)
qed (use that(2) [of h] in \<open>simp add: dup_name_def\<close>)

definition dup_ok :: "cJSON \<Rightarrow> bool" where
  "dup_ok item \<longleftrightarrow> (\<forall>recurse h r h'. cJSON_Duplicate item recurse h = (r, h') \<longrightarrow>
     h_live h' = h_live h + owned (the_list r) \<and>
     (recurse \<longrightarrow> r = None \<or> r = Some (unreferenced item)))"

lemma dup_children_ok:
  "\<forall>c \<in> set cs. dup_ok c \<Longrightarrow> dup_children cs h = (ok, copies, h') \<Longrightarrow>
     h_live h' = h_live h + owned copies \<and> (ok \<longrightarrow> copies = map unreferenced cs)"
proof (induction cs arbitrary: h ok copies h')
  case (Cons c cs)
  obtain c' h1 where c: "cJSON_Duplicate c True h = (c', h1)" by fastforce
  then have ih: "h_live h1 = h_live h + owned (the_list c')" "c' = None \<or> c' = Some (unreferenced c)"
    using Cons.prems(1) by (auto simp: dup_ok_def)
  show ?case
  proof (cases c')
    case None
    then show ?thesis using Cons.prems(2) c ih by (auto simp: the_list_def)
  next
    case (Some d)
    obtain b ds h2 where d: "dup_children cs h1 = (b, ds, h2)" by (cases "dup_children cs h1") auto
    then have "h_live h2 = h_live h1 + owned ds \<and> (b \<longrightarrow> ds = map unreferenced cs)"
      using Cons by auto
    then show ?thesis using Cons.prems(2) c d Some ih owned_Cons [of d ds] by (auto simp: the_list_def)
  qed
qed simp

lemma duplicate_ok: "dup_ok item"
proof (induction item)
  case (Item t vs vi vd s ch)
  have kids: "h_live h'' = h_live h2 + owned ds \<and> (b \<longrightarrow> ds = map unreferenced ch)"
    if "dup_children ch h2 = (b, ds, h'')" for h2 b ds h''
    using dup_children_ok [of ch] Item that by blast
  have "h_live h' = h_live h + owned (the_list r) \<and>
      (recurse \<longrightarrow> r = None \<or> r = Some (unreferenced (Item t vs vi vd s ch)))"
    if "cJSON_Duplicate (Item t vs vi vd s ch) recurse h = (r, h')" for recurse h r h'
  proof -
    note dup = that [unfolded cJSON_Duplicate.simps, folded dup_name_def]
    show ?thesis
    proof (cases rule: cJSON_New_Item_cases [of h])
      case (1 h1)
      then show ?thesis using dup by (simp add: the_list_def)
    next
      case (2 h1)
      show ?thesis
      proof (cases rule: cJSON_strdup_cases [of vs h1])
        case (2 h2)
        then show ?thesis using dup \<open>cJSON_New_Item h = _\<close> \<open>h_live h1 = _\<close> by (auto simp: the_list_def deallocate_def)
      next
        case 1
        then show ?thesis
          using dup \<open>cJSON_New_Item h = _\<close> \<open>h_live h1 = _\<close>
          by (cases rule: dup_name_cases [of s t h1])
            (auto simp: the_list_def deallocate_def Let_def split: if_splits prod.splits dest!: kids)
      next
        case (3 h2)
        then show ?thesis
          using dup \<open>cJSON_New_Item h = _\<close> \<open>h_live h1 = _\<close>
          by (cases rule: dup_name_cases [of s t h2])
            (auto simp: the_list_def deallocate_def Let_def split: if_splits prod.splits dest!: kids)
      qed
    qed
  qed
  then show ?case by (auto simp: dup_ok_def)
qed


subsection \<open>Minification\<close>

text \<open>
  \<open>minify_string\<close> takes the quote behind an escaped backslash for an escaped quote, so that
  it gets inside and outside of strings confused: the blank inside the second string of
  \<open>["\\","a b"]\<close> is removed.
\<close>

lemma cJSON_Minify_changes_strings:
  "cJSON_Minify (Some [91, 34, 92, 92, 34, 44, 34, 97, 32, 98, 34, 93]) =
     Some [91, 34, 92, 92, 34, 44, 34, 97, 98, 34, 93]"
  by code_simp

end
