(* ===== verification/Cjson_Print.thy ===== *)
theory Cjson_Print
  imports Cjson
begin

text \<open>
  The printer of \<open>cjson.c\<close>: the growing print buffer, the printing of each kind of item and
  the entry points. The buffer is the memory of its block, so that the C field \<open>length\<close> is
  its length; fresh memory has the contents the allocator's oracle gives it, and a write
  outside the block or a \<open>strlen\<close> without a terminator is \<open>None\<close>. Sizes are natural numbers,
  with the code's own tests against \<open>SIZE_MAX\<close>.
\<close>

record printbuffer =
  pb_buffer :: "bytes option"
  pb_offset :: nat
  pb_depth :: nat
  pb_noalloc :: bool
  pb_format :: bool
  pb_heap :: heap

definition SIZE_MAX :: nat where "SIZE_MAX = 18446744073709551615"

text \<open>The uninitialised bytes of the block that the next allocation returns.\<close>

definition junk :: "heap \<Rightarrow> nat \<Rightarrow> nat \<Rightarrow> bytes" where
  "junk h i j = map (h_fill h (h_calls h)) [i..<j]"

subsection \<open>The buffer\<close>

text \<open>Growing the block to \<open>newsize\<close> bytes, by \<open>realloc\<close> or by hand.\<close>

definition grow :: "printbuffer \<Rightarrow> bytes \<Rightarrow> nat \<Rightarrow> (bool \<times> printbuffer) option" where
  "grow p buf newsize =
     (let (ok, h) = allocate (pb_heap p)
      in if \<not> ok then Some (False, p\<lparr>pb_buffer := None, pb_heap := deallocate h\<rparr>)
         else if h_realloc (pb_heap p) then
           Some (True, p\<lparr>pb_buffer := Some (buf @ junk (pb_heap p) (length buf) newsize),
                         pb_heap := deallocate h\<rparr>)
         else if length buf < pb_offset p + 1 then None
         else Some (True, p\<lparr>pb_buffer := Some (take (pb_offset p + 1) buf @
                              junk (pb_heap p) (pb_offset p + 1) newsize),
                            pb_heap := deallocate h\<rparr>))"

definition ensure :: "printbuffer \<Rightarrow> nat \<Rightarrow> (bool \<times> printbuffer) option" where
  "ensure p needed =
     (case pb_buffer p of
        None \<Rightarrow> Some (False, p)
      | Some buf \<Rightarrow>
          if 0 < length buf \<and> length buf \<le> pb_offset p then Some (False, p)
          else if SIZE_MAX < needed then Some (False, p)
          else let needed = needed + (pb_offset p + 1) in
            if needed \<le> length buf then Some (True, p)
            else if pb_noalloc p then Some (False, p)
            else if SIZE_MAX div 2 < needed then
              (if needed \<le> SIZE_MAX then grow p buf SIZE_MAX else Some (False, p))
            else grow p buf (needed * 2))"

text \<open>Writing bytes at a distance from the offset.\<close>

definition poke :: "printbuffer \<Rightarrow> nat \<Rightarrow> bytes \<Rightarrow> printbuffer option" where
  "poke p i bs =
     (case pb_buffer p of
        None \<Rightarrow> None
      | Some buf \<Rightarrow>
          let q = pb_offset p + i in
          if q + length bs \<le> length buf then
            Some (p\<lparr>pb_buffer := Some (take q buf @ bs @ drop (q + length bs) buf)\<rparr>)
          else None)"

definition update_offset :: "printbuffer \<Rightarrow> printbuffer option" where
  "update_offset p =
     (case pb_buffer p of
        None \<Rightarrow> Some p
      | Some buf \<Rightarrow>
          let rest = drop (pb_offset p) buf in
          if 0 \<in> set rest then
            Some (p\<lparr>pb_offset := pb_offset p + length (takeWhile (\<lambda>c. c \<noteq> 0) rest)\<rparr>)
          else None)"

text \<open>Reserve \<open>needed\<close> bytes, write \<open>bs\<close> there and advance the offset.\<close>

definition put_text :: "printbuffer \<Rightarrow> nat \<Rightarrow> bytes \<Rightarrow> nat \<Rightarrow> (bool \<times> printbuffer) option" where
  "put_text p needed bs advance =
     do { (ok, p) \<leftarrow> ensure p needed;
          if \<not> ok then Some (False, p)
          else do { p \<leftarrow> poke p 0 bs; Some (True, p\<lparr>pb_offset := pb_offset p + advance\<rparr>) } }"

subsection \<open>Scalars\<close>

text \<open>\<open>sprintf\<close> into the 26 bytes of \<open>number_buffer\<close>.\<close>

definition sprintf26 :: "bytes \<Rightarrow> bytes option" where
  "sprintf26 t = (if length t < 26 then Some t else None)"

definition number_text :: "cJSON \<Rightarrow> bytes option" where
  "number_text item =
     (case c_valuedouble item of
        Fin d \<Rightarrow>
          if deq (Fin d) (of_int64 (c_valueint item)) then sprintf26 (format_d (c_valueint item))
          else do { t \<leftarrow> sprintf26 (format_g 15 d);
                    let (test, n) = strtod t;
                    if n = 0 \<or> \<not> compare_double test (Fin d) then sprintf26 (format_g 17 d)
                    else Some t }
      | _ \<Rightarrow> Some (lit ''null''))"

definition print_number :: "cJSON \<Rightarrow> printbuffer \<Rightarrow> (bool \<times> printbuffer) option" where
  "print_number item p =
     do { t \<leftarrow> number_text item; put_text p (length t + 1) (t @ [0]) (length t) }"

definition escape_extra :: "byte \<Rightarrow> nat" where
  "escape_extra c = (if c \<in> {34, 92, 8, 12, 10, 13, 9} then 1 else if c < 32 then 5 else 0)"

definition escape_out :: "byte \<Rightarrow> bytes" where
  "escape_out c =
     (if 31 < c \<and> c \<noteq> 34 \<and> c \<noteq> 92 then [c]
      else 92 # (if c = 92 then [92] else if c = 34 then [34] else if c = 8 then [98]
                 else if c = 12 then [102] else if c = 10 then [110] else if c = 13 then [114]
                 else if c = 9 then [116] else 117 # format_04x c))"

text \<open>
  The terminator that \<open>sprintf\<close> leaves behind a \<open>\u\<close> escape is overwritten by the next
  character or by the closing quote.
\<close>

definition print_string_ptr :: "bytes option \<Rightarrow> printbuffer \<Rightarrow> (bool \<times> printbuffer) option" where
  "print_string_ptr input p =
     (case input of
        None \<Rightarrow> put_text p 3 [34, 34, 0] 0
      | Some s \<Rightarrow>
          let escape_characters = sum_list (map escape_extra s);
              output_length = length s + escape_characters
          in do { (ok, p) \<leftarrow> ensure p (output_length + 3);
                  if \<not> ok then Some (False, p)
                  else if escape_characters = 0 then
                    do { p \<leftarrow> poke p 0 (34 # s @ [34, 0]); Some (True, p) }
                  else do { p \<leftarrow> poke p 0 (34 # concat (map escape_out s));
                            p \<leftarrow> poke p (output_length + 1) [34, 0];
                            Some (True, p) } })"

definition print_string :: "cJSON \<Rightarrow> printbuffer \<Rightarrow> (bool \<times> printbuffer) option" where
  "print_string item p = print_string_ptr (c_valuestring item) p"

definition print_literal :: "string \<Rightarrow> printbuffer \<Rightarrow> (bool \<times> printbuffer) option" where
  "print_literal s p = put_text p (length s + 1) (lit s @ [0]) 0"

definition print_raw :: "cJSON \<Rightarrow> printbuffer \<Rightarrow> (bool \<times> printbuffer) option" where
  "print_raw item p =
     (case c_valuestring item of
        None \<Rightarrow> Some (False, p)
      | Some r \<Rightarrow> put_text p (length r + 1) (r @ [0]) 0)"

subsection \<open>Containers\<close>

text \<open>Run the next step if the one before succeeded.\<close>

definition and_then :: "(bool \<times> 's) option \<Rightarrow> ('s \<Rightarrow> (bool \<times> 's) option) \<Rightarrow> (bool \<times> 's) option" where
  "and_then m f = do { (ok, s) \<leftarrow> m; if ok then f s else Some (False, s) }"

definition print_open_array :: "printbuffer \<Rightarrow> (bool \<times> printbuffer) option" where
  "print_open_array p =
     and_then (put_text p 1 [91] 1) (\<lambda>p. Some (True, p\<lparr>pb_depth := pb_depth p + 1\<rparr>))"

definition print_close_array :: "printbuffer \<Rightarrow> (bool \<times> printbuffer) option" where
  "print_close_array p =
     and_then (put_text p 2 [93, 0] 0) (\<lambda>p. Some (True, p\<lparr>pb_depth := pb_depth p - 1\<rparr>))"

definition print_separator :: "printbuffer \<Rightarrow> (bool \<times> printbuffer) option" where
  "print_separator p =
     (let length = (if pb_format p then 2 else 1)
      in put_text p (length + 1) (44 # (if pb_format p then [32] else []) @ [0]) length)"

definition print_open_object :: "printbuffer \<Rightarrow> (bool \<times> printbuffer) option" where
  "print_open_object p =
     (let length = (if pb_format p then 2 else 1)
      in and_then (put_text p (length + 1) (123 # (if pb_format p then [10] else [])) length)
           (\<lambda>p. Some (True, p\<lparr>pb_depth := pb_depth p + 1\<rparr>)))"

definition print_indent :: "printbuffer \<Rightarrow> (bool \<times> printbuffer) option" where
  "print_indent p =
     (if pb_format p then put_text p (pb_depth p) (replicate (pb_depth p) 9) (pb_depth p)
      else Some (True, p))"

definition print_colon :: "printbuffer \<Rightarrow> (bool \<times> printbuffer) option" where
  "print_colon p =
     (let length = (if pb_format p then 2 else 1)
      in put_text p length (58 # (if pb_format p then [9] else [])) length)"

definition print_comma :: "bool \<Rightarrow> printbuffer \<Rightarrow> (bool \<times> printbuffer) option" where
  "print_comma next_item p =
     (let length = (if pb_format p then 1 else 0) + (if next_item then 1 else 0)
      in put_text p (length + 1)
           ((if next_item then [44] else []) @ (if pb_format p then [10] else []) @ [0]) length)"

definition print_close_object :: "printbuffer \<Rightarrow> (bool \<times> printbuffer) option" where
  "print_close_object p =
     and_then (put_text p (if pb_format p then pb_depth p + 1 else 2)
         ((if pb_format p then replicate (pb_depth p - 1) 9 else []) @ [125, 0]) 0)
       (\<lambda>p. Some (True, p\<lparr>pb_depth := pb_depth p - 1\<rparr>))"

text \<open>A step of which the offset is then moved to the terminator.\<close>

definition then_update :: "(bool \<times> printbuffer) option \<Rightarrow> (bool \<times> printbuffer) option" where
  "then_update m = and_then m (\<lambda>p. map_option (Pair True) (update_offset p))"

fun print_value :: "cJSON \<Rightarrow> printbuffer \<Rightarrow> (bool \<times> printbuffer) option"
  and print_elements :: "cJSON list \<Rightarrow> printbuffer \<Rightarrow> (bool \<times> printbuffer) option"
  and print_members :: "cJSON list \<Rightarrow> printbuffer \<Rightarrow> (bool \<times> printbuffer) option" where
  "print_value (Item t vs vi vd s ch) p =
     (let item = Item t vs vi vd s ch; k = t AND 255
      in if k = cJSON_NULL then print_literal ''null'' p
         else if k = cJSON_False then print_literal ''false'' p
         else if k = cJSON_True then print_literal ''true'' p
         else if k = cJSON_Number then print_number item p
         else if k = cJSON_Raw then print_raw item p
         else if k = cJSON_String then print_string item p
         else if k = cJSON_Array then
           and_then (and_then (print_open_array p) (print_elements ch)) print_close_array
         else if k = cJSON_Object then
           and_then (and_then (print_open_object p) (print_members ch)) print_close_object
         else Some (False, p))"
| "print_elements [] p = Some (True, p)"
| "print_elements (e # es) p =
     and_then (then_update (print_value e p))
       (\<lambda>p. if es \<noteq> [] then and_then (print_separator p) (print_elements es)
            else print_elements es p)"
| "print_members [] p = Some (True, p)"
| "print_members (e # es) p =
     and_then (print_indent p) (\<lambda>p.
       and_then (then_update (print_string_ptr (c_string e) p)) (\<lambda>p.
         and_then (print_colon p) (\<lambda>p.
           and_then (then_update (print_value e p)) (\<lambda>p.
             and_then (print_comma (es \<noteq> []) p) (print_members es)))))"

subsection \<open>Entry points\<close>

text \<open>The bytes of the returned block, and the allocator.\<close>

definition print :: "cJSON \<Rightarrow> bool \<Rightarrow> heap \<Rightarrow> (bytes option \<times> heap) option" where
  "print item format h =
     (let (ok, h') = allocate h
      in if \<not> ok then Some (None, h')
         else do {
           (ok, p) \<leftarrow> then_update (print_value item
             \<lparr>pb_buffer = Some (junk h 0 256), pb_offset = 0, pb_depth = 0, pb_noalloc = False,
              pb_format = format, pb_heap = h'\<rparr>);
           let h = pb_heap p;
           case pb_buffer p of
             None \<Rightarrow> Some (None, h)
           | Some buf \<Rightarrow>
               if \<not> ok then Some (None, deallocate h)
               else let (ok, h') = allocate h; size = pb_offset p + 1
                 in if \<not> ok then Some (None, deallocate h')
                    else if h_realloc h then
                      Some (Some (take size (buf @ junk h (length buf) size)), deallocate h')
                    else Some (Some ((take (min (length buf) size) buf @
                               junk h (min (length buf) size) size)[pb_offset p := 0]),
                               deallocate h') })"

definition cJSON_Print :: "cJSON \<Rightarrow> heap \<Rightarrow> (bytes option \<times> heap) option" where
  "cJSON_Print item h = print item True h"

definition cJSON_PrintUnformatted :: "cJSON \<Rightarrow> heap \<Rightarrow> (bytes option \<times> heap) option" where
  "cJSON_PrintUnformatted item h = print item False h"

definition cJSON_PrintBuffered :: "cJSON \<Rightarrow> int \<Rightarrow> bool \<Rightarrow> heap \<Rightarrow> (bytes option \<times> heap) option" where
  "cJSON_PrintBuffered item prebuffer fmt h =
     (if prebuffer < 0 then Some (None, h)
      else let (ok, h') = allocate h
        in if \<not> ok then Some (None, h')
           else do {
             (ok, p) \<leftarrow> print_value item
               \<lparr>pb_buffer = Some (junk h 0 (nat prebuffer)), pb_offset = 0, pb_depth = 0,
                pb_noalloc = False, pb_format = fmt, pb_heap = h'\<rparr>;
             if \<not> ok then
               Some (None, if pb_buffer p = None then pb_heap p else deallocate (pb_heap p))
             else Some (pb_buffer p, pb_heap p) })"

text \<open>The buffer is the caller's memory; \<open>length\<close> of its bytes may be used.\<close>

definition cJSON_PrintPreallocated ::
  "cJSON \<Rightarrow> bytes option \<Rightarrow> int \<Rightarrow> bool \<Rightarrow> heap \<Rightarrow> (bool \<times> bytes option) option" where
  "cJSON_PrintPreallocated item buffer len format h =
     (case buffer of
        None \<Rightarrow> Some (False, None)
      | Some mem \<Rightarrow>
          if len < 0 then Some (False, buffer)
          else if length mem < nat len then None
          else do {
            (ok, p) \<leftarrow> print_value item
              \<lparr>pb_buffer = Some (take (nat len) mem), pb_offset = 0, pb_depth = 0, pb_noalloc = True,
               pb_format = format, pb_heap = h\<rparr>;
            Some (ok, map_option (\<lambda>buf. buf @ drop (nat len) mem) (pb_buffer p)) })"

end
