(* ===== verification/C_Numbers_Facts.thy ===== *)
theory C_Numbers_Facts
  imports C_Numbers
begin

text \<open>
  Facts about the number conversions: digit counts, the exponent of the leading digit,
  exact rounding of integers below \<open>2^53\<close>, the length of printed numbers and the round trip
  of \<open>format_d\<close> and \<open>strtod\<close> on such integers.
\<close>

subsection \<open>Digits\<close>

lemma ndigits_nonneg: "0 \<le> ndigits b n"
  by (induction b n rule: ndigits.induct) (subst ndigits.simps, auto)

lemma ndigits_bounds:
  assumes "1 < b" "0 < n"
  shows "b ^ nat (ndigits b n - 1) \<le> n \<and> n < b ^ nat (ndigits b n) \<and> 0 < ndigits b n"
  using assms
proof (induction b n rule: ndigits.induct)
  case (1 b n)
  have eq: "ndigits b n = 1 + ndigits b (n div b)" using 1 by (subst ndigits.simps) auto
  show ?case
  proof (cases "n div b = 0")
    case True
    then have "n < b" using 1 by (simp add: int_div_pos_eq zdiv_eq_0_iff)
    moreover have "ndigits b (n div b) = 0" by (subst ndigits.simps) (simp add: True)
    ultimately show ?thesis using eq 1 by simp
  next
    case False
    then have pos: "0 < n div b" using 1 by (simp add: pos_imp_zdiv_nonneg_iff order.not_eq_order_implies_strict)
    define k where "k = ndigits b (n div b)"
    have ih: "b ^ nat (k - 1) \<le> n div b" "n div b < b ^ nat k" "0 < k"
      using 1(1) 1(2,3) pos by (auto simp: k_def)
    have "b ^ nat k = b * b ^ nat (k - 1)"
      using ih(3) by (simp add: nat_diff_distrib flip: power_Suc)
    also have "\<dots> \<le> b * (n div b)" using ih(1) 1(2) by simp
    also have "\<dots> \<le> n" using 1(2) mult_div_mod_eq [of b n] pos_mod_sign [of b n] by linarith
    finally have lo: "b ^ nat k \<le> n" .
    have "n < b * (n div b) + b"
      using 1(2) mult_div_mod_eq [of b n] pos_mod_bound [of b n] by linarith
    then have "n < b * (n div b + 1)" by (simp add: distrib_left)
    also have "\<dots> \<le> b * b ^ nat k" using ih(2) 1(2) by (intro mult_left_mono) auto
    also have "\<dots> = b ^ nat (1 + k)" using ih(3) by (simp add: nat_add_distrib)
    finally show ?thesis using lo ih(3) eq by (simp add: k_def)
  qed
qed

lemma scale_0 [simp]: "scale b 0 = 1"
  by (simp add: scale_def)

lemma scale_powi: "b \<noteq> 0 \<Longrightarrow> scale b e = of_int b powi e"
  by (simp add: scale_def power_int_def divide_inverse power_inverse)

lemma scale_pos: "0 < b \<Longrightarrow> 0 < scale b e"
  by (simp add: scale_def)

lemma scale_add: "0 < b \<Longrightarrow> scale b (e + f) = scale b e * scale b f"
  by (simp add: scale_powi power_int_add)

lemma scale_mono: "1 < b \<Longrightarrow> e \<le> f \<Longrightarrow> scale b e \<le> scale b f"
  by (simp add: scale_powi power_int_increasing)

lemma scale_strict_mono: "1 < b \<Longrightarrow> e < f \<Longrightarrow> scale b e < scale b f"
  by (simp add: scale_powi power_int_strict_increasing)

lemma scale_less_iff: "1 < b \<Longrightarrow> scale b e < scale b f \<longleftrightarrow> e < f"
  by (meson scale_mono scale_strict_mono not_less)

lemma scale_of_nat: "scale b (int n) = of_int (b ^ n)"
  by (simp add: scale_def)

lemma log_floor_bounds:
  assumes b: "1 < b" and x: "0 < x"
  shows "scale b (log_floor b x) \<le> x" "x < scale b (log_floor b x + 1)"
proof -
  obtain p q where pq: "quotient_of x = (p, q)" by fastforce
  have q: "0 < q" using quotient_of_denom_pos [OF pq] .
  have xe: "x = of_int p / of_int q" using quotient_of_div [OF pq] .
  have p: "0 < p" using x q xe by (simp add: zero_less_divide_iff)
  define i j where "i = ndigits b p" and "j = ndigits b q"
  note bp = ndigits_bounds [OF b p, folded i_def] and bq = ndigits_bounds [OF b q, folded j_def]
  have sp: "scale b (i - 1) \<le> of_int p" "of_int p < scale b i"
    using bp by (auto simp: scale_def simp flip: of_int_power)
  have sq: "scale b (j - 1) \<le> of_int q" "of_int q < scale b j"
    using bq by (auto simp: scale_def simp flip: of_int_power)
  have b0: "0 < b" using b by simp
  have "scale b (i - j - 1) * of_int q \<le> scale b (i - j - 1) * scale b j"
    using sq(2) scale_pos [OF b0] by (intro mult_left_mono) (auto intro: less_imp_le)
  also have "\<dots> = scale b (i - 1)" using scale_add [OF b0, of "i - j - 1" j] by simp
  also have "\<dots> \<le> of_int p" by (rule sp(1))
  finally have lo: "scale b (i - j - 1) \<le> x" using q by (simp add: xe pos_le_divide_eq)
  have "of_int p < scale b i" by (rule sp(2))
  also have "\<dots> = scale b (i - j + 1) * scale b (j - 1)" using scale_add [OF b0, of "i - j + 1" "j - 1"] by simp
  also have "\<dots> \<le> scale b (i - j + 1) * of_int q"
    using sq(1) scale_pos [OF b0] by (intro mult_left_mono) (auto intro: less_imp_le)
  finally have hi: "x < scale b (i - j + 1)" using q by (simp add: xe pos_divide_less_eq)
  have "log_floor b x = (if scale b (i - j) \<le> x then i - j else i - j - 1)"
    by (simp add: log_floor_def pq i_def j_def Let_def)
  then show "scale b (log_floor b x) \<le> x" "x < scale b (log_floor b x + 1)"
    using lo hi by (auto split: if_splits)
qed

lemma round_half_even_bounds:
  assumes "of_int a \<le> x" "x \<le> of_int c"
  shows "a \<le> round_half_even x" "round_half_even x \<le> c"
proof -
  have "a \<le> \<lfloor>x\<rfloor>" using assms(1) by (simp add: le_floor_iff)
  then show "a \<le> round_half_even x" by (auto simp: round_half_even_def Let_def)
  show "round_half_even x \<le> c"
  proof (cases "x = of_int \<lfloor>x\<rfloor>")
    case True
    then have "round_half_even x = \<lfloor>x\<rfloor>" by (simp add: round_half_even_def Let_def)
    then show ?thesis using assms(2) True by linarith
  next
    case False
    then have "of_int \<lfloor>x\<rfloor> < x" using of_int_floor_le [of x] by linarith
    then have "\<lfloor>x\<rfloor> + 1 \<le> c" using assms(2) by linarith
    then show ?thesis by (auto simp: round_half_even_def Let_def)
  qed
qed

lemma round_half_even_int [simp]: "round_half_even (of_int n) = n"
  using round_half_even_bounds [of n "of_int n" n] by simp

lemma round64_exact:
  fixes x :: rat
  assumes "0 < x" "x / scale 2 (max (log_floor 2 x - 52) (- 1074)) = of_int k" "x < scale 2 1024"
  shows "round64 x = Fin x" "round64 (- x) = Fin (- x)"
proof -
  let ?e = "max (log_floor 2 x - 52) (- 1074)"
  have "scale 2 ?e \<noteq> 0" using scale_pos [of 2 ?e] by simp
  then have y: "of_int (round_half_even (x / scale 2 ?e)) * scale 2 ?e = x"
    unfolding assms(2) round_half_even_int unfolding assms(2) [symmetric] by simp
  have "\<bar>x\<bar> = x" "\<bar>- x\<bar> = x" "x \<noteq> 0" "- x \<noteq> 0" "0 < x" "\<not> 0 < - x" "\<not> scale 2 1024 \<le> x"
    using assms(1,3) by auto
  note facts = this
  show "round64 x = Fin x" "round64 (- x) = Fin (- x)"
    unfolding round64_def Let_def by (simp_all only: facts y if_False if_True)
qed

lemma round64_int:
  assumes "\<bar>n\<bar> < 2 ^ 53"
  shows "round64 (of_int n) = Fin (of_int n)"
proof (cases "n = 0")
  case False
  define x :: rat where "x = of_int \<bar>n\<bar>"
  have x: "0 < x" using False by (simp add: x_def)
  define e where "e = max (log_floor 2 x - 52) (- 1074)"
  have "of_int \<bar>n\<bar> < (of_int (2 ^ 53) :: rat)" using assms by (simp only: of_int_less_iff)
  then have x53: "x < scale 2 53" unfolding x_def using scale_of_nat [of 2 53] by simp
  have "scale 2 (log_floor 2 x) \<le> x" by (rule log_floor_bounds) (use x in auto)
  then have "scale 2 (log_floor 2 x) < scale 2 53" using x53 by (rule order.strict_trans1)
  then have "log_floor 2 x < 53" by (simp add: scale_less_iff)
  then have e: "e \<le> 0" unfolding e_def by simp
  have "x / scale 2 e = of_int (\<bar>n\<bar> * 2 ^ nat (- e))"
  proof (cases "e = 0")
    case True
    then show ?thesis by (simp add: x_def)
  next
    case False
    then have "\<not> 0 \<le> e" using e by simp
    then show ?thesis by (simp add: scale_def x_def)
  qed
  moreover have "x < scale 2 1024" by (rule order.strict_trans2 [OF x53 scale_mono]) auto
  ultimately have "round64 x = Fin x" "round64 (- x) = Fin (- x)"
    using round64_exact [OF x] unfolding e_def by blast+
  then show ?thesis by (cases "0 \<le> n") (simp_all add: x_def)
qed (simp add: round64_def)

subsection \<open>Printing and reading integers\<close>

lemma digit_val_chr: "0 \<le> d \<Longrightarrow> d < 10 \<Longrightarrow> digit_val (chr_digit d) = d \<and> is_digit (chr_digit d)"
proof -
  assume d: "0 \<le> d" "d < 10"
  have "uint (of_int (48 + d) :: byte) = (48 + d) mod 2 ^ LENGTH(8)" by (rule uint_word_of_int)
  then have u: "uint (of_int (48 + d) :: byte) = 48 + d" using d by simp
  show ?thesis
    unfolding digit_val_def is_digit_def word_le_def u using d by simp
qed

lemma dec_small: "n < 10 \<Longrightarrow> dec n = [chr_digit n]"
  by (subst dec.simps) simp

lemma dec_large: "\<not> n < 10 \<Longrightarrow> dec n = dec (n div 10) @ [chr_digit (n mod 10)]"
  by (subst dec.simps) simp

lemma dec_not_Nil [simp]: "dec n \<noteq> []"
  by (subst dec.simps) simp

lemma dec_digits: "0 \<le> n \<Longrightarrow> \<forall>c \<in> set (dec n). is_digit c"
proof (induction n rule: dec.induct)
  case (1 n)
  show ?case
  proof (cases "n < 10")
    case True
    then show ?thesis using 1(2) digit_val_chr [of n] by (simp add: dec_small)
  next
    case False
    then show ?thesis using 1 digit_val_chr [of "n mod 10"] by (simp add: dec_large)
  qed
qed

lemma digits_val_snoc: "digits_val (ds @ [c]) = 10 * digits_val ds + digit_val c"
  by (simp add: digits_val_def)

lemma digits_val_dec: "0 \<le> n \<Longrightarrow> digits_val (dec n) = n"
proof (induction n rule: dec.induct)
  case (1 n)
  show ?case
  proof (cases "n < 10")
    case True
    then show ?thesis using 1(2) digit_val_chr [of n] by (simp add: dec_small digits_val_def)
  next
    case False
    then show ?thesis
      using 1 digit_val_chr [of "n mod 10"] by (simp add: dec_large digits_val_snoc)
  qed
qed

lemma length_dec: "0 < n \<Longrightarrow> int (length (dec n)) = ndigits 10 n"
proof (induction n rule: dec.induct)
  case (1 n)
  show ?case
  proof (cases "n < 10")
    case True
    then have "ndigits 10 (n div 10) = 0" using 1(2) by (subst ndigits.simps) auto
    then show ?thesis using True 1(2) by (subst ndigits.simps) (simp add: dec_small)
  next
    case False
    then show ?thesis using 1 by (subst ndigits.simps) (simp add: dec_large)
  qed
qed

lemma length_dec_eq:
  assumes "10 ^ k \<le> n" "n < 10 ^ Suc k"
  shows "length (dec n) = Suc k"
proof -
  have n: "0 < n" by (rule less_le_trans [OF _ assms(1)]) simp
  define d where "d = nat (ndigits 10 n)"
  have d: "ndigits 10 n = int d" "0 < d" "10 ^ (d - 1) \<le> n" "n < 10 ^ d"
    using ndigits_bounds [of 10 n] n by (auto simp: d_def nat_diff_distrib)
  have "(10::int) ^ k < 10 ^ d" using assms(1) d(4) by linarith
  then have "k < d" by (rule power_less_imp_less_exp [rotated]) simp
  moreover have "(10::int) ^ (d - 1) < 10 ^ Suc k" using assms(2) d(3) by linarith
  then have "d - 1 < Suc k" by (rule power_less_imp_less_exp [rotated]) simp
  ultimately show ?thesis using length_dec [OF n] d(1) by simp
qed

lemma length_dec_le: "0 \<le> n \<Longrightarrow> n < 10 ^ k \<Longrightarrow> 0 < k \<Longrightarrow> length (dec n) \<le> k"
proof (cases "n = 0")
  case False
  assume a: "0 \<le> n" "n < 10 ^ k" "0 < k"
  then have n: "0 < n" using False by simp
  define d where "d = nat (ndigits 10 n)"
  have d: "ndigits 10 n = int d" "10 ^ (d - 1) \<le> n"
    using ndigits_bounds [of 10 n] n by (auto simp: d_def nat_diff_distrib)
  have "(10::int) ^ (d - 1) < 10 ^ k" using a(2) d(2) by linarith
  then have "d - 1 < k" by (rule power_less_imp_less_exp [rotated]) simp
  then show ?thesis using length_dec [OF n] d(1) by simp
qed (simp add: dec_small)

lemma is_digit_not_sign: "is_digit c \<Longrightarrow> c \<noteq> 45 \<and> c \<noteq> 43 \<and> c \<noteq> 46 \<and> c \<noteq> 101 \<and> c \<noteq> 69 \<and> c \<noteq> 0"
  by (auto simp: is_digit_def)

lemma takeWhile_dec: "0 \<le> n \<Longrightarrow> takeWhile is_digit (dec n) = dec n"
  using dec_digits by (simp add: takeWhile_eq_all_conv)

lemma strtod_digits:
  assumes "ds \<noteq> []" "\<forall>c \<in> set ds. is_digit c"
  shows "strtod ds = (round64 (of_int (digits_val ds)), length ds)"
    and "strtod (45 # ds) = (round64 (- of_int (digits_val ds)), Suc (length ds))"
proof -
  have tw: "takeWhile is_digit ds = ds" using assms(2) by (simp add: takeWhile_eq_all_conv)
  have "is_digit (hd ds)" using assms by simp
  then have "sign_of ds = (False, 0)"
    using assms(1) is_digit_not_sign by (cases ds) (auto simp: sign_of_def)
  then show "strtod ds = (round64 (of_int (digits_val ds)), length ds)"
    using assms(1) by (simp add: strtod_def Let_def strtod_exponent_def tw)
  have "sign_of (45 # ds) = (True, 1)" by (simp add: sign_of_def)
  then show "strtod (45 # ds) = (round64 (- of_int (digits_val ds)), Suc (length ds))"
    using assms(1) by (simp add: strtod_def Let_def strtod_exponent_def tw)
qed

lemma strtod_format_d: "strtod (format_d n) = (round64 (of_int n), length (format_d n))"
proof (cases "n < 0")
  case True
  then show ?thesis
    using strtod_digits(2) [of "dec (- n)"] dec_digits [of "- n"] digits_val_dec [of "- n"]
    by (simp add: format_d_def)
next
  case False
  then show ?thesis
    using strtod_digits(1) [of "dec n"] dec_digits [of n] digits_val_dec [of n]
    by (simp add: format_d_def)
qed

lemma length_format_d:
  assumes "- (2 ^ 63) \<le> n" "n < 2 ^ 63"
  shows "length (format_d n) \<le> 20"
  using assms length_dec_le [of n 19] length_dec_le [of "- n" 19] by (auto simp: format_d_def)

subsection \<open>Printing doubles\<close>

text \<open>The finite values of a \<open>double\<close> lie in this range.\<close>

definition double_range :: "rat \<Rightarrow> bool" where
  "double_range x \<longleftrightarrow> x = 0 \<or> scale 2 (- 1074) \<le> \<bar>x\<bar> \<and> \<bar>x\<bar> < scale 2 1024"

lemma double_range_10:
  assumes "double_range x" "x \<noteq> 0"
  shows "scale 10 (- 400) \<le> \<bar>x\<bar>" "\<bar>x\<bar> < scale 10 400"
proof -
  have "scale 10 (- 400) \<le> scale 2 (- 1074)" by (simp add: scale_def)
  then show "scale 10 (- 400) \<le> \<bar>x\<bar>" using assms by (auto simp: double_range_def)
  have "scale 2 1024 \<le> scale 10 400" by (simp add: scale_def)
  then show "\<bar>x\<bar> < scale 10 400" using assms by (auto simp: double_range_def)
qed

lemma leading_exponent:
  assumes "double_range x" "x \<noteq> 0"
  shows "- 400 \<le> log_floor 10 \<bar>x\<bar>" "log_floor 10 \<bar>x\<bar> < 400"
proof -
  note r = double_range_10 [OF assms]
  have x: "0 < \<bar>x\<bar>" using assms by simp
  note l = log_floor_bounds [of 10, OF _ x]
  have "scale 10 (- 400) < scale 10 (log_floor 10 \<bar>x\<bar> + 1)" using r(1) l(2) by simp
  then have "- 400 < log_floor 10 \<bar>x\<bar> + 1" by (simp only: scale_less_iff)
  then show "- 400 \<le> log_floor 10 \<bar>x\<bar>" by simp
  have "scale 10 (log_floor 10 \<bar>x\<bar>) < scale 10 400" using r(2) l(1) by simp
  then show "log_floor 10 \<bar>x\<bar> < 400" by (simp only: scale_less_iff)
qed

lemma significand_bounds:
  assumes "x \<noteq> 0" "0 < P"
    and m: "m = round_half_even (\<bar>x\<bar> / scale 10 (log_floor 10 \<bar>x\<bar> - int P + 1))"
  shows "10 ^ (P - 1) \<le> m" "m \<le> 10 ^ P"
proof -
  let ?e = "log_floor 10 \<bar>x\<bar>"
  have x: "0 < \<bar>x\<bar>" using assms by simp
  have l: "scale 10 ?e \<le> \<bar>x\<bar>" "\<bar>x\<bar> \<le> scale 10 (?e + 1)"
    using log_floor_bounds [of 10 "\<bar>x\<bar>"] x by auto
  have s: "0 < scale 10 (?e - int P + 1)" by (rule scale_pos) simp
  have "of_int (10 ^ (P - 1)) * scale 10 (?e - int P + 1) = scale 10 ?e"
    using scale_add [of 10 "int (P - 1)" "?e - int P + 1"] scale_of_nat [of 10 "P - 1"] assms(2)
    by (simp add: of_nat_diff)
  then have 1: "of_int (10 ^ (P - 1)) \<le> \<bar>x\<bar> / scale 10 (?e - int P + 1)"
    using l(1) s by (simp only: pos_le_divide_eq)
  have "of_int (10 ^ P) * scale 10 (?e - int P + 1) = scale 10 (?e + 1)"
    using scale_add [of 10 "int P" "?e - int P + 1"] scale_of_nat [of 10 P] by simp
  then have 2: "\<bar>x\<bar> / scale 10 (?e - int P + 1) \<le> of_int (10 ^ P)"
    using l(2) s by (simp only: pos_divide_le_eq)
  show "10 ^ (P - 1) \<le> m" "m \<le> 10 ^ P"
    unfolding m using round_half_even_bounds [OF 1 2] by auto
qed

lemma strip_zeros_subset: "set (strip_zeros ds) \<subseteq> set ds" "length (strip_zeros ds) \<le> length ds"
proof -
  show "set (strip_zeros ds) \<subseteq> set ds"
    by (auto simp: strip_zeros_def dest: set_dropWhileD)
  show "length (strip_zeros ds) \<le> length ds"
    using length_dropWhile_le [of "\<lambda>c. c = 48" "rev ds"] by (simp add: strip_zeros_def)
qed

lemma fraction_subset: "set (fraction ds) \<subseteq> insert 46 (set ds)" "length (fraction ds) \<le> Suc (length ds)"
  using strip_zeros_subset [of ds] by (auto simp: fraction_def Let_def)

lemma fraction_chars: "\<forall>c \<in> set ds. is_digit c \<Longrightarrow> c \<in> set (fraction ds) \<Longrightarrow> is_digit c \<or> c = 46"
  using fraction_subset(1) [of ds] by auto

definition printed_number_char :: "byte \<Rightarrow> bool" where
  "printed_number_char c \<longleftrightarrow> is_digit c \<or> c \<in> {43, 45, 46, 101}"

lemma format_fixed_facts:
  assumes "\<forall>c \<in> set ds. is_digit c" "- 4 \<le> e"
  shows "\<forall>c \<in> set (format_fixed ds e). printed_number_char c"
    and "length (format_fixed ds e) \<le> length ds + 5"
proof -
  have d48: "is_digit 48" by (simp add: is_digit_def)
  show "\<forall>c \<in> set (format_fixed ds e). printed_number_char c"
  proof (cases "0 \<le> e")
    case True
    then show ?thesis
      using assms fraction_chars [of "drop (nat e + 1) ds"]
      by (auto simp: format_fixed_def printed_number_char_def dest: in_set_takeD in_set_dropD)
  next
    case False
    have "\<forall>c \<in> set (replicate (nat (- e) - 1) 48 @ ds). is_digit c"
      using assms(1) d48 by auto
    from fraction_chars [OF this] False show ?thesis
      using d48 by (auto simp: format_fixed_def printed_number_char_def)
  qed
  show "length (format_fixed ds e) \<le> length ds + 5"
    using fraction_subset(2) [of "drop (nat e + 1) ds"]
      fraction_subset(2) [of "replicate (nat (- e) - 1) 48 @ ds"] assms(2)
    by (auto simp: format_fixed_def)
qed

lemma format_exp_facts:
  assumes "\<forall>c \<in> set ds. is_digit c" "\<bar>e\<bar> < 1000"
  shows "\<forall>c \<in> set (format_exp ds e). printed_number_char c"
    and "length (format_exp ds e) \<le> length ds + 6"
proof -
  have d48: "is_digit 48" by (simp add: is_digit_def)
  show "\<forall>c \<in> set (format_exp ds e). printed_number_char c"
  proof -
    have "\<forall>c \<in> set (drop 1 ds). is_digit c" using assms(1) by (auto dest: in_set_dropD)
    from fraction_chars [OF this] show ?thesis
      using assms(1) d48 dec_digits [of "\<bar>e\<bar>"]
      by (auto simp: format_exp_def printed_number_char_def dest: in_set_takeD)
  qed
  have "length (fraction (drop 1 ds)) \<le> length ds" if "ds \<noteq> []"
    using fraction_subset(2) [of "drop 1 ds"] that by (cases ds) auto
  moreover have "length (fraction []) = 0" by (simp add: fraction_def strip_zeros_def)
  moreover have "length ((if \<bar>e\<bar> < 10 then [48 :: byte] else []) @ dec \<bar>e\<bar>) \<le> 3"
    using length_dec_le [of "\<bar>e\<bar>" 3] assms(2) by (auto simp: dec_small)
  ultimately show "length (format_exp ds e) \<le> length ds + 6"
    by (cases "ds = []") (auto simp: format_exp_def)
qed

lemma format_g_facts:
  assumes "double_range x" "0 < P"
  shows "\<forall>c \<in> set (format_g P x). printed_number_char c" "length (format_g P x) \<le> P + 7"
    "format_g P x \<noteq> []"
proof -
  have all: "(\<forall>c \<in> set (format_g P x). printed_number_char c) \<and> length (format_g P x) \<le> P + 7"
  proof (cases "x = 0")
    case True
    then show ?thesis by (simp add: format_g_def printed_number_char_def is_digit_def)
  next
    case False
    define e where "e = log_floor 10 \<bar>x\<bar>"
    define m where "m = round_half_even (\<bar>x\<bar> / scale 10 (e - int P + 1))"
    define m' e' where "m' = (if m = 10 ^ P then m div 10 else m)" and "e' = (if m = 10 ^ P then e + 1 else e)"
    have mb: "10 ^ (P - 1) \<le> m" "m \<le> 10 ^ P"
      using significand_bounds [OF False assms(2)] by (auto simp: m_def e_def)
    have p10: "(10::int) ^ P = 10 * 10 ^ (P - 1)" using assms(2) by (cases P) auto
    have m': "10 ^ (P - 1) \<le> m'" "m' < 10 ^ Suc (P - 1)"
      using mb p10 by (auto simp: m'_def)
    have len: "length (dec m') = P" using length_dec_eq [OF m'] assms(2) by simp
    have "0 \<le> m'" by (rule order_trans [OF _ m'(1)]) simp
    then have dig: "\<forall>c \<in> set (dec m'). is_digit c" by (rule dec_digits)
    have e': "\<bar>e'\<bar> < 1000"
      using leading_exponent [OF assms(1) False] by (auto simp: e'_def e_def)
    have eq: "format_g P x = (if x < 0 then [45] else []) @
        (if - 4 \<le> e' \<and> e' < int P then format_fixed (dec m') e' else format_exp (dec m') e')"
      unfolding format_g_def Let_def e_def [symmetric] m_def [symmetric] m'_def e'_def
      using False by (cases "m = 10 ^ P") (simp_all only: if_True if_False prod.case simp_thms)
    show ?thesis
      unfolding eq using format_fixed_facts [OF dig, of e'] format_exp_facts [OF dig e'] len
      by (auto simp: printed_number_char_def)
  qed
  then show "\<forall>c \<in> set (format_g P x). printed_number_char c" "length (format_g P x) \<le> P + 7" by auto
  show "format_g P x \<noteq> []"
    by (auto simp: format_g_def Let_def format_fixed_def format_exp_def split: prod.splits)
qed

end
