(* ===== verification/Cjson_Print_Safe.thy ===== *)
theory Cjson_Print_Safe
  imports Cjson_Print C_Numbers_Facts
begin

text \<open>
  The printer against a specification: \<open>render\<close> gives the text of an item, and printing into
  a buffer writes exactly that text and a terminator, never outside the buffer, or reports
  failure; it does succeed when the buffer is two bytes longer than the text, or can grow.
\<close>

subsection \<open>The text of an item\<close>

definition quoted :: "bytes option \<Rightarrow> bytes" where
  "quoted s = (case s of None \<Rightarrow> [34, 34] | Some s \<Rightarrow> 34 # concat (map escape_out s) @ [34])"

definition cat :: "bytes option \<Rightarrow> bytes option \<Rightarrow> bytes option" where
  "cat a b = (case a of None \<Rightarrow> None | Some x \<Rightarrow> map_option (\<lambda>y. x @ y) b)"

definition fmt :: "bool \<Rightarrow> bytes \<Rightarrow> bytes" where
  "fmt format s = (if format then s else [])"

fun render :: "bool \<Rightarrow> nat \<Rightarrow> cJSON \<Rightarrow> bytes option"
  and render_elements :: "bool \<Rightarrow> nat \<Rightarrow> cJSON list \<Rightarrow> bytes option"
  and render_members :: "bool \<Rightarrow> nat \<Rightarrow> cJSON list \<Rightarrow> bytes option" where
  "render f d (Item t vs vi vd s ch) =
     (let k = t AND 255
      in if k = cJSON_NULL then Some (lit ''null'')
         else if k = cJSON_False then Some (lit ''false'')
         else if k = cJSON_True then Some (lit ''true'')
         else if k = cJSON_Number then number_text (Item t vs vi vd s ch)
         else if k = cJSON_Raw then vs
         else if k = cJSON_String then Some (quoted vs)
         else if k = cJSON_Array then
           cat (cat (Some [91]) (render_elements f (d + 1) ch)) (Some [93])
         else if k = cJSON_Object then
           cat (cat (Some (123 # fmt f [10])) (render_members f (d + 1) ch))
             (Some (fmt f (replicate d 9) @ [125]))
         else None)"
| "render_elements f d [] = Some []"
| "render_elements f d (e # es) =
     cat (render f d e)
       (if es \<noteq> [] then cat (Some (44 # fmt f [32])) (render_elements f d es) else render_elements f d es)"
| "render_members f d [] = Some []"
| "render_members f d (e # es) =
     cat (Some (fmt f (replicate d 9))) (cat (Some (quoted (c_string e))) (cat (Some (58 # fmt f [9]))
       (cat (render f d e) (cat (Some ((if es \<noteq> [] then [44] else []) @ fmt f [10])) (render_members f d es)))))"

text \<open>Items whose strings are C strings and whose numbers are doubles with their \<open>int64_t\<close> value.\<close>

definition number_ok :: "cJSON \<Rightarrow> bool" where
  "number_ok i \<longleftrightarrow> - (2 ^ 63) \<le> c_valueint i \<and> c_valueint i < 2 ^ 63 \<and>
     (case c_valuedouble i of Fin x \<Rightarrow> double_range x | _ \<Rightarrow> True)"

definition cstring_ok :: "bytes option \<Rightarrow> bool" where
  "cstring_ok s = (case s of None \<Rightarrow> True | Some b \<Rightarrow> 0 \<notin> set b)"

fun json_ok :: "cJSON \<Rightarrow> bool" where
  "json_ok (Item t vs vi vd s ch) \<longleftrightarrow>
     cstring_ok vs \<and> cstring_ok s \<and> number_ok (Item t vs vi vd s ch) \<and> (\<forall>c \<in> set ch. json_ok c)"

lemma json_ok_string: "json_ok e \<Longrightarrow> cstring_ok (c_string e)"
  by (cases e) simp

lemma number_text_ok:
  assumes "number_ok i"
  obtains t where "number_text i = Some t" "0 \<notin> set t" "t \<noteq> []" "length t < 26"
    "(\<forall>c \<in> set t. printed_number_char c) \<or> t = lit ''null''"
proof (cases "c_valuedouble i")
  case (Fin x)
  have r: "double_range x" using assms Fin by (simp add: number_ok_def)
  have nz: "\<forall>c \<in> set t. printed_number_char c \<Longrightarrow> 0 \<notin> set t" for t
    by (auto simp: printed_number_char_def is_digit_def)
  note g15 = format_g_facts [OF r, of 15] and g17 = format_g_facts [OF r, of 17]
  have d: "length (format_d (c_valueint i)) \<le> 20"
    by (rule length_format_d) (use assms in \<open>auto simp: number_ok_def\<close>)
  have dc: "\<forall>c \<in> set (format_d (c_valueint i)). printed_number_char c"
    using dec_digits [of "c_valueint i"] dec_digits [of "- c_valueint i"]
    by (auto simp: format_d_def printed_number_char_def)
  have dn: "format_d (c_valueint i) \<noteq> []" by (simp add: format_d_def)
  have "number_text i \<in> {Some (format_d (c_valueint i)), Some (format_g 15 x), Some (format_g 17 x)}"
    using Fin d g15(2) g17(2) by (simp add: number_text_def sprintf26_def case_prod_beta)
  then show ?thesis
    using that [of "format_d (c_valueint i)"] that [of "format_g 15 x"] that [of "format_g 17 x"]
      nz dc dn d g15 g17 by auto
qed (use that [of "lit ''null''"] in \<open>simp_all add: number_text_def lit_def\<close>)

lemma length_escape_out: "length (escape_out c) = Suc (escape_extra c)"
  by (auto simp: escape_out_def escape_extra_def format_04x_def word_less_nat_alt word_le_nat_alt not_less)

lemma length_escaped: "length (concat (map escape_out s)) = length s + sum_list (map escape_extra s)"
  by (induction s) (auto simp: length_escape_out)

lemma not_escaped: "sum_list (map escape_extra s) = 0 \<Longrightarrow> concat (map escape_out s) = s"
  by (induction s) (auto simp: escape_out_def escape_extra_def word_less_nat_alt word_le_nat_alt split: if_splits)

lemma hex_char_nz: "n < 16 \<Longrightarrow> hex_char n \<noteq> 0"
proof -
  assume "n < 16"
  then have "unat (hex_char n) \<noteq> 0"
    by (simp add: hex_char_def unat_word_ariths unat_of_nat)
  then show ?thesis by auto
qed

lemma escape_out_nz: "c \<noteq> 0 \<Longrightarrow> 0 \<notin> set (escape_out c)"
proof -
  assume c: "c \<noteq> 0"
  have "hex_char (unat c div 16) \<noteq> 0" "hex_char (unat c mod 16) \<noteq> 0"
    using unat_lt_byte [of c] by (auto intro!: hex_char_nz simp del: unat_lt_byte)
  then show ?thesis using c by (auto simp: escape_out_def format_04x_def)
qed

lemma quoted_nz: "cstring_ok s \<Longrightarrow> 0 \<notin> set (quoted s)"
proof (cases s)
  case (Some b)
  assume "cstring_ok s"
  then have "0 \<notin> set (escape_out c)" if "c \<in> set b" for c
    using that Some by (intro escape_out_nz) (auto simp: cstring_ok_def)
  then show ?thesis using Some by (auto simp: quoted_def)
qed (simp add: quoted_def)

subsection \<open>Buffers that printing leaves usable\<close>

definition pb_inv :: "printbuffer \<Rightarrow> bool" where
  "pb_inv p \<longleftrightarrow> (\<exists>buf. pb_buffer p = Some buf \<and>
     (pb_offset p < length buf \<or>
      buf = [] \<and> pb_offset p = 0 \<and> (h_realloc (pb_heap p) \<or> pb_noalloc p)))"

definition text_of :: "printbuffer \<Rightarrow> bytes" where
  "text_of p = take (pb_offset p) (the (pb_buffer p))"

definition capacity :: "printbuffer \<Rightarrow> nat" where
  "capacity p = length (the (pb_buffer p))"

text \<open>What every step leaves alone; a failing step may have freed the buffer.\<close>

definition frame :: "printbuffer \<Rightarrow> printbuffer \<Rightarrow> bool" where
  "frame p p' \<longleftrightarrow> pb_noalloc p' = pb_noalloc p \<and> pb_format p' = pb_format p \<and>
     h_ok (pb_heap p') = h_ok (pb_heap p) \<and> h_realloc (pb_heap p') = h_realloc (pb_heap p) \<and>
     h_live (pb_heap p') = h_live (pb_heap p) - (if pb_buffer p' = None then 1 else 0) \<and>
     (pb_noalloc p \<longrightarrow> pb_buffer p' \<noteq> None \<and> capacity p' = capacity p)"

text \<open>There is room for \<open>n\<close> more bytes of text, or the buffer can grow.\<close>

definition room :: "printbuffer \<Rightarrow> nat \<Rightarrow> bool" where
  "room p n \<longleftrightarrow>
     (if pb_noalloc p then pb_offset p + n + 2 \<le> capacity p \<and> capacity p \<le> SIZE_MAX
      else (\<forall>k. h_ok (pb_heap p) k) \<and> pb_offset p + n + 2 \<le> SIZE_MAX div 2)"

definition appended :: "printbuffer \<Rightarrow> bytes \<Rightarrow> nat \<Rightarrow> printbuffer \<Rightarrow> bool" where
  "appended p t d p' \<longleftrightarrow> pb_inv p' \<and> frame p p' \<and> pb_depth p' = d \<and>
     pb_offset p' = pb_offset p + length t \<and> text_of p' = text_of p @ t"

definition prints :: "printbuffer \<Rightarrow> bytes option \<Rightarrow> nat \<Rightarrow> (bool \<times> printbuffer) option \<Rightarrow> bool" where
  "prints p txt d m \<longleftrightarrow> wp (\<lambda>ok p'. frame p p' \<and>
     (case txt of None \<Rightarrow> \<not> ok | Some t \<Rightarrow> (room p (length t) \<longrightarrow> ok) \<and> (ok \<longrightarrow> appended p t d p'))) m"

lemma pb_frame_refl [simp]: "pb_inv p \<Longrightarrow> frame p p"
  by (auto simp: frame_def pb_inv_def)

lemma pb_frame_trans: "frame p p' \<Longrightarrow> pb_inv p' \<Longrightarrow> frame p' p'' \<Longrightarrow> frame p p''"
  by (auto simp: frame_def pb_inv_def)

lemma appended_trans:
  assumes "appended p t d p'" "appended p' u d' p''"
  shows "appended p (t @ u) d' p''"
  using assms pb_frame_trans [of p p' p''] by (auto simp: appended_def)

lemma room_appended: "appended p t d p' \<Longrightarrow> room p (length t + n) \<Longrightarrow> room p' n"
  by (auto simp: room_def appended_def frame_def split: if_splits)

lemma room_mono: "room p n \<Longrightarrow> k \<le> n \<Longrightarrow> room p k"
  by (auto simp: room_def split: if_splits)

lemma prints_and_then:
  assumes m: "prints p a d m"
    and f: "\<And>t p'. a = Some t \<Longrightarrow> appended p t d p' \<Longrightarrow> prints p' b d' (f p')"
  shows "prints p (cat a b) d' (and_then m f)"
proof -
  obtain ok p' where m': "m = Some (ok, p')" "frame p p'"
    "case a of None \<Rightarrow> \<not> ok | Some t \<Rightarrow> (room p (length t) \<longrightarrow> ok) \<and> (ok \<longrightarrow> appended p t d p')"
    using m by (auto simp: prints_def wp_ex)
  show ?thesis
  proof (cases ok)
    case False
    then show ?thesis
      using m' room_mono [of p] by (auto simp: prints_def and_then_def cat_def split: option.splits)
  next
    case True
    then obtain t where a: "a = Some t" and ap: "appended p t d p'" using m'(3) by (auto split: option.splits)
    then have inv: "pb_inv p'" by (simp add: appended_def)
    obtain ok2 p2 where f': "f p' = Some (ok2, p2)" "frame p' p2"
      "case b of None \<Rightarrow> \<not> ok2 | Some u \<Rightarrow> (room p' (length u) \<longrightarrow> ok2) \<and> (ok2 \<longrightarrow> appended p' u d' p2)"
      using f [OF a ap] by (auto simp: prints_def wp_ex)
    have "frame p p2" by (rule pb_frame_trans [OF m'(2) inv f'(2)])
    then show ?thesis
      using m'(1) True f' a room_appended [OF ap] appended_trans [OF ap]
      by (auto simp: prints_def and_then_def cat_def split: option.splits)
  qed
qed

lemma prints_Nil: "pb_inv p \<Longrightarrow> prints p (Some []) (pb_depth p) (Some (True, p))"
  by (simp add: prints_def appended_def)

text \<open>Setting the depth and doing nothing else.\<close>

lemma prints_depth:
  "pb_inv p \<Longrightarrow> prints p (Some []) d (Some (True, p\<lparr>pb_depth := d\<rparr>))"
  by (auto simp: prints_def appended_def pb_inv_def frame_def capacity_def text_of_def)

subsection \<open>Reserving and writing\<close>

definition reserved :: "printbuffer \<Rightarrow> nat \<Rightarrow> printbuffer \<Rightarrow> bool" where
  "reserved p needed p' \<longleftrightarrow> frame p p' \<and> pb_depth p' = pb_depth p \<and> pb_offset p' = pb_offset p \<and>
     text_of p' = text_of p \<and> pb_buffer p' \<noteq> None \<and> pb_offset p + needed < capacity p'"

lemma junk_length [simp]: "length (junk h i j) = j - i"
  by (simp add: junk_def)

lemma grow_ok:
  assumes p: "pb_inv p" "pb_buffer p = Some buf" "\<not> pb_noalloc p"
    and s: "length buf \<le> newsize" "pb_offset p + needed < newsize"
  shows "wp (\<lambda>ok p'. frame p p' \<and> ((\<forall>k. h_ok (pb_heap p) k) \<longrightarrow> ok) \<and> (ok \<longrightarrow> reserved p needed p'))
     (grow p buf newsize)"
proof -
  have "pb_offset p \<le> length buf" using p by (auto simp: pb_inv_def)
  moreover have "\<not> h_realloc (pb_heap p) \<Longrightarrow> pb_offset p < length buf" using p by (auto simp: pb_inv_def)
  ultimately show ?thesis
    using p s
    by (cases "h_ok (pb_heap p) (h_calls (pb_heap p))"; cases "h_realloc (pb_heap p)")
      (auto simp: grow_def allocate_def deallocate_def Let_def frame_def reserved_def text_of_def capacity_def)
qed

lemma ensure_ok:
  assumes "pb_inv p" "needed \<le> n + 1"
  shows "wp (\<lambda>ok p'. frame p p' \<and> (room p n \<longrightarrow> ok) \<and> (ok \<longrightarrow> reserved p needed p')) (ensure p needed)"
proof -
  obtain buf where buf: "pb_buffer p = Some buf" using assms(1) by (auto simp: pb_inv_def)
  have cap: "capacity p = length buf" using buf by (simp add: capacity_def)
  have off: "pb_offset p < length buf \<or> buf = [] \<and> pb_offset p = 0" using assms(1) buf by (auto simp: pb_inv_def)
  have fr: "frame p p" using assms(1) by simp
  consider (big) "SIZE_MAX < needed" | (fits) "needed \<le> SIZE_MAX" "needed + (pb_offset p + 1) \<le> length buf"
    | (full) "needed \<le> SIZE_MAX" "length buf < needed + (pb_offset p + 1)" "pb_noalloc p"
    | (huge) "needed \<le> SIZE_MAX" "length buf < needed + (pb_offset p + 1)" "\<not> pb_noalloc p"
        "SIZE_MAX div 2 < needed + (pb_offset p + 1)"
    | (grow) "needed \<le> SIZE_MAX" "length buf < needed + (pb_offset p + 1)" "\<not> pb_noalloc p"
        "needed + (pb_offset p + 1) \<le> SIZE_MAX div 2" by linarith
  then show ?thesis
  proof cases
    case big
    then show ?thesis
      using buf off fr assms(2) by (auto simp: ensure_def room_def cap SIZE_MAX_def)
  next
    case fits
    then show ?thesis
      using buf off fr by (auto simp: ensure_def reserved_def cap)
  next
    case full
    then show ?thesis
      using buf off fr assms(2) by (auto simp: ensure_def room_def cap Let_def)
  next
    case huge
    then have nr: "\<not> room p n" using assms(2) by (auto simp: room_def)
    show ?thesis
    proof (cases "needed + (pb_offset p + 1) \<le> SIZE_MAX")
      case True
      have "wp (\<lambda>ok p'. frame p p' \<and> ((\<forall>k. h_ok (pb_heap p) k) \<longrightarrow> ok) \<and> (ok \<longrightarrow> reserved p needed p'))
          (grow p buf SIZE_MAX)"
        using huge True by (intro grow_ok assms(1) buf) auto
      then show ?thesis
        using huge True buf off nr by (auto simp: ensure_def Let_def elim!: wp_mono)
    next
      case False
      then show ?thesis using huge buf off fr nr by (auto simp: ensure_def Let_def)
    qed
  next
    case grow
    have "wp (\<lambda>ok p'. frame p p' \<and> ((\<forall>k. h_ok (pb_heap p) k) \<longrightarrow> ok) \<and> (ok \<longrightarrow> reserved p needed p'))
        (Cjson_Print.grow p buf ((needed + (pb_offset p + 1)) * 2))"
      using grow by (intro grow_ok assms(1) buf) auto
    then have "wp (\<lambda>ok p'. frame p p' \<and> (room p n \<longrightarrow> ok) \<and> (ok \<longrightarrow> reserved p needed p'))
        (Cjson_Print.grow p buf ((needed + (pb_offset p + 1)) * 2))"
      by (rule wp_mono) (use grow in \<open>auto simp: room_def\<close>)
    then show ?thesis using grow buf off by (auto simp: ensure_def Let_def)
  qed
qed

lemma poke_ok:
  assumes "reserved p needed p'" "length bs \<le> needed + 1"
  obtains rest where "poke p' 0 bs = Some (p'\<lparr>pb_buffer := Some (text_of p @ bs @ rest)\<rparr>)"
    "length (text_of p @ bs @ rest) = capacity p'"
proof -
  obtain buf where buf: "pb_buffer p' = Some buf" using assms by (auto simp: reserved_def)
  have len: "pb_offset p' + needed < length buf" using assms buf by (auto simp: reserved_def capacity_def)
  have t: "take (pb_offset p') buf = text_of p" using assms buf by (auto simp: reserved_def text_of_def)
  show ?thesis
    by (rule that [of "drop (pb_offset p' + length bs) buf"])
      (use len assms(2) in \<open>auto simp: poke_def buf Let_def t capacity_def simp flip: t\<close>)
qed

lemma length_text_of [simp]: "pb_inv p \<Longrightarrow> length (text_of p) = pb_offset p"
  by (auto simp: pb_inv_def text_of_def)

text \<open>The buffer after a write behind its text.\<close>

lemma appended_write:
  assumes p: "pb_inv p" and r: "reserved p needed p'" and t: "length t \<le> needed"
    and len: "length (text_of p @ t @ rest) = capacity p'" and d: "d = pb_depth p"
  shows "appended p t d (p'\<lparr>pb_buffer := Some (text_of p @ t @ rest), pb_offset := pb_offset p + length t\<rparr>)"
proof -
  have l: "length (text_of p) = pb_offset p" using p by simp
  have "pb_offset p + length t < capacity p'" using r t by (auto simp: reserved_def)
  then show ?thesis
    using r d len l by (auto simp: appended_def pb_inv_def frame_def reserved_def capacity_def text_of_def)
qed

lemma put_text_appends:
  assumes p: "pb_inv p" and t: "length t \<le> needed" "needed \<le> length t + 1" and bs: "bs = t \<or> bs = t @ [0]"
    and d: "d = pb_depth p" and a: "a = length t"
  shows "prints p (Some t) d (put_text p needed bs a)"
proof -
  have "wp (\<lambda>ok p'. frame p p' \<and> (room p (length t) \<longrightarrow> ok) \<and> (ok \<longrightarrow> reserved p needed p')) (ensure p needed)"
    by (rule ensure_ok [OF p t(2)])
  then obtain ok p' where e: "ensure p needed = Some (ok, p')" "frame p p'" "room p (length t) \<longrightarrow> ok"
    "ok \<longrightarrow> reserved p needed p'" by (auto simp: wp_ex)
  show ?thesis
  proof (cases ok)
    case True
    then have r: "reserved p needed p'" using e(4) by simp
    have "length bs \<le> needed + 1" using bs t(1) by auto
    then obtain rest where w: "poke p' 0 bs = Some (p'\<lparr>pb_buffer := Some (text_of p @ bs @ rest)\<rparr>)"
      "length (text_of p @ bs @ rest) = capacity p'" by (rule poke_ok [OF r])
    obtain rest' where bs': "bs @ rest = t @ rest'" using bs by auto
    have "appended p t d (p'\<lparr>pb_buffer := Some (text_of p @ t @ rest'), pb_offset := pb_offset p + length t\<rparr>)"
      using w(2) bs' by (intro appended_write [OF p r t(1) _ d]) simp
    moreover have "pb_offset p' = pb_offset p" using r by (simp add: reserved_def)
    ultimately show ?thesis
      using e True w(1) a bs' by (simp add: prints_def put_text_def appended_def)
  next
    case False
    then show ?thesis using e by (simp add: prints_def put_text_def)
  qed
qed

text \<open>A step that ends its text with a terminator and may leave the offset in front of it.\<close>

lemma prints_then_update:
  assumes p: "pb_inv p" and t: "length t \<le> needed" "0 \<notin> set t" and d: "d = pb_depth p'"
    and r: "reserved p needed p'" and len: "length (text_of p @ t @ 0 # rest) = capacity p'"
    and o: "off = pb_offset p \<or> off = pb_offset p + length t"
  shows "map_option (Pair True) (update_offset (p'\<lparr>pb_buffer := Some (text_of p @ t @ 0 # rest), pb_offset := off\<rparr>)) =
      Some (True, p'\<lparr>pb_buffer := Some (text_of p @ t @ 0 # rest), pb_offset := pb_offset p + length t\<rparr>)"
proof -
  have l: "length (text_of p) = pb_offset p" using p by simp
  have tw: "takeWhile (\<lambda>c. c \<noteq> 0) (t @ 0 # rest) = t"
    using t(2) by (subst takeWhile_append2) auto
  show ?thesis using o l tw by (auto simp: update_offset_def)
qed

lemma put_text_update:
  assumes p: "pb_inv p" and t: "length t \<le> needed" "needed \<le> length t + 1" "0 \<notin> set t"
    and d: "d = pb_depth p" and a: "a = 0 \<or> a = length t"
  shows "prints p (Some t) d (then_update (put_text p needed (t @ [0]) a))"
proof -
  have "wp (\<lambda>ok p'. frame p p' \<and> (room p (length t) \<longrightarrow> ok) \<and> (ok \<longrightarrow> reserved p needed p')) (ensure p needed)"
    by (rule ensure_ok [OF p t(2)])
  then obtain ok p' where e: "ensure p needed = Some (ok, p')" "frame p p'" "room p (length t) \<longrightarrow> ok"
    "ok \<longrightarrow> reserved p needed p'" by (auto simp: wp_ex)
  show ?thesis
  proof (cases ok)
    case True
    then have r: "reserved p needed p'" using e(4) by simp
    have "length (t @ [0]) \<le> needed + 1" using t(1) by auto
    then obtain rest where w: "poke p' 0 (t @ [0]) = Some (p'\<lparr>pb_buffer := Some (text_of p @ (t @ [0]) @ rest)\<rparr>)"
      "length (text_of p @ (t @ [0]) @ rest) = capacity p'" by (rule poke_ok [OF r])
    have off: "pb_offset p' = pb_offset p" using r by (simp add: reserved_def)
    have ap: "appended p t d (p'\<lparr>pb_buffer := Some (text_of p @ t @ 0 # rest), pb_offset := pb_offset p + length t\<rparr>)"
      using w(2) by (intro appended_write [OF p r t(1) _ d]) simp
    have "map_option (Pair True) (update_offset (p'\<lparr>pb_buffer := Some (text_of p @ t @ 0 # rest), pb_offset := pb_offset p + a\<rparr>)) =
      Some (True, p'\<lparr>pb_buffer := Some (text_of p @ t @ 0 # rest), pb_offset := pb_offset p + length t\<rparr>)"
      using a w(2) by (intro prints_then_update [OF p t(1,3) refl r]) auto
    then show ?thesis
      using e True w(1) off ap
      by (simp add: prints_def put_text_def then_update_def and_then_def appended_def)
  next
    case False
    then show ?thesis using e by (simp add: prints_def put_text_def then_update_def and_then_def)
  qed
qed

lemma then_update_and_then: "then_update (and_then m f) = and_then m (\<lambda>p. then_update (f p))"
  by (cases m) (auto simp: then_update_def and_then_def)

lemma then_update_depth:
  "then_update (and_then m (\<lambda>p. Some (True, p\<lparr>pb_depth := pb_depth p - 1\<rparr>))) =
     and_then (then_update m) (\<lambda>p. Some (True, p\<lparr>pb_depth := pb_depth p - 1\<rparr>))"
  by (cases m) (auto simp: then_update_def and_then_def update_offset_def Let_def split: option.splits)

subsection \<open>Scalars\<close>

lemma poke_poke:
  assumes "pb_buffer p = Some buf" "pb_offset p + length xs + length ys \<le> length buf"
  shows "(poke p 0 xs \<bind> (\<lambda>p. poke p (length xs) ys)) = poke p 0 (xs @ ys)"
proof -
  let ?o = "pb_offset p"
  have "take (?o + length xs) (take ?o buf @ xs @ drop (?o + length xs) buf) = take ?o buf @ xs"
    using assms(2) by simp
  moreover have "drop (?o + length xs + length ys) (take ?o buf @ xs @ drop (?o + length xs) buf) =
      drop (?o + length xs + length ys) buf"
    using assms(2) by (simp add: add.commute add.left_commute)
  ultimately show ?thesis using assms by (simp add: poke_def Let_def add.assoc)
qed

lemma print_string_update:
  assumes p: "pb_inv p" and s: "cstring_ok s" and d: "d = pb_depth p"
  shows "prints p (Some (quoted s)) d (then_update (print_string_ptr s p))"
proof (cases s)
  case None
  then show ?thesis
    using put_text_update [OF p, of "[34, 34]" 3 d 0] d by (simp add: print_string_ptr_def quoted_def)
next
  case (Some b)
  let ?t = "34 # concat (map escape_out b) @ [34]"
  let ?n = "length b + sum_list (map escape_extra b) + 3"
  have len: "length ?t + 1 = ?n" by (simp add: length_escaped)
  have "wp (\<lambda>ok p'. frame p p' \<and> (room p (length ?t) \<longrightarrow> ok) \<and> (ok \<longrightarrow> reserved p ?n p')) (ensure p ?n)"
    by (rule ensure_ok [OF p]) (use len in simp)
  then obtain ok p' where e: "ensure p ?n = Some (ok, p')" "frame p p'" "room p (length ?t) \<longrightarrow> ok"
    "ok \<longrightarrow> reserved p ?n p'" by (auto simp: wp_ex)
  show ?thesis
  proof (cases ok)
    case False
    then show ?thesis
      using e Some by (simp add: prints_def print_string_ptr_def then_update_def and_then_def quoted_def Let_def)
  next
    case True
    then have r: "reserved p ?n p'" using e(4) by simp
    then obtain buf where buf: "pb_buffer p' = Some buf" "pb_offset p' + ?n < length buf"
      by (auto simp: reserved_def capacity_def)
    have "length (?t @ [0]) \<le> ?n + 1" using len by simp
    then obtain rest where w: "poke p' 0 (?t @ [0]) = Some (p'\<lparr>pb_buffer := Some (text_of p @ (?t @ [0]) @ rest)\<rparr>)"
      "length (text_of p @ (?t @ [0]) @ rest) = capacity p'" by (rule poke_ok [OF r])
    have "(poke p' 0 (34 # concat (map escape_out b)) \<bind>
        (\<lambda>p. poke p (length (34 # concat (map escape_out b))) [34, 0])) = poke p' 0 (?t @ [0])"
      using buf length_escaped [of b] by (subst poke_poke) auto
    then have "print_string_ptr s p = Some (True, p'\<lparr>pb_buffer := Some (text_of p @ ?t @ 0 # rest)\<rparr>)"
      using Some e(1) True w(1) not_escaped [of b] length_escaped [of b]
      by (auto simp: print_string_ptr_def Let_def simp flip: bind_assoc)
    moreover have "pb_offset p' = pb_offset p" using r by (simp add: reserved_def)
    then have "p'\<lparr>pb_buffer := B\<rparr> = p'\<lparr>pb_buffer := B, pb_offset := pb_offset p\<rparr>" for B by (cases p') simp
    ultimately have "print_string_ptr s p =
        Some (True, p'\<lparr>pb_buffer := Some (text_of p @ ?t @ 0 # rest), pb_offset := pb_offset p\<rparr>)" by metis
    moreover have "0 \<notin> set ?t" using quoted_nz [OF s] Some by (simp add: quoted_def)
    moreover have t: "length ?t \<le> ?n" using len by simp
    ultimately have "then_update (print_string_ptr s p) =
        Some (True, p'\<lparr>pb_buffer := Some (text_of p @ ?t @ 0 # rest), pb_offset := pb_offset p + length ?t\<rparr>)"
      using prints_then_update [OF p _ _ refl r, of ?t rest "pb_offset p"] w(2)
      by (simp add: then_update_def and_then_def)
    moreover have "appended p ?t d (p'\<lparr>pb_buffer := Some (text_of p @ ?t @ 0 # rest), pb_offset := pb_offset p + length ?t\<rparr>)"
      using w(2) by (intro appended_write [OF p r t _ d]) simp
    ultimately show ?thesis
      using Some by (simp add: prints_def quoted_def appended_def)
  qed
qed

lemma cat_simps [simp]:
  "cat (Some x) (Some y) = Some (x @ y)" "cat None b = None" "cat a None = None"
  by (auto simp: cat_def split: option.splits)

lemma print_literal_update:
  "pb_inv p \<Longrightarrow> s \<in> {''null'', ''false'', ''true''} \<Longrightarrow>
     prints p (Some (lit s)) (pb_depth p) (then_update (print_literal s p))"
  unfolding print_literal_def by (rule put_text_update) (auto simp: lit_def)

lemma print_number_update:
  assumes "pb_inv p" "number_ok i"
  shows "prints p (number_text i) (pb_depth p) (then_update (print_number i p))"
proof -
  obtain t where t: "number_text i = Some t" "0 \<notin> set t" using number_text_ok [OF assms(2)] .
  then show ?thesis
    using put_text_update [OF assms(1), of t "length t + 1" "pb_depth p" "length t"]
    by (simp add: print_number_def)
qed

lemma print_raw_update:
  assumes "pb_inv p" "cstring_ok (c_valuestring i)"
  shows "prints p (c_valuestring i) (pb_depth p) (then_update (print_raw i p))"
proof (cases "c_valuestring i")
  case None
  then show ?thesis using assms by (simp add: print_raw_def then_update_def and_then_def prints_def)
next
  case (Some t)
  then show ?thesis
    using put_text_update [OF assms(1), of t "length t + 1" "pb_depth p" 0] assms(2)
    by (simp add: print_raw_def cstring_ok_def)
qed

subsection \<open>Containers\<close>

lemma prints_cat_Nil: "prints p (cat a (Some [])) d m \<longleftrightarrow> prints p a d m"
  by (cases a) auto

lemma appendedD: "appended p t d p' \<Longrightarrow> pb_inv p' \<and> pb_depth p' = d \<and> pb_format p' = pb_format p"
  by (simp add: appended_def frame_def)

lemma print_open_array_prints:
  assumes "pb_inv p"
  shows "prints p (Some [91]) (pb_depth p + 1) (print_open_array p)"
proof -
  have "prints p (cat (Some [91]) (Some [])) (pb_depth p + 1) (print_open_array p)"
    unfolding print_open_array_def
  proof (rule prints_and_then)
    show "prints p (Some [91]) (pb_depth p) (put_text p 1 [91] 1)"
      by (rule put_text_appends [OF assms]) auto
  next
    fix t p' assume "appended p t (pb_depth p) p'"
    then show "prints p' (Some []) (pb_depth p + 1) (Some (True, p'\<lparr>pb_depth := pb_depth p' + 1\<rparr>))"
      using prints_depth [of p' "pb_depth p' + 1"] by (auto dest: appendedD)
  qed
  then show ?thesis by simp
qed

lemma print_open_object_prints:
  assumes "pb_inv p"
  shows "prints p (Some (123 # fmt (pb_format p) [10])) (pb_depth p + 1) (print_open_object p)"
proof -
  have "prints p (cat (Some (123 # fmt (pb_format p) [10])) (Some [])) (pb_depth p + 1) (print_open_object p)"
    unfolding print_open_object_def Let_def
  proof (rule prints_and_then)
    show "prints p (Some (123 # fmt (pb_format p) [10])) (pb_depth p)
        (put_text p ((if pb_format p then 2 else 1) + 1) (123 # (if pb_format p then [10] else []))
          (if pb_format p then 2 else 1))"
      by (rule put_text_appends [OF assms]) (auto simp: fmt_def)
  next
    fix t p' assume "appended p t (pb_depth p) p'"
    then show "prints p' (Some []) (pb_depth p + 1) (Some (True, p'\<lparr>pb_depth := pb_depth p' + 1\<rparr>))"
      using prints_depth [of p' "pb_depth p' + 1"] by (auto dest: appendedD)
  qed
  then show ?thesis by simp
qed

text \<open>The closing bracket, after which the depth is one less.\<close>

lemma close_prints:
  assumes "pb_inv p" "prints p (Some t) (pb_depth p) (then_update m)"
  shows "prints p (Some t) (pb_depth p - 1)
     (then_update (and_then m (\<lambda>p. Some (True, p\<lparr>pb_depth := pb_depth p - 1\<rparr>))))"
proof -
  have "prints p (cat (Some t) (Some [])) (pb_depth p - 1)
      (and_then (then_update m) (\<lambda>p. Some (True, p\<lparr>pb_depth := pb_depth p - 1\<rparr>)))"
  proof (rule prints_and_then [OF assms(2)])
    fix u p' assume "appended p u (pb_depth p) p'"
    then show "prints p' (Some []) (pb_depth p - 1) (Some (True, p'\<lparr>pb_depth := pb_depth p' - 1\<rparr>))"
      using prints_depth [of p' "pb_depth p' - 1"] by (auto dest: appendedD)
  qed
  then show ?thesis unfolding then_update_depth by simp
qed

lemma print_close_array_update:
  "pb_inv p \<Longrightarrow> prints p (Some [93]) (pb_depth p - 1) (then_update (print_close_array p))"
  unfolding print_close_array_def
  by (rule close_prints) (use put_text_update [of p "[93]" 2 "pb_depth p" 0] in auto)

lemma print_close_object_update:
  assumes "pb_inv p" "0 < pb_depth p"
  shows "prints p (Some (fmt (pb_format p) (replicate (pb_depth p - 1) 9) @ [125])) (pb_depth p - 1)
     (then_update (print_close_object p))"
proof -
  have "prints p (Some (fmt (pb_format p) (replicate (pb_depth p - 1) 9) @ [125])) (pb_depth p)
      (then_update (put_text p (if pb_format p then pb_depth p + 1 else 2)
        ((fmt (pb_format p) (replicate (pb_depth p - 1) 9) @ [125]) @ [0]) 0))"
    by (rule put_text_update [OF assms(1)]) (use assms(2) in \<open>auto simp: fmt_def\<close>)
  then show ?thesis
    unfolding print_close_object_def by (intro close_prints assms) (cases "pb_format p"; simp add: fmt_def)
qed

lemma print_separator_prints:
  "pb_inv p \<Longrightarrow> prints p (Some (44 # fmt (pb_format p) [32])) (pb_depth p) (print_separator p)"
  unfolding print_separator_def Let_def by (rule put_text_appends) (auto simp: fmt_def)

lemma print_indent_prints:
  assumes "pb_inv p"
  shows "prints p (Some (fmt (pb_format p) (replicate (pb_depth p) 9))) (pb_depth p) (print_indent p)"
proof (cases "pb_format p")
  case True
  then show ?thesis
    unfolding print_indent_def fmt_def by simp (rule put_text_appends [OF assms], auto)
next
  case False
  then show ?thesis using prints_Nil [OF assms] by (simp add: print_indent_def fmt_def)
qed

lemma print_colon_prints:
  "pb_inv p \<Longrightarrow> prints p (Some (58 # fmt (pb_format p) [9])) (pb_depth p) (print_colon p)"
  unfolding print_colon_def Let_def by (rule put_text_appends) (auto simp: fmt_def)

lemma print_comma_prints:
  "pb_inv p \<Longrightarrow> prints p (Some ((if c then [44] else []) @ fmt (pb_format p) [10])) (pb_depth p) (print_comma c p)"
  unfolding print_comma_def Let_def by (rule put_text_appends) (auto simp: fmt_def)

definition value_prints :: "cJSON \<Rightarrow> bool" where
  "value_prints e \<longleftrightarrow> (\<forall>p. pb_inv p \<longrightarrow>
     prints p (render (pb_format p) (pb_depth p) e) (pb_depth p) (then_update (print_value e p)))"

lemma print_elements_prints:
  assumes "\<forall>e \<in> set es. value_prints e" "pb_inv p"
  shows "prints p (render_elements (pb_format p) (pb_depth p) es) (pb_depth p) (print_elements es p)"
  using assms
proof (induction es arbitrary: p)
  case Nil
  then show ?case by (simp add: prints_Nil)
next
  case (Cons e es)
  show ?case
    unfolding print_elements.simps render_elements.simps
  proof (rule prints_and_then)
    show "prints p (render (pb_format p) (pb_depth p) e) (pb_depth p) (then_update (print_value e p))"
      using Cons.prems by (simp add: value_prints_def)
  next
    fix t p1
    assume "appended p t (pb_depth p) p1"
    then have p1: "pb_inv p1" "pb_depth p1 = pb_depth p" "pb_format p1 = pb_format p"
      by (auto dest: appendedD)
    show "prints p1 (if es \<noteq> [] then cat (Some (44 # fmt (pb_format p) [32])) (render_elements (pb_format p) (pb_depth p) es)
          else render_elements (pb_format p) (pb_depth p) es) (pb_depth p)
        (if es \<noteq> [] then and_then (print_separator p1) (print_elements es) else print_elements es p1)"
    proof (cases "es = []")
      case True
      then show ?thesis using prints_Nil [OF p1(1)] p1 by simp
    next
      case False
      have "prints p1 (cat (Some (44 # fmt (pb_format p) [32])) (render_elements (pb_format p) (pb_depth p) es)) (pb_depth p)
          (and_then (print_separator p1) (print_elements es))"
      proof (rule prints_and_then)
        show "prints p1 (Some (44 # fmt (pb_format p) [32])) (pb_depth p) (print_separator p1)"
          using print_separator_prints [OF p1(1)] p1 by simp
      next
        fix u p2
        assume "appended p1 u (pb_depth p) p2"
        then have p2: "pb_inv p2" "pb_depth p2 = pb_depth p" "pb_format p2 = pb_format p"
          using p1 by (auto dest: appendedD)
        then show "prints p2 (render_elements (pb_format p) (pb_depth p) es) (pb_depth p) (print_elements es p2)"
          using Cons.IH [of p2] Cons.prems by simp
      qed
      then show ?thesis using False by simp
    qed
  qed
qed


lemma print_members_prints:
  assumes "\<forall>e \<in> set es. value_prints e \<and> json_ok e" "pb_inv p"
  shows "prints p (render_members (pb_format p) (pb_depth p) es) (pb_depth p) (print_members es p)"
  using assms
proof (induction es arbitrary: p)
  case Nil
  then show ?case by (simp add: prints_Nil)
next
  case (Cons e es)
  let ?f = "pb_format p" and ?d = "pb_depth p"
  have e: "value_prints e" "cstring_ok (c_string e)"
    using Cons.prems(1) by (auto intro: json_ok_string)
  have step: "pb_inv p2 \<and> pb_depth p2 = ?d \<and> pb_format p2 = ?f"
    if "appended p1 t ?d p2" "pb_format p1 = ?f" for p1 t p2
    using that by (auto dest: appendedD)
  show ?case
    unfolding print_members.simps render_members.simps
  proof (rule prints_and_then [OF print_indent_prints [OF Cons.prems(2)]])
    fix t1 p1
    assume a1: "appended p t1 ?d p1"
    note p1 = step [OF a1 refl]
    have "prints p1 (Some (quoted (c_string e))) ?d (then_update (print_string_ptr (c_string e) p1))"
      using p1 e(2) by (intro print_string_update) auto
    then show "prints p1 (cat (Some (quoted (c_string e))) (cat (Some (58 # fmt ?f [9])) (cat (render ?f ?d e)
        (cat (Some ((if es \<noteq> [] then [44] else []) @ fmt ?f [10])) (render_members ?f ?d es))))) ?d
      (and_then (then_update (print_string_ptr (c_string e) p1)) (\<lambda>p. and_then (print_colon p) (\<lambda>p.
        and_then (then_update (print_value e p)) (\<lambda>p. and_then (print_comma (es \<noteq> []) p) (print_members es)))))"
    proof (rule prints_and_then)
      fix t2 p2
      assume a2: "appended p1 t2 ?d p2"
      note p2 = step [OF a2 p1 [THEN conjunct2, THEN conjunct2]]
      have "prints p2 (Some (58 # fmt ?f [9])) ?d (print_colon p2)"
        using print_colon_prints [of p2] p2 by simp
      then show "prints p2 (cat (Some (58 # fmt ?f [9])) (cat (render ?f ?d e)
          (cat (Some ((if es \<noteq> [] then [44] else []) @ fmt ?f [10])) (render_members ?f ?d es)))) ?d
        (and_then (print_colon p2) (\<lambda>p.
          and_then (then_update (print_value e p)) (\<lambda>p. and_then (print_comma (es \<noteq> []) p) (print_members es))))"
      proof (rule prints_and_then)
        fix t3 p3
        assume a3: "appended p2 t3 ?d p3"
        note p3 = step [OF a3 p2 [THEN conjunct2, THEN conjunct2]]
        have "prints p3 (render ?f ?d e) ?d (then_update (print_value e p3))"
          using p3 e(1) by (auto simp: value_prints_def)
        then show "prints p3 (cat (render ?f ?d e)
            (cat (Some ((if es \<noteq> [] then [44] else []) @ fmt ?f [10])) (render_members ?f ?d es))) ?d
          (and_then (then_update (print_value e p3)) (\<lambda>p. and_then (print_comma (es \<noteq> []) p) (print_members es)))"
        proof (rule prints_and_then)
          fix t4 p4
          assume a4: "appended p3 t4 ?d p4"
          note p4 = step [OF a4 p3 [THEN conjunct2, THEN conjunct2]]
          have "prints p4 (Some ((if es \<noteq> [] then [44] else []) @ fmt ?f [10])) ?d (print_comma (es \<noteq> []) p4)"
            using print_comma_prints [of p4 "es \<noteq> []"] p4 by simp
          then show "prints p4 (cat (Some ((if es \<noteq> [] then [44] else []) @ fmt ?f [10])) (render_members ?f ?d es)) ?d
              (and_then (print_comma (es \<noteq> []) p4) (print_members es))"
          proof (rule prints_and_then)
            fix t5 p5
            assume a5: "appended p4 t5 ?d p5"
            note p5 = step [OF a5 p4 [THEN conjunct2, THEN conjunct2]]
            then show "prints p5 (render_members ?f ?d es) ?d (print_members es p5)"
              using Cons.IH [of p5] Cons.prems(1) by simp
          qed
        qed
      qed
    qed
  qed
qed

lemma print_array_update:
  assumes "\<forall>e \<in> set ch. value_prints e" "pb_inv p"
  shows "prints p (cat (cat (Some [91]) (render_elements (pb_format p) (pb_depth p + 1) ch)) (Some [93])) (pb_depth p)
     (then_update (and_then (and_then (print_open_array p) (print_elements ch)) print_close_array))"
  unfolding then_update_and_then
proof (rule prints_and_then)
  show "prints p (cat (Some [91]) (render_elements (pb_format p) (pb_depth p + 1) ch)) (pb_depth p + 1)
      (and_then (print_open_array p) (print_elements ch))"
  proof (rule prints_and_then [OF print_open_array_prints [OF assms(2)]])
    fix t p1 assume "appended p t (pb_depth p + 1) p1"
    then show "prints p1 (render_elements (pb_format p) (pb_depth p + 1) ch) (pb_depth p + 1) (print_elements ch p1)"
      using print_elements_prints [OF assms(1), of p1] by (auto dest: appendedD)
  qed
next
  fix t p1 assume "appended p t (pb_depth p + 1) p1"
  then show "prints p1 (Some [93]) (pb_depth p) (then_update (print_close_array p1))"
    using print_close_array_update [of p1] by (auto dest: appendedD)
qed

lemma print_object_update:
  assumes "\<forall>e \<in> set ch. value_prints e \<and> json_ok e" "pb_inv p"
  shows "prints p (cat (cat (Some (123 # fmt (pb_format p) [10])) (render_members (pb_format p) (pb_depth p + 1) ch))
       (Some (fmt (pb_format p) (replicate (pb_depth p) 9) @ [125]))) (pb_depth p)
     (then_update (and_then (and_then (print_open_object p) (print_members ch)) print_close_object))"
  unfolding then_update_and_then
proof (rule prints_and_then)
  show "prints p (cat (Some (123 # fmt (pb_format p) [10])) (render_members (pb_format p) (pb_depth p + 1) ch)) (pb_depth p + 1)
      (and_then (print_open_object p) (print_members ch))"
  proof (rule prints_and_then [OF print_open_object_prints [OF assms(2)]])
    fix t p1 assume "appended p t (pb_depth p + 1) p1"
    then show "prints p1 (render_members (pb_format p) (pb_depth p + 1) ch) (pb_depth p + 1) (print_members ch p1)"
      using print_members_prints [OF assms(1), of p1] by (auto dest: appendedD)
  qed
next
  fix t p1 assume "appended p t (pb_depth p + 1) p1"
  then show "prints p1 (Some (fmt (pb_format p) (replicate (pb_depth p) 9) @ [125])) (pb_depth p)
      (then_update (print_close_object p1))"
    using print_close_object_update [of p1] by (auto dest: appendedD)
qed

lemma value_prints_json: "json_ok item \<Longrightarrow> value_prints item"
proof (induction item)
  case (Item t vs vi vd s ch)
  let ?i = "Item t vs vi vd s ch" and ?k = "t AND 255"
  have ok: "cstring_ok vs" "number_ok ?i" "\<forall>e \<in> set ch. value_prints e \<and> json_ok e"
    using Item by auto
  have "prints p (render (pb_format p) (pb_depth p) ?i) (pb_depth p) (then_update (print_value ?i p))"
    if p: "pb_inv p" for p
  proof -
    have none: "prints p None (pb_depth p) (then_update (Some (False, p)))"
      using p by (simp add: prints_def then_update_def and_then_def)
    note lits = print_literal_update [OF p] and num = print_number_update [OF p ok(2)]
      and raw = print_raw_update [OF p, of ?i] and str = print_string_update [OF p ok(1) refl]
      and arr = print_array_update [OF _ p, of ch] and obj = print_object_update [OF ok(3) p]
    show ?thesis
      using lits num raw str arr obj none ok
      by (simp add: Let_def print_string_def cJSON_types del: then_update_and_then)
  qed
  then show ?case by (simp add: value_prints_def)
qed

subsection \<open>Entry points\<close>

lemma takeWhile_nonzero_less: "0 \<in> set r \<Longrightarrow> length (takeWhile (\<lambda>c. c \<noteq> 0) r) < length r"
  by (induction r) auto

text \<open>What a finished print leaves in the buffer: the text and its terminator.\<close>

lemma update_offset_terminated:
  assumes "update_offset p = Some p'" "pb_buffer p = Some buf"
  shows "pb_buffer p' = Some buf" "pb_heap p' = pb_heap p" "pb_offset p' < length buf" "buf ! pb_offset p' = 0"
proof -
  let ?r = "drop (pb_offset p) buf"
  have z: "0 \<in> set ?r" and p': "p' = p\<lparr>pb_offset := pb_offset p + length (takeWhile (\<lambda>c. c \<noteq> 0) ?r)\<rparr>"
    using assms by (auto simp: update_offset_def Let_def split: if_splits)
  have l: "length (takeWhile (\<lambda>c. c \<noteq> 0) ?r) < length ?r"
    using z by (rule takeWhile_nonzero_less)
  show "pb_buffer p' = Some buf" "pb_heap p' = pb_heap p" using assms(2) p' by simp_all
  show "pb_offset p' < length buf" using l p' by simp
  have "?r ! length (takeWhile (\<lambda>c. c \<noteq> 0) ?r) = 0" using nth_length_takeWhile [OF l] by simp
  then show "buf ! pb_offset p' = 0" using l p' by simp
qed

lemma value_printed:
  assumes ok: "json_ok item" and p: "pb_inv p" "pb_offset p = 0"
  obtains (fail) p' where "print_value item p = Some (False, p')" "frame p p'"
      "\<And>t. render (pb_format p) (pb_depth p) item = Some t \<Longrightarrow> \<not> room p (length t)"
  | (printed) p' p'' buf t where "print_value item p = Some (True, p')" "update_offset p' = Some p''"
      "render (pb_format p) (pb_depth p) item = Some t" "frame p p'" "pb_heap p'' = pb_heap p'"
      "pb_buffer p' = Some buf" "pb_buffer p'' = Some buf" "pb_offset p'' = length t"
      "length t < length buf" "take (length t) buf = t" "buf ! length t = 0"
proof -
  have "prints p (render (pb_format p) (pb_depth p) item) (pb_depth p) (then_update (print_value item p))"
    using value_prints_json [OF ok] p(1) by (simp add: value_prints_def)
  then obtain r q where w: "then_update (print_value item p) = Some (r, q)" "frame p q"
    "case render (pb_format p) (pb_depth p) item of None \<Rightarrow> \<not> r
     | Some t \<Rightarrow> (room p (length t) \<longrightarrow> r) \<and> (r \<longrightarrow> appended p t (pb_depth p) q)"
    by (auto simp: prints_def wp_ex)
  obtain r' p' where m: "print_value item p = Some (r', p')"
    using w(1) by (cases "print_value item p") (auto simp: then_update_def and_then_def)
  show ?thesis
  proof (cases r')
    case False
    then have "r = False" "q = p'" using w(1) m by (auto simp: then_update_def and_then_def)
    then show ?thesis using fail m False w(2,3) by (auto split: option.splits)
  next
    case True
    then have u: "update_offset p' = Some q" "r" using w(1) m by (auto simp: then_update_def and_then_def)
    then obtain t where t: "render (pb_format p) (pb_depth p) item = Some t" "appended p t (pb_depth p) q"
      using w(3) by (auto split: option.splits)
    obtain buf where b: "pb_buffer p' = Some buf"
      using u(1) t(2) by (cases "pb_buffer p'") (auto simp: update_offset_def appended_def pb_inv_def)
    note ut = update_offset_terminated [OF u(1) b]
    have off: "pb_offset q = length t" "text_of q = t" using t(2) p by (auto simp: appended_def text_of_def)
    have "frame p p'" using w(2) ut(1,2) b u(1)
      by (auto simp: frame_def capacity_def update_offset_def Let_def split: if_splits)
    then show ?thesis
      using m True u t(1) b ut off by (intro printed [of p' q t buf]) (auto simp: text_of_def)
  qed
qed

lemma print_preallocated_renders:
  assumes "json_ok item" "0 \<le> len" "nat len \<le> length mem" "len < 2 ^ 31"
  shows "\<exists>ok mem'. cJSON_PrintPreallocated item (Some mem) len format h = Some (ok, Some mem') \<and>
     length mem' = length mem \<and> drop (nat len) mem' = drop (nat len) mem \<and>
     (ok \<longrightarrow> (\<exists>t. render format 0 item = Some t \<and> take (length t + 1) mem' = t @ [0])) \<and>
     (\<forall>t. render format 0 item = Some t \<longrightarrow> length t + 2 \<le> nat len \<longrightarrow> ok)"
proof -
  let ?p = "\<lparr>pb_buffer = Some (take (nat len) mem), pb_offset = 0, pb_depth = 0, pb_noalloc = True,
     pb_format = format, pb_heap = h\<rparr>"
  have inv: "pb_inv ?p" by (auto simp: pb_inv_def)
  have cap: "capacity ?p = nat len" using assms(3) by (simp add: capacity_def)
  have room: "room ?p n \<longleftrightarrow> n + 2 \<le> nat len" for n
    using assms(4) by (auto simp: room_def cap SIZE_MAX_def)
  have buf: "\<exists>buf. pb_buffer q = Some buf \<and> length buf = nat len" if "frame ?p q" for q
    using that assms(3) by (cases "pb_buffer q") (simp_all add: frame_def capacity_def)
  have eq: "cJSON_PrintPreallocated item (Some mem) len format h =
      Some (r, Some (buf @ drop (nat len) mem))"
    if "print_value item ?p = Some (r, q)" "pb_buffer q = Some buf" for r q buf
    using that assms(2,3) by (simp add: cJSON_PrintPreallocated_def)
  show ?thesis
  proof (cases rule: value_printed [OF assms(1) inv])
    case 1
    show ?case by simp
  next
    case (2 p')
    then obtain buf where b: "pb_buffer p' = Some buf" "length buf = nat len" using buf by blast
    moreover have "\<not> length t + 2 \<le> nat len" if "render format 0 item = Some t" for t
      using 2(3) [of t] that room by simp
    ultimately show ?thesis using eq [OF 2(1) b(1)] assms(3) by auto
  next
    case (3 p' p'' buf t)
    then have l: "length buf = nat len" using buf [of p'] by simp
    have "take (length t + 1) buf = t @ [0]"
      using 3(9,10,11) by (simp add: take_Suc_conv_app_nth)
    then have "take (length t + 1) (buf @ drop (nat len) mem) = t @ [0]" using 3(9) by simp
    then show ?thesis using eq [OF 3(1,6)] 3(3) l assms(3) by auto
  qed
qed

text \<open>
  C17. Printing into a caller's buffer (\<open>cJSON_PrintPreallocated\<close>): it never writes behind the
  length it was given; when it reports success the buffer starts with exactly the text that
  the item renders to and a terminator; and it does succeed whenever the length exceeds the
  text by two bytes (three fewer than the header asks for).
\<close>

theorem print_preallocated_refines_render:
  assumes "json_ok item" "0 \<le> len" "nat len \<le> length mem" "len < 2 ^ 31"
  shows "\<exists>ok mem'. cJSON_PrintPreallocated item (Some mem) len format h = Some (ok, Some mem') \<and>
     length mem' = length mem \<and> drop (nat len) mem' = drop (nat len) mem \<and>
     (ok \<longrightarrow> (\<exists>t. render format 0 item = Some t \<and> take (length t + 1) mem' = t @ [0])) \<and>
     (\<forall>t. render format 0 item = Some t \<longrightarrow> length t + 2 \<le> nat len \<longrightarrow> ok)"
  by (rule print_preallocated_renders [OF assms])

theorem print_preallocated_refines_render_witness:
  "\<exists>ok mem'. cJSON_PrintPreallocated (Item 32 None 0 (Fin 0) None [Item 4 None 0 (Fin 0) None []])
       (Some (replicate 9 7)) 8 False \<lparr>h_ok = \<lambda>_. False, h_fill = \<lambda>_ _. 0, h_calls = 0, h_live = 0, h_realloc = True\<rparr> =
       Some (ok, Some mem') \<and> ok \<and> take 7 mem' = lit ''[null]'' @ [0] \<and> mem' ! 8 = 7"
proof -
  let ?i = "Item 32 None 0 (Fin 0) None [Item 4 None 0 (Fin 0) None []]"
  let ?h = "\<lparr>h_ok = \<lambda>_. False, h_fill = \<lambda>_ _. 0, h_calls = 0, h_live = 0, h_realloc = True\<rparr>"
  have j: "json_ok ?i" by (simp add: cstring_ok_def number_ok_def double_range_def)
  have n: "0 \<le> (8 :: int)" "nat 8 \<le> length (replicate 9 (7 :: byte))" "(8 :: int) < 2 ^ 31" by simp_all
  from print_preallocated_refines_render [OF j n, of False ?h] obtain ok mem' where w: "cJSON_PrintPreallocated ?i (Some (replicate 9 7)) 8 False ?h = Some (ok, Some mem')"
    "length mem' = length (replicate 9 (7::byte))" "drop (nat 8) mem' = drop (nat 8) (replicate 9 7)"
    "ok \<longrightarrow> (\<exists>t. render False 0 ?i = Some t \<and> take (length t + 1) mem' = t @ [0])"
    "\<forall>t. render False 0 ?i = Some t \<longrightarrow> length t + 2 \<le> nat 8 \<longrightarrow> ok"
    by blast
  have r: "render False 0 ?i = Some (lit ''[null]'')" by code_simp
  have ok using w(5) r by (simp add: lit_def)
  moreover have "take 7 mem' = lit ''[null]'' @ [0]" using w(4) \<open>ok\<close> unfolding r by (simp add: lit_def numeral_eq_Suc)
  moreover have "mem' ! 8 = 7"
    using w(2,3) nth_drop [of 8 mem' 0] by (simp add: numeral_eq_Suc)
  ultimately show ?thesis using w(1) by blast
qed

lemma print_renders:
  assumes "json_ok item"
  shows "\<exists>r h'. print item format h = Some (r, h') \<and>
     (case r of
        Some s \<Rightarrow> (\<exists>t. render format 0 item = Some t \<and> s = t @ [0]) \<and> h_live h' = h_live h + 1
      | None \<Rightarrow> h_live h' = h_live h) \<and>
     (\<forall>t. (\<forall>k. h_ok h k) \<longrightarrow> render format 0 item = Some t \<longrightarrow> length t + 2 \<le> SIZE_MAX div 2 \<longrightarrow> r \<noteq> None)"
proof (cases "h_ok h (h_calls h)")
  case False
  then show ?thesis by (auto simp: print_def allocate_def Let_def)
next
  case True
  define h1 where "h1 = h\<lparr>h_calls := h_calls h + 1, h_live := h_live h + 1\<rparr>"
  have a: "allocate h = (True, h1)" using True by (simp add: allocate_def h1_def)
  let ?p = "\<lparr>pb_buffer = Some (junk h 0 256), pb_offset = 0, pb_depth = 0, pb_noalloc = False,
     pb_format = format, pb_heap = h1\<rparr>"
  have inv: "pb_inv ?p" by (simp add: pb_inv_def junk_def)
  show ?thesis
  proof (cases rule: value_printed [OF assms inv])
    case 1
    show ?case by simp
  next
    case (2 p')
    have "\<exists>h'. print item format h = Some (None, h') \<and> h_live h' = h_live h"
      using 2(1,2) a by (cases "pb_buffer p'")
        (auto simp: print_def then_update_def and_then_def frame_def h1_def deallocate_def)
    moreover have "\<not> length t + 2 \<le> SIZE_MAX div 2" if "\<forall>k. h_ok h k" "render format 0 item = Some t" for t
      using 2(3) [of t] that by (simp add: room_def h1_def)
    ultimately obtain h' where "print item format h = Some (None, h')" "h_live h' = h_live h"
      "\<And>t. \<forall>k. h_ok h k \<Longrightarrow> render format 0 item = Some t \<Longrightarrow> \<not> length t + 2 \<le> SIZE_MAX div 2" by blast
    then show ?thesis by (intro exI [of _ None] exI [of _ h']) simp
  next
    case (3 p' p'' buf t)
    have tk: "take (length t + 1) buf = t @ [0]"
      using 3(9,10,11) by (simp add: take_Suc_conv_app_nth)
    have fr: "h_ok (pb_heap p') = h_ok h" "h_live (pb_heap p') = h_live h + 1"
      using 3(4,6) by (simp_all add: frame_def h1_def)
    have up: "(t @ [0])[length t := 0] = t @ [0]" by simp
    have more: "\<not> (\<forall>k. h_ok h k)" if "\<not> h_ok h (h_calls (pb_heap p'))" using that by blast
    show ?thesis
    proof (cases "h_ok h (h_calls (pb_heap p'))")
      case True
      then have "\<exists>h'. print item format h = Some (Some (t @ [0]), h') \<and> h_live h' = h_live h + 1"
        using 3(1,2,5,7,8,9) a fr tk up
        by (simp add: print_def then_update_def and_then_def allocate_def [of "pb_heap p'"] deallocate_def
            Let_def min_absorb2 junk_def)
      then obtain h' where "print item format h = Some (Some (t @ [0]), h')" "h_live h' = h_live h + 1" by blast
      then show ?thesis using 3(3) by (intro exI [of _ "Some (t @ [0])"] exI [of _ h']) simp
    next
      case False
      then have "\<exists>h'. print item format h = Some (None, h') \<and> h_live h' = h_live h"
        using 3(1,2,5,7,8,9) a fr
        by (simp add: print_def then_update_def and_then_def allocate_def [of "pb_heap p'"] deallocate_def Let_def)
      then obtain h' where "print item format h = Some (None, h')" "h_live h' = h_live h" by blast
      then show ?thesis using more [OF False] by (intro exI [of _ None] exI [of _ h']) auto
    qed
  qed
qed

text \<open>
  C18. \<open>cJSON_Print\<close> and \<open>cJSON_PrintUnformatted\<close>: printing never leaves the blocks it
  allocated; the result is the rendered text with its terminator in one new block, or \<open>NULL\<close>
  with nothing left allocated, and it is not \<open>NULL\<close> when memory suffices and the item renders.
\<close>

theorem print_refines_render:
  assumes "json_ok item"
  shows "\<exists>r h'. print item format h = Some (r, h') \<and>
     (case r of
        Some s \<Rightarrow> (\<exists>t. render format 0 item = Some t \<and> s = t @ [0]) \<and> h_live h' = h_live h + 1
      | None \<Rightarrow> h_live h' = h_live h) \<and>
     (\<forall>t. (\<forall>k. h_ok h k) \<longrightarrow> render format 0 item = Some t \<longrightarrow> length t + 2 \<le> SIZE_MAX div 2 \<longrightarrow> r \<noteq> None)"
  by (rule print_renders [OF assms])

theorem print_refines_render_witness:
  "\<exists>h'. print (Item 16 (Some [9, 65]) 0 (Fin 0) None []) True
      \<lparr>h_ok = \<lambda>_. True, h_fill = \<lambda>_ _. 0, h_calls = 0, h_live = 5, h_realloc = False\<rparr> =
      Some (Some [34, 92, 116, 65, 34, 0], h') \<and> h_live h' = 6"
proof -
  let ?i = "Item 16 (Some [9, 65]) 0 (Fin 0) None []"
  let ?h = "\<lparr>h_ok = \<lambda>_. True, h_fill = \<lambda>_ _. 0, h_calls = 0, h_live = 5, h_realloc = False\<rparr>"
  have j: "json_ok ?i" by (simp add: cstring_ok_def number_ok_def double_range_def)
  have r: "render True 0 ?i = Some [34, 92, 116, 65, 34]" by code_simp
  obtain res h' where w: "print ?i True ?h = Some (res, h')"
    "case res of Some s \<Rightarrow> (\<exists>t. render True 0 ?i = Some t \<and> s = t @ [0]) \<and> h_live h' = h_live ?h + 1
     | None \<Rightarrow> h_live h' = h_live ?h"
    "\<forall>t. (\<forall>k. h_ok ?h k) \<longrightarrow> render True 0 ?i = Some t \<longrightarrow> length t + 2 \<le> SIZE_MAX div 2 \<longrightarrow> res \<noteq> None"
    using print_refines_render [OF j, of True ?h] by (elim exE conjE) (rule that)
  have "res \<noteq> None" using w(3) unfolding r by (simp add: SIZE_MAX_def)
  then show ?thesis using w(1,2) unfolding r by auto
qed

text \<open>What is printed has no NUL byte.\<close>

lemma cat_eq_Some: "cat a b = Some t \<longleftrightarrow> (\<exists>x y. a = Some x \<and> b = Some y \<and> t = x @ y)"
  by (auto simp: cat_def split: option.splits)

lemma render_nz: "json_ok i \<Longrightarrow> render f d i = Some t \<Longrightarrow> 0 \<notin> set t"
proof (induction i arbitrary: d t)
  case (Item ty vs vi vd s children)
  have el: "0 \<notin> set t" if "render_elements f d' es = Some t" "set es \<subseteq> set children" for es t d'
    using that Item.IH Item.prems(1)
    by (induction es arbitrary: t) (fastforce simp: cat_eq_Some fmt_def split: if_splits)+
  have me: "0 \<notin> set t" if "render_members f d' es = Some t" "set es \<subseteq> set children" for es t d'
    using that
  proof (induction es arbitrary: t)
    case (Cons e es)
    have e: "json_ok e" "e \<in> set children" using Cons.prems Item.prems(1) by auto
    then have "0 \<notin> set (quoted (c_string e))" by (intro quoted_nz json_ok_string)
    then show ?case using Cons Item.IH [OF e(2,1)] by (fastforce simp: cat_eq_Some fmt_def)
  qed simp
  have num: "0 \<notin> set t" if "number_text (Item ty vs vi vd s children) = Some t"
    using number_text_ok [of "Item ty vs vi vd s children"] Item.prems(1) that by force
  have str: "0 \<notin> set (quoted vs)" using Item.prems(1) by (intro quoted_nz) simp
  show ?case
    using Item.prems num str el [of "d + 1" children] me [of "d + 1" children]
    by (auto simp: Let_def cat_eq_Some fmt_def lit_def cstring_ok_def split: if_splits)
qed

end
