(* ===== verification/Cjson_Roundtrip.thy ===== *)
theory Cjson_Roundtrip
  imports Cjson_Parse Cjson_Print_Safe
begin

text \<open>
  Parsing what was printed. An item in the form the parser produces, printed with or without
  formatting and parsed again, gives back the same item: every string with its escapes, every
  number whose text reads back, and every nesting up to the limit.
\<close>

subsection \<open>Items in the parser's form\<close>

definition number_back :: "cJSON \<Rightarrow> bool" where
  "number_back i =
     (case number_text i of
        None \<Rightarrow> False
      | Some t \<Rightarrow> t \<noteq> [] \<and> list_all number_char t \<and> (hd t = 45 \<or> is_digit (hd t)) \<and> length t \<le> 63 \<and>
          strtod t = (c_valuedouble i, length t) \<and> saturate (c_valuedouble i) = Some (c_valueint i))"

fun canonical :: "cJSON \<Rightarrow> bool" where
  "canonical (Item t vs vi vd s ch) =
     (if t = cJSON_Number then vs = None \<and> ch = [] \<and> number_back (Item t vs vi vd s ch)
      else vd = Fin 0 \<and> vi = (if t = cJSON_True then 1 else 0) \<and>
        (if t \<in> {cJSON_NULL, cJSON_False, cJSON_True} then vs = None \<and> ch = []
         else if t = cJSON_String then vs \<noteq> None \<and> cstring_ok vs \<and> ch = []
         else if t = cJSON_Array then vs = None \<and> list_all canonical ch \<and> list_all (\<lambda>c. c_string c = None) ch
         else if t = cJSON_Object then vs = None \<and> list_all canonical ch \<and>
           list_all (\<lambda>c. c_string c \<noteq> None \<and> cstring_ok (c_string c)) ch
         else False))"

fun nesting :: "cJSON \<Rightarrow> nat" where
  "nesting (Item t vs vi vd s ch) =
     (if t = cJSON_Array \<or> t = cJSON_Object then Suc (foldr max (map nesting ch) 0) else 0)"

lemma foldr_max_le: "(foldr max xs (0::nat) \<le> n) \<longleftrightarrow> (\<forall>x \<in> set xs. x \<le> n)"
  by (induction xs) auto

lemma integer_back:
  assumes "\<bar>n\<bar> < 2 ^ 53"
  shows "number_back (Item cJSON_Number None n (Fin (of_int n)) s [])"
proof -
  have r: "round64 (of_int n) = Fin (of_int n)" by (rule round64_int [OF assms])
  have n: "- 9007199254740992 < n" "n < 9007199254740992" using assms by auto
  have "length (format_d n) \<le> 20" by (rule length_format_d) (use n in auto)
  then have "number_text (Item cJSON_Number None n (Fin (of_int n)) s []) = Some (format_d n)"
    by (simp add: number_text_def deq_def of_int64_def r sprintf26_def)
  moreover have "format_d n \<noteq> []" "hd (format_d n) = 45 \<or> is_digit (hd (format_d n))"
    using dec_digits [of n] by (auto simp: format_d_def)
  moreover have "list_all number_char (format_d n)"
    using dec_digits [of n] dec_digits [of "- n"] by (auto simp: format_d_def list_all_iff number_char_def)
  moreover have "saturate (Fin (of_int n)) = Some n"
  proof -
    have "of_int n < (9223372036854775808 :: rat)" "(- 9223372036854775808 :: rat) < of_int n"
      using n by linarith+
    moreover have "of_int64 LLONG_MAX = Fin 9223372036854775808" "of_int64 LLONG_MIN = Fin (- 9223372036854775808)"
      by code_simp+
    ultimately show ?thesis by (simp add: saturate_def)
  qed
  ultimately show ?thesis
    using \<open>length (format_d n) \<le> 20\<close> by (simp add: number_back_def strtod_format_d r)
qed

subsection \<open>Reading text at the offset\<close>

definition reads :: "parse_buffer \<Rightarrow> nat \<Rightarrow> parse_buffer \<Rightarrow> bool" where
  "reads b n b' \<longleftrightarrow> content b' = content b \<and> offset b' = offset b + n \<and> depth b' = depth b \<and>
     (\<forall>k. h_ok (pheap b') k)"

definition ample :: "parse_buffer \<Rightarrow> bool" where
  "ample b \<longleftrightarrow> (\<forall>k. h_ok (pheap b) k)"

definition stops :: "bytes \<Rightarrow> bool" where
  "stops rest \<longleftrightarrow> rest = [] \<or> \<not> number_char (hd rest)"

abbreviation rest_at :: "parse_buffer \<Rightarrow> bytes" where
  "rest_at b \<equiv> drop (offset b) (content b)"

lemma char_at_rest: "rest_at b = c # r \<Longrightarrow> char_at b 0 = Some c"
  by (cases "offset b < length (content b)") (auto simp: char_at_def nth_via_drop)

lemma rest_at_skip: "rest_at b = s @ r \<Longrightarrow> n = length s \<Longrightarrow> rest_at (skip n b) = r"
  by (simp add: add.commute [of "offset b"] drop_drop [symmetric] del: drop_drop)

lemma skip_whitespace_text:
  assumes r: "rest_at b = w @ c # r" and w: "\<forall>x \<in> set w. x \<le> 32" and c: "\<not> c \<le> 32"
  shows "buffer_skip_whitespace b = skip (length w) b"
proof -
  have "offset b + (length w + Suc (length r)) = length (content b)"
    using arg_cong [OF r, of length] by (cases "offset b \<le> length (content b)") auto
  moreover have "space_prefix (rest_at b) = length w"
    unfolding r space_prefix_def using w c by (subst takeWhile_append2) auto
  ultimately show ?thesis
    by (simp add: buffer_skip_whitespace_def can_access_def Let_def)
qed

lemma looking_at_rest: "s \<noteq> [] \<Longrightarrow> looking_at s b \<longleftrightarrow> take (length s) (rest_at b) = lit s"
proof -
  assume "s \<noteq> []"
  have "length s \<le> length (rest_at b)" if "take (length s) (rest_at b) = lit s"
    using arg_cong [OF that, of length] by (simp add: lit_def)
  then show ?thesis using \<open>s \<noteq> []\<close> by (cases "offset b \<le> length (content b)") (auto simp: looking_at_def can_read_def)
qed

subsection \<open>Strings\<close>

lemma control_escape_table:
  "list_all (\<lambda>n. utf16_literal_to_utf8 (92 # 117 # format_04x (of_nat n)) 0 6 = Some (6, [of_nat n]) \<and>
     length (format_04x (of_nat n)) = 4 \<and> list_all (\<lambda>x. x \<noteq> 34 \<and> x \<noteq> 92) (format_04x (of_nat n))) [0..<32]"
  by code_simp

lemma control_escape:
  assumes "(c :: byte) < 32"
  shows "utf16_literal_to_utf8 (92 # 117 # format_04x c) 0 6 = Some (6, [c])"
    "length (format_04x c) = 4" "\<forall>x \<in> set (format_04x c). x \<noteq> 34 \<and> x \<noteq> 92"
proof -
  have "unat c \<in> set [0..<32]" using assms by (simp add: word_less_nat_alt)
  then have "utf16_literal_to_utf8 (92 # 117 # format_04x c) 0 6 = Some (6, [c]) \<and>
     length (format_04x c) = 4 \<and> list_all (\<lambda>x. x \<noteq> 34 \<and> x \<noteq> 92) (format_04x c)"
    using control_escape_table unfolding list_all_iff [of _ "[0..<32]"]
    by (auto dest!: bspec [of _ _ "unat c"])
  then show "utf16_literal_to_utf8 (92 # 117 # format_04x c) 0 6 = Some (6, [c])"
    "length (format_04x c) = 4" "\<forall>x \<in> set (format_04x c). x \<noteq> 34 \<and> x \<noteq> 92"
    by (simp_all add: list_all_iff)
qed

text \<open>The literal is read from the six bytes at the pointer only, when it is no surrogate.\<close>

lemma utf16_literal_shift:
  assumes "utf16_literal_to_utf8 (92 # 117 # d) 0 6 = Some (6, bs)" "length d = 4"
    and "drop ip m = 92 # 117 # d @ r" "ip + 6 \<le> e"
  shows "utf16_literal_to_utf8 m ip e = Some (6, bs)"
proof -
  have "drop (ip + 2) m = d @ r"
    using arg_cong [OF assms(3), of "drop 2"] by (simp add: add.commute)
  moreover from this have "length m - (ip + 2) = 4 + length r"
    using assms(2) by (metis length_append length_drop)
  ultimately have "mem4 m (ip + 2) = Some d"
    using assms(2) by (simp add: mem4_def)
  moreover have "mem4 (92 # 117 # d) 2 = Some d" using assms(2) by (simp add: mem4_def)
  ultimately show ?thesis using assms(1,4)
    by (auto simp: utf16_literal_to_utf8_def surrogate_pair_def Let_def numeral_2_eq_2 split: if_splits)
qed

lemma unescape_escaped:
  assumes "drop ip m = escape_out c @ r" "ip + length (escape_out c) \<le> e"
  shows "unescape m ip e = Some (length (escape_out c), [c])"
proof -
  have first: "ip < length m \<and> m ! ip = x" if "drop ip m = x # t" for x t
    using that by (metis drop_eq_Nil linorder_not_le list.discI nth_via_drop)
  have snd: "ip + 1 < length m \<and> m ! (ip + 1) = y" if "drop ip m = x # y # t" for x y t
  proof -
    have "drop (ip + 1) m = y # t" using arg_cong [OF that, of "drop 1"] by simp
    then show ?thesis by (metis drop_eq_Nil linorder_not_le list.discI nth_via_drop)
  qed
  show ?thesis
  proof (cases "31 < c \<and> c \<noteq> 34 \<and> c \<noteq> 92")
    case True
    then show ?thesis using first [of c r] assms(1) by (auto simp: escape_out_def unescape_def)
  next
    case False
    show ?thesis
    proof (cases "c \<in> {92, 34, 8, 12, 10, 13, 9}")
      case True
      then show ?thesis using assms(1) first snd
        by (fastforce simp: escape_out_def unescape_def escape_char_def)
    next
      case simple: False
      then have small: "c < 32" using False by (auto simp: word_less_nat_alt)
      have e: "escape_out c = 92 # 117 # format_04x c" using False simple by (auto simp: escape_out_def)
      have "utf16_literal_to_utf8 m ip e = Some (6, [c])"
        by (rule utf16_literal_shift [OF control_escape(1) [OF small] control_escape(2) [OF small]])
           (use assms e control_escape(2) [OF small] in auto)
      then show ?thesis using first [of 92] snd [of 92 117] assms(1) e control_escape(2) [OF small]
        by (simp add: unescape_def)
    qed
  qed
qed

lemma scan_plain: "\<forall>x \<in> set d. x \<noteq> 34 \<and> x \<noteq> 92 \<Longrightarrow> scan_string (d @ r) p k = scan_string r (p + length d) k"
  by (induction d arbitrary: p) auto

lemma scan_escape_out:
  "scan_string (escape_out c @ r) p k =
     scan_string r (p + length (escape_out c)) (k + (if length (escape_out c) = 1 then 0 else 1))"
proof (cases "31 < c \<or> c \<in> {92, 34, 8, 12, 10, 13, 9}")
  case True
  then show ?thesis by (auto simp: escape_out_def)
next
  case False
  then have "c < 32" by (auto simp: word_less_nat_alt)
  note e = control_escape [OF this]
  have "escape_out c = 92 # 117 # format_04x c" using False by (auto simp: escape_out_def)
  moreover have "p + 2 + 4 = p + 6" by simp
  ultimately show ?thesis using e(2) scan_plain [OF e(3), of r "p + 2" "k + 1"]
    by (simp only: append_Cons scan_string.simps list.case length_Cons) simp
qed

lemma length_escape_out_pos: "length (escape_out c) = 1 \<or> 2 \<le> length (escape_out c)"
  by (auto simp: escape_out_def)

lemma scan_escaped:
  "\<exists>n. scan_string (concat (map escape_out s) @ 34 # r) p k = Some (p + length (concat (map escape_out s)), k + n) \<and>
     length s + n \<le> length (concat (map escape_out s))"
proof (induction s arbitrary: p k)
  case (Cons c s)
  let ?x = "if length (escape_out c) = 1 then 0 else 1 :: nat"
  from Cons.IH [of "p + length (escape_out c)" "k + ?x"] obtain n where
    n: "scan_string (concat (map escape_out s) @ 34 # r) (p + length (escape_out c)) (k + ?x) =
      Some (p + length (escape_out c) + length (concat (map escape_out s)), k + ?x + n)"
    "length s + n \<le> length (concat (map escape_out s))" by auto
  have "scan_string (concat (map escape_out (c # s)) @ 34 # r) p k =
     Some (p + length (concat (map escape_out (c # s))), k + (?x + n))"
    using n(1) by (simp add: scan_escape_out add.assoc)
  moreover have "length (c # s) + (?x + n) \<le> length (concat (map escape_out (c # s)))"
    using n(2) length_escape_out_pos [of c] by auto
  ultimately show ?case by blast
qed simp

lemma decode_escaped:
  "drop ip m = concat (map escape_out s) @ r \<Longrightarrow> length out + length s \<le> cap \<Longrightarrow>
   decode_loop m (ip + length (concat (map escape_out s))) cap ip out =
     Some (True, ip + length (concat (map escape_out s)), out @ s)"
proof (induction s arbitrary: ip out)
  case Nil
  then show ?case by (simp add: decode_loop.simps)
next
  case (Cons c s)
  let ?l = "length (escape_out c)"
  have u: "unescape m ip (ip + length (concat (map escape_out (c # s)))) = Some (?l, [c])"
    by (rule unescape_escaped) (use Cons.prems(1) in auto)
  have "drop (ip + ?l) m = concat (map escape_out s) @ r"
    using arg_cong [OF Cons.prems(1), of "drop ?l"] by (simp add: add.commute)
  from Cons.IH [OF this, of "out @ [c]"] Cons.prems(2)
  have r: "decode_loop m (ip + ?l + length (concat (map escape_out s))) cap (ip + ?l) (out @ [c]) =
    Some (True, ip + ?l + length (concat (map escape_out s)), out @ c # s)" by simp
  have "0 < ?l" using length_escape_out_pos [of c] by linarith
  then show ?case
    by (subst decode_loop.simps) (use u r Cons.prems(2) in \<open>simp add: add.assoc\<close>)
qed

lemma parse_string_text:
  assumes r: "rest_at b = 34 # concat (map escape_out s) @ 34 # r" and s: "0 \<notin> set s" and ok: "ample b"
  shows "\<exists>b'. parse_string item b = Some ((True, set_type cJSON_String (set_valuestring (Some s) item)), b') \<and>
     reads b (length (concat (map escape_out s)) + 2) b'"
proof -
  let ?t = "concat (map escape_out s)"
  have r1: "drop (Suc (offset b)) (content b) = ?t @ 34 # r"
    using arg_cong [OF r, of "drop 1"] by simp
  from scan_escaped [of s r "Suc (offset b)" 0] obtain n where
    n: "scan_string (?t @ 34 # r) (Suc (offset b)) 0 = Some (Suc (offset b) + length ?t, n)"
    "length s + n \<le> length ?t" by auto
  define h where "h = (pheap b)\<lparr>h_calls := h_calls (pheap b) + 1, h_live := h_live (pheap b) + 1\<rparr>"
  have a: "allocate (pheap b) = (True, h)" using ok by (simp add: ample_def allocate_def h_def)
  have c: "cstr s = s" using s by (auto simp: cstr_def takeWhile_eq_all_conv)
  have d: "decode_loop (content b) (Suc (offset b) + length ?t) (Suc (Suc (offset b) + length ?t - offset b - n)) (Suc (offset b)) [] =
     Some (True, Suc (offset b) + length ?t, [] @ s)"
    by (rule decode_escaped [OF r1]) (use n(2) in simp)
  have l: "\<not> Suc (Suc (length ?t) - n) \<le> length s" using n(2) by linarith
  show ?thesis
    using char_at_rest [OF r] n(1) l ok d
    by (simp add: parse_string_def r1 a Let_def c reads_def ample_def h_def)
qed

subsection \<open>Texts of values\<close>

lemmas type_defs = cJSON_NULL_def cJSON_False_def cJSON_True_def cJSON_Number_def cJSON_Raw_def
  cJSON_String_def cJSON_Array_def cJSON_Object_def

lemma cat_Some: "cat a b = Some t \<longleftrightarrow> (\<exists>x y. a = Some x \<and> b = Some y \<and> t = x @ y)"
  by (auto simp: cat_def split: option.splits)

lemma cat_simp: "cat (Some x) b = map_option (\<lambda>y. x @ y) b"
  by (simp add: cat_def)

lemma canonical_cases:
  assumes "canonical (Item t vs vi vd s ch)"
  obtains (null) "t = cJSON_NULL" "vs = None" "vi = 0" "vd = Fin 0" "ch = []"
  | (false) "t = cJSON_False" "vs = None" "vi = 0" "vd = Fin 0" "ch = []"
  | (true) "t = cJSON_True" "vs = None" "vi = 1" "vd = Fin 0" "ch = []"
  | (number) "t = cJSON_Number" "vs = None" "ch = []" "number_back (Item t vs vi vd s ch)"
  | (string) x where "t = cJSON_String" "vs = Some x" "0 \<notin> set x" "vi = 0" "vd = Fin 0" "ch = []"
  | (array) "t = cJSON_Array" "vs = None" "vi = 0" "vd = Fin 0" "list_all canonical ch"
      "list_all (\<lambda>c. c_string c = None) ch"
  | (object) "t = cJSON_Object" "vs = None" "vi = 0" "vd = Fin 0" "list_all canonical ch"
      "list_all (\<lambda>c. c_string c \<noteq> None \<and> cstring_ok (c_string c)) ch"
  using assms by (auto simp: cstring_ok_def type_defs split: if_splits)

lemma render_first:
  assumes "canonical i" "render f d i = Some t"
  obtains c u where "t = c # u" "\<not> c \<le> 32" "c \<noteq> 93" "c \<noteq> 239"
proof (cases i)
  case (Item ty vs vi vd s ch)
  have dig: "\<not> x \<le> 32 \<and> x \<noteq> 93 \<and> x \<noteq> 239" if "x = 45 \<or> is_digit x" for x
    using that by (auto simp: is_digit_def word_le_nat_alt)
  show ?thesis
    using assms(1) unfolding Item
  proof (cases rule: canonical_cases)
    case number
    then have "\<exists>c u. t = c # u \<and> (c = 45 \<or> is_digit c)"
      using assms(2) Item by (cases t) (auto simp: number_back_def type_defs split: option.splits)
    then show ?thesis using that dig by blast
  qed (use assms(2) Item that in \<open>auto simp: type_defs lit_def quoted_def cat_Some\<close>)
qed

lemma canonical_renders: "canonical i \<Longrightarrow> \<exists>t. render f d i = Some t"
proof (induction i arbitrary: d)
  case (Item ty vs vi vd s ch)
  have el: "\<exists>t. render_elements f d' es = Some t" if "list_all canonical es" "set es \<subseteq> set ch" for es d'
    using that Item.IH by (induction es) (auto simp: cat_Some)
  have me: "\<exists>t. render_members f d' es = Some t" if "list_all canonical es" "set es \<subseteq> set ch" for es d'
    using that Item.IH by (induction es) (auto simp: cat_Some)
  show ?case using Item.prems
  proof (cases rule: canonical_cases)
    case number
    then show ?thesis by (auto simp: number_back_def type_defs split: option.splits)
  qed (use el [of ch "d + 1"] me [of ch "d + 1"] in \<open>auto simp: type_defs cat_Some\<close>)
qed

subsection \<open>Steps of the parser\<close>

lemma reads_trans: "reads b n b' \<Longrightarrow> reads b' m b'' \<Longrightarrow> reads b (n + m) b''"
  by (simp add: reads_def)

lemma reads_ample: "reads b n b' \<Longrightarrow> ample b'"
  by (simp add: reads_def ample_def)

lemma reads_skip: "ample b \<Longrightarrow> reads b n (skip n b)"
  by (simp add: reads_def ample_def)

lemma reads_rest:
  assumes "reads b n b'" "rest_at b = s @ r" "n = length s"
  shows "rest_at b' = r"
  using assms rest_at_skip [of b s r n] by (simp add: reads_def)

lemma new_item_ample:
  "ample b \<Longrightarrow> \<exists>h. cJSON_New_Item (pheap b) = (Some new_item, h) \<and> (\<forall>k. h_ok h k)"
  by (simp add: cJSON_New_Item_def allocate_def ample_def)

lemma space_reads:
  assumes "rest_at b = w @ c # r" "\<forall>x \<in> set w. x \<le> 32" "\<not> c \<le> 32" "ample b"
  shows "reads b (length w) (buffer_skip_whitespace b)" "rest_at (buffer_skip_whitespace b) = c # r"
proof -
  show "reads b (length w) (buffer_skip_whitespace b)"
    unfolding skip_whitespace_text [OF assms(1-3)] by (rule reads_skip [OF assms(4)])
  then show "rest_at (buffer_skip_whitespace b) = c # r" using assms(1) by (rule reads_rest) simp
qed

text \<open>A value of the text at the offset, at any depth that the limit allows.\<close>

definition reads_back :: "(cJSON \<Rightarrow> (bool \<times> cJSON) parse) \<Rightarrow> bool \<Rightarrow> nat \<Rightarrow> cJSON \<Rightarrow> bool" where
  "reads_back pv f d i \<longleftrightarrow>
     (\<forall>t r b t0. render f d i = Some t \<longrightarrow> rest_at b = t @ r \<longrightarrow> stops r \<longrightarrow> ample b \<longrightarrow>
        depth b + nesting i \<le> CJSON_NESTING_LIMIT \<longrightarrow>
        (\<exists>b'. pv (Item t0 None 0 (Fin 0) (c_string i) []) b = Some ((True, i), b') \<and> reads b (length t) b'))"

lemma reads_backD:
  assumes "reads_back pv f d i" "render f d i = Some t" "rest_at b = t @ r" "stops r" "ample b"
    "depth b + nesting i \<le> CJSON_NESTING_LIMIT"
  obtains b' where "pv (Item t0 None 0 (Fin 0) (c_string i) []) b = Some ((True, i), b')" "reads b (length t) b'"
  using assms unfolding reads_back_def by blast

lemma array_loop_back:
  assumes "es \<noteq> []" "\<forall>e \<in> set es. canonical e \<and> reads_back pv f d e \<and> c_string e = None \<and>
      depth b + nesting e \<le> CJSON_NESTING_LIMIT"
    and "render_elements f d es = Some t" "rest_at b = c # w @ t @ 93 # r" "\<forall>x \<in> set w. x \<le> 32" "ample b"
  shows "\<exists>b'. array_loop pv items b = Some ((True, items @ es), b') \<and> reads b (Suc (length w + length t)) b'"
  using assms
proof (induction es arbitrary: items b c w t)
  case (Cons e es)
  from Cons.prems(3) obtain x y where
    x: "render f d e = Some x" and t: "t = x @ y" and
    y: "(if es \<noteq> [] then cat (Some (44 # fmt f [32])) (render_elements f d es) else render_elements f d es) = Some y"
    by (auto simp: cat_Some simp del: render.simps)
  obtain h where h: "cJSON_New_Item (pheap b) = (Some new_item, h)" "\<forall>k. h_ok h k"
    using new_item_ample [OF Cons.prems(6)] by blast
  define b1 where "b1 = skip 1 (b\<lparr>pheap := h\<rparr>)"
  have b1: "reads b 1 b1" "ample b1" using h(2) by (simp_all add: b1_def reads_def ample_def)
  have r1: "rest_at b1 = w @ x @ y @ 93 # r" 
    by (rule reads_rest [OF b1(1), of "[c]"]) (use Cons.prems(4) t in simp_all)
  obtain c0 x' where c0: "x = c0 # x'" "\<not> c0 \<le> 32" 
    by (rule render_first [OF _ x]) (use Cons.prems(2) in auto)
  define b2 where "b2 = buffer_skip_whitespace b1"
  have b2: "reads b1 (length w) b2" "rest_at b2 = x @ y @ 93 # r"
    using space_reads [OF _ Cons.prems(5) c0(2) b1(2), of "x' @ y @ 93 # r"] r1 c0(1) by (simp_all add: b2_def)
  have st: "\<exists>c r'. y @ 93 # r = c # r' \<and> \<not> c \<le> 32 \<and> \<not> number_char c"
    using y by (auto simp: cat_Some fmt_def number_char_def is_digit_def split: if_splits)
  then obtain c1 r' where c1: "y @ 93 # r = c1 # r'" "\<not> c1 \<le> 32" "\<not> number_char c1" by blast
  have d2: "depth b2 = depth b" using b1(1) b2(1) by (simp add: reads_def)
  obtain b3 where b3: "pv (Item cJSON_Invalid None 0 (Fin 0) (c_string e) []) b2 = Some ((True, e), b3)"
    "reads b2 (length x) b3"
    by (rule reads_backD [of pv f d e x b2 "y @ 93 # r" cJSON_Invalid])
       (use Cons.prems(2) x b2 c1 d2 reads_ample [OF b2(1)] in \<open>auto simp: stops_def\<close>)
  have pv: "pv new_item b2 = Some ((True, e), b3)" using b3(1) Cons.prems(2) by (simp add: new_item_def)
  have r3: "rest_at b3 = y @ 93 # r" by (rule reads_rest [OF b3(2) b2(2)]) simp
  have s3: "buffer_skip_whitespace b3 = b3"
    using skip_whitespace_text [of b3 "[]" c1 r'] r3 c1 by simp
  have total: "reads b (1 + length w + length x) b3"
    by (intro reads_trans [OF reads_trans [OF b1(1) b2(1)] b3(2)])
  have nb: "buffer_skip_whitespace (b\<lparr>pheap := h, offset := Suc (offset b)\<rparr>) = b2" by (simp add: b1_def b2_def)
  note step = array_loop.simps [of pv items b]
  show ?case
  proof (cases "es = []")
    case True
    then have "y = []" using y by simp
    then have "char_at b3 0 = Some 93" using char_at_rest r3 by simp
    then have "array_loop pv items b = Some ((True, items @ e # es), b3)"
      using True by (subst step) (simp add: h(1) Let_def nb pv s3)
    then show ?thesis using total t \<open>y = []\<close> by auto
  next
    case False
    then obtain z where z: "render_elements f d es = Some z" "y = 44 # fmt f [32] @ z"
      using y by (auto simp: cat_Some)
    have c44: "char_at b3 0 = Some 44" using char_at_rest r3 z(2) by simp
    have d3: "depth b3 = depth b" using total by (simp add: reads_def)
    have sp: "\<forall>x \<in> set (fmt f [32 :: byte]). x \<le> 32" by (simp add: fmt_def)
    from Cons.IH [OF False _ z(1) _ sp reads_ample [OF b3(2)], of 44 "items @ [e]"] obtain b4 where
      b4: "array_loop pv (items @ [e]) b3 = Some ((True, (items @ [e]) @ es), b4)"
      "reads b3 (Suc (length (fmt f [32 :: byte]) + length z)) b4"
      using Cons.prems(2) r3 z(2) d3 by auto
    have "array_loop pv items b = Some ((True, items @ e # es), b4)"
      using b4(1) by (subst step) (simp add: h(1) Let_def nb pv s3 c44)
    moreover have "reads b (Suc (length w + length t)) b4"
      using reads_trans [OF total b4(2)] t z(2) by (simp add: add_ac)
    ultimately show ?thesis by blast
  qed
qed simp

text \<open>A member: its name, the colon and its value, up to the value's end.\<close>

lemma member_back:
  assumes e: "canonical e" "reads_back pv f d e" "c_string e = Some k" "0 \<notin> set k"
      "depth b + nesting e \<le> CJSON_NESTING_LIMIT"
    and x: "render f d e = Some x" and r: "rest_at b = quoted (Some k) @ 58 # fmt f [9] @ x @ y"
    and y: "stops y" and ok: "ample b"
  obtains b1 b2 where
    "parse_string new_item b = Some ((True, Item cJSON_String (Some k) 0 (Fin 0) None []), b1)"
    "char_at (buffer_skip_whitespace b1) 0 = Some 58"
    "pv (Item cJSON_String None 0 (Fin 0) (Some k) []) (buffer_skip_whitespace (skip 1 (buffer_skip_whitespace b1))) =
       Some ((True, e), b2)"
    "reads b (length (quoted (Some k)) + Suc (length (fmt f [9 :: byte])) + length x) b2"
proof -
  have r': "rest_at b = 34 # concat (map escape_out k) @ 34 # 58 # fmt f [9] @ x @ y"
    using r by (simp add: quoted_def)
  from parse_string_text [OF r' e(4) ok, of new_item] obtain b1 where
    b1: "parse_string new_item b = Some ((True, Item cJSON_String (Some k) 0 (Fin 0) None []), b1)"
    "reads b (length (quoted (Some k))) b1" by (auto simp: new_item_def quoted_def)
  have r1: "rest_at b1 = 58 # fmt f [9] @ x @ y" by (rule reads_rest [OF b1(2) r]) simp
  have s1: "buffer_skip_whitespace b1 = b1" using skip_whitespace_text [of b1 "[]" 58] r1 by simp
  have c1: "char_at b1 0 = Some 58" by (rule char_at_rest [OF r1])
  have k1: "reads b1 1 (skip 1 b1)" by (rule reads_skip [OF reads_ample [OF b1(2)]])
  have rk: "rest_at (skip 1 b1) = fmt f [9] @ x @ y" by (rule reads_rest [OF k1, of "[58]"]) (use r1 in simp_all)
  obtain c0 x' where c0: "x = c0 # x'" "\<not> c0 \<le> 32" by (rule render_first [OF e(1) x])
  have sp: "\<forall>x \<in> set (fmt f [9 :: byte]). x \<le> 32" by (simp add: fmt_def)
  define b2 where "b2 = buffer_skip_whitespace (skip 1 b1)"
  have b2: "reads (skip 1 b1) (length (fmt f [9 :: byte])) b2" "rest_at b2 = x @ y"
    using space_reads [OF _ sp c0(2) reads_ample [OF k1], of "x' @ y"] rk c0(1) by (simp_all add: b2_def)
  have t2: "reads b (length (quoted (Some k)) + 1 + length (fmt f [9 :: byte])) b2"
    by (rule reads_trans [OF reads_trans [OF b1(2) k1] b2(1)])
  obtain b3 where b3: "pv (Item cJSON_String None 0 (Fin 0) (c_string e) []) b2 = Some ((True, e), b3)"
    "reads b2 (length x) b3"
    by (rule reads_backD [OF e(2) x b2(2) y reads_ample [OF b2(1)], of cJSON_String])
       (use e(5) t2 in \<open>auto simp: reads_def\<close>)
  show ?thesis
    by (rule that [OF b1(1), of b3])
       (use c1 s1 b3 e(3) reads_trans [OF t2 b3(2)] in \<open>simp_all add: b2_def\<close>)
qed

lemma space_no_number: "x \<le> 32 \<Longrightarrow> \<not> number_char x"
  by (auto simp: number_char_def is_digit_def word_le_nat_alt)

lemma object_loop_back:
  assumes "es \<noteq> []" "\<forall>e \<in> set es. canonical e \<and> reads_back pv f d e \<and> c_string e \<noteq> None \<and>
      cstring_ok (c_string e) \<and> depth b + nesting e \<le> CJSON_NESTING_LIMIT"
    and "render_members f d es = Some (fmt f (replicate d 9) @ u)"
      "rest_at b = c # w @ u @ w2 @ 125 # r" "\<forall>x \<in> set w \<union> set w2. x \<le> 32" "ample b"
  shows "\<exists>b'. object_loop pv items b = Some ((True, items @ es), b') \<and>
     reads b (Suc (length w + length u + length w2)) b'"
  using assms
proof (induction es arbitrary: items b c w u)
  case (Cons e es)
  obtain k where k: "c_string e = Some k" "0 \<notin> set k" using Cons.prems(2) by (auto simp: cstring_ok_def)
  from Cons.prems(3) obtain x z where x: "render f d e = Some x" and z: "render_members f d es = Some z"
    and u: "u = quoted (Some k) @ 58 # fmt f [9] @ x @ (if es \<noteq> [] then [44] else []) @ fmt f [10] @ z"
    by (auto simp: cat_Some k(1) simp del: render.simps)
  define y where "y = (if es \<noteq> [] then [44] else []) @ fmt f [10] @ z @ w2 @ 125 # r"
  obtain h where h: "cJSON_New_Item (pheap b) = (Some new_item, h)" "\<forall>k. h_ok h k"
    using new_item_ample [OF Cons.prems(6)] by blast
  define b1 where "b1 = skip 1 (b\<lparr>pheap := h\<rparr>)"
  have b1: "reads b 1 b1" "ample b1" using h(2) by (simp_all add: b1_def reads_def ample_def)
  have r1: "rest_at b1 = w @ quoted (Some k) @ 58 # fmt f [9] @ x @ y"
    by (rule reads_rest [OF b1(1), of "[c]"]) (use Cons.prems(4) u in \<open>simp_all add: y_def\<close>)
  define b2 where "b2 = buffer_skip_whitespace b1"
  have w: "\<forall>x \<in> set w. x \<le> 32" and w2: "\<forall>x \<in> set w2. x \<le> 32" using Cons.prems(5) by auto
  have b2: "reads b1 (length w) b2" "rest_at b2 = quoted (Some k) @ 58 # fmt f [9] @ x @ y"
    using space_reads [OF _ w _ b1(2), of 34] r1 by (simp_all add: b2_def quoted_def)
  have t2: "reads b (1 + length w) b2" by (rule reads_trans [OF b1(1) b2(1)])
  have nc: "\<not> number_char 44" "\<not> number_char 10" "\<not> number_char 125"
    by (simp_all add: number_char_def is_digit_def)
  have st: "stops y"
    using z w2 by (cases w2) (auto simp: y_def stops_def fmt_def space_no_number nc)
  have dep: "depth b2 + nesting e \<le> CJSON_NESTING_LIMIT" using Cons.prems(2) t2 by (simp add: reads_def)
  have ce: "canonical e" "reads_back pv f d e" using Cons.prems(2) by auto
  obtain b3 b4 where
    m: "parse_string new_item b2 = Some ((True, Item cJSON_String (Some k) 0 (Fin 0) None []), b3)"
    "char_at (buffer_skip_whitespace b3) 0 = Some 58"
    "pv (Item cJSON_String None 0 (Fin 0) (Some k) []) (buffer_skip_whitespace (skip 1 (buffer_skip_whitespace b3))) =
       Some ((True, e), b4)"
    "reads b2 (length (quoted (Some k)) + Suc (length (fmt f [9 :: byte])) + length x) b4"
    by (rule member_back [OF ce k dep x b2(2) st reads_ample [OF b2(1)]])
  have r4: "rest_at b4 = y"
    by (rule reads_rest [OF m(4), of "quoted (Some k) @ 58 # fmt f [9] @ x"]) (use b2(2) in simp_all)
  note total = reads_trans [OF t2 m(4)]
  have nb: "buffer_skip_whitespace (b\<lparr>pheap := h, offset := Suc (offset b)\<rparr>) = b2" by (simp add: b1_def b2_def)
  note step = object_loop.simps [of pv items b]
  show ?case
  proof (cases "es = []")
    case True
    define ws where "ws = fmt f [10] @ w2"
    have ws: "\<forall>x \<in> set ws. x \<le> 32" using w2 by (auto simp: ws_def fmt_def)
    have "rest_at b4 = ws @ 125 # r" using r4 True z by (simp add: y_def ws_def)
    moreover have "\<not> (125 :: byte) \<le> 32" by simp
    ultimately have s: "reads b4 (length ws) (buffer_skip_whitespace b4)" "rest_at (buffer_skip_whitespace b4) = 125 # r"
      using space_reads ws reads_ample [OF m(4)] by blast+
    have "char_at (buffer_skip_whitespace b4) 0 = Some 125" by (rule char_at_rest [OF s(2)])
    then have "object_loop pv items b = Some ((True, items @ e # es), buffer_skip_whitespace b4)"
      using True m(2,3) by (subst step) (simp add: h(1) Let_def nb m(1))
    moreover have "reads b (Suc (length w + length u + length w2)) (buffer_skip_whitespace b4)"
      using reads_trans [OF total s(1)] True u z by (simp add: ws_def add_ac)
    ultimately show ?thesis by blast
  next
    case False
    then obtain e' es' where es: "es = e' # es'" by (cases es) auto
    obtain v where v: "z = fmt f (replicate d 9) @ v" using z es by (auto simp: cat_Some simp del: render.simps)
    define ws where "ws = fmt f [10 :: byte] @ fmt f (replicate d 9)"
    have ws: "\<forall>x \<in> set ws \<union> set w2. x \<le> 32" using w2 by (auto simp: ws_def fmt_def)
    have r4': "rest_at b4 = 44 # ws @ v @ w2 @ 125 # r" using r4 False v by (simp add: y_def ws_def)
    have s4: "buffer_skip_whitespace b4 = b4" using skip_whitespace_text [of b4 "[]" 44] r4' by simp
    have c4: "char_at b4 0 = Some 44" by (rule char_at_rest [OF r4'])
    have d4: "depth b4 = depth b" using total by (simp add: reads_def)
    from Cons.IH [OF False _ _ r4' ws reads_ample [OF m(4)], of "items @ [e]"] obtain b5 where
      b5: "object_loop pv (items @ [e]) b4 = Some ((True, (items @ [e]) @ es), b5)"
      "reads b4 (Suc (length ws + length v + length w2)) b5"
      using Cons.prems(2) z v d4 by auto
    have "object_loop pv items b = Some ((True, items @ e # es), b5)"
      using b5(1) m(2,3) by (subst step) (simp add: h(1) Let_def nb m(1) s4 c4)
    moreover have "reads b (Suc (length w + length u + length w2)) b5"
      using reads_trans [OF total b5(2)] False u v by (simp add: ws_def add_ac)
    ultimately show ?thesis by blast
  qed
qed simp

subsection \<open>Values\<close>

lemma parse_value_no_literal:
  assumes "rest_at b = c # u" "c \<notin> {110, 102, 116}"
  shows "parse_value (Suc n) item b =
     (if c = 34 then parse_string item b
      else if c = 45 \<or> (48 \<le> c \<and> c \<le> 57) then parse_number item b
      else if c = 91 then parse_array (parse_value n) item b
      else if c = 123 then parse_object (parse_value n) item b
      else Some ((False, item), b))"
proof -
  have "\<not> looking_at ''null'' b" "\<not> looking_at ''false'' b" "\<not> looking_at ''true'' b"
    using assms by (auto simp: looking_at_rest lit_def)
  then show ?thesis using char_at_rest [OF assms(1)] by simp
qed

lemma parse_value_literal:
  assumes "rest_at b = lit s @ r"
  shows "s = ''null'' \<Longrightarrow> parse_value (Suc n) item b = Some ((True, set_type cJSON_NULL item), skip 4 b)"
    "s = ''false'' \<Longrightarrow> parse_value (Suc n) item b = Some ((True, set_type cJSON_False item), skip 5 b)"
    "s = ''true'' \<Longrightarrow> parse_value (Suc n) item b =
       Some ((True, set_type cJSON_True (set_number 1 (c_valuedouble item) item)), skip 4 b)"
  using assms by (simp_all add: looking_at_rest lit_def)

lemma number_reads:
  assumes "number_back (Item t vs vi vd s ch)" "number_text (Item t vs vi vd s ch) = Some x"
    "rest_at b = x @ r" "stops r" "ample b"
  shows "parse_number item b = Some ((True, set_type cJSON_Number (set_number vi vd item)), skip (length x) b)"
    "\<exists>c u. x = c # u \<and> (c = 45 \<or> is_digit c)"
proof -
  have x: "x \<noteq> []" "list_all number_char x" "hd x = 45 \<or> is_digit (hd x)" "length x \<le> 63"
    "strtod x = (vd, length x)" "saturate vd = Some vi"
    using assms(1,2) by (auto simp: number_back_def)
  show "\<exists>c u. x = c # u \<and> (c = 45 \<or> is_digit c)" using x(1,3) by (cases x) auto
  have "takeWhile number_char (take 63 (x @ r)) = x"
  proof -
    have "take 63 (x @ r) = x @ take (63 - length x) r" using x(4) by simp
    moreover have "takeWhile number_char (take (63 - length x) r) = []"
      using assms(4) by (cases r; cases "63 - length x") (auto simp: stops_def)
    ultimately show ?thesis using x(2) by (simp add: takeWhile_append list_all_iff)
  qed
  then show "parse_number item b = Some ((True, set_type cJSON_Number (set_number vi vd item)), skip (length x) b)"
    using x by (simp add: parse_number_def assms(3))
qed

lemma close_container_reads:
  assumes "rest_at b = c # r" "ample b" "0 < depth b"
  shows "\<exists>b'. close_container t c item (True, ch) b = Some ((True, set_child ch (set_type t item)), b') \<and>
     content b' = content b \<and> offset b' = offset b + 1 \<and> depth b' = depth b - 1 \<and> (\<forall>k. h_ok (pheap b') k)"
  using char_at_rest [OF assms(1)] assms(2) by (simp add: close_container_def ample_def)

text \<open>Entering a container: the depth, and the position in front of the first child.\<close>

abbreviation enter :: "parse_buffer \<Rightarrow> parse_buffer" where
  "enter b \<equiv> b\<lparr>depth := depth b + 1\<rparr>"

lemma array_back:
  assumes ch: "\<forall>e \<in> set ch. canonical e \<and> reads_back pv f (d + 1) e \<and> c_string e = None \<and>
      Suc (depth b) + nesting e \<le> CJSON_NESTING_LIMIT"
    and t: "render_elements f (d + 1) ch = Some t" and r: "rest_at b = 91 # t @ 93 # r"
    and ok: "ample b" and lim: "depth b < CJSON_NESTING_LIMIT"
  shows "\<exists>b'. parse_array pv item b = Some ((True, set_child ch (set_type cJSON_Array item)), b') \<and>
     reads b (length t + 2) b'"
proof -
  have r0: "rest_at (enter b) = 91 # t @ 93 # r" and ok0: "ample (enter b)"
    using r ok by (simp_all add: ample_def)
  have c: "char_at (enter b) 0 = Some 91" by (rule char_at_rest [OF r0])
  have r1: "rest_at (skip 1 (enter b)) = t @ 93 # r" by (rule rest_at_skip [of _ "[91]"]) (use r0 in simp_all)
  have first: "\<exists>x u. t @ 93 # r = x # u \<and> \<not> x \<le> 32 \<and> (x = 93 \<longleftrightarrow> ch = [])"
  proof (cases ch)
    case (Cons e es)
    then obtain x y where x: "render f (d + 1) e = Some x" "t = x @ y" using t by (auto simp: cat_Some)
    then show ?thesis using render_first [OF _ x(1)] ch Cons by (metis append_Cons list.distinct(1) list.set_intros(1))
  qed (use t in simp)
  then obtain x u where x: "t @ 93 # r = x # u" "\<not> x \<le> 32" "x = 93 \<longleftrightarrow> ch = []" by blast
  have s1: "buffer_skip_whitespace (skip 1 (enter b)) = skip 1 (enter b)"
    using skip_whitespace_text [of "skip 1 (enter b)" "[]" x u] r1 x by simp
  have c1: "char_at (skip 1 (enter b)) 0 = Some x" using char_at_rest r1 x(1) by metis
  then have acc: "can_access (skip 1 (enter b)) 0" by (simp add: char_at_def can_access_def split: if_splits)
  have dd: "(skip 1 (enter b))\<lparr>offset := offset (skip 1 (enter b)) - 1\<rparr> = enter b" by simp
  note start = c s1 c1 lim acc
  show ?thesis
  proof (cases "ch = []")
    case True
    then have "t = []" using t by simp
    moreover obtain b' where "close_container cJSON_Array 93 item (True, []) (skip 1 (enter b)) =
        Some ((True, set_child [] (set_type cJSON_Array item)), b')"
      "content b' = content b \<and> offset b' = offset b + 2 \<and> depth b' = depth b \<and> (\<forall>k. h_ok (pheap b') k)"
      using close_container_reads [of "skip 1 (enter b)" 93 r cJSON_Array item "[]"] r1 \<open>t = []\<close> ok
      by (auto simp: ample_def)
    ultimately show ?thesis
      using start True x(3) by (auto simp: parse_array_def Let_def reads_def)
  next
    case False
    from array_loop_back [where items = "[]" and b = "enter b" and c = 91 and w = "[]" and r = r and pv = pv, OF False _ t] obtain b2 where
      b2: "array_loop pv [] (enter b) = Some ((True, ch), b2)" "reads (enter b) (Suc (length t)) b2"
      using ch r0 ok0 by auto
    have r2: "rest_at b2 = 93 # r" by (rule reads_rest [OF b2(2), of "91 # t"]) (use r0 in simp_all)
    have d2: "depth b2 = depth b + 1" using b2(2) by (simp add: reads_def)
    from close_container_reads [OF r2 reads_ample [OF b2(2)], of cJSON_Array item ch] d2 obtain b3 where
      "close_container cJSON_Array 93 item (True, ch) b2 = Some ((True, set_child ch (set_type cJSON_Array item)), b3)"
      "reads b (length t + 2) b3"
      using b2(2) by (auto simp: reads_def)
    then show ?thesis using start False x(3) b2(1) dd
      by (simp add: parse_array_def Let_def)
  qed
qed

lemma object_back:
  assumes ch: "\<forall>e \<in> set ch. canonical e \<and> reads_back pv f (d + 1) e \<and> c_string e \<noteq> None \<and>
      cstring_ok (c_string e) \<and> Suc (depth b) + nesting e \<le> CJSON_NESTING_LIMIT"
    and t: "render_members f (d + 1) ch = Some t"
    and r: "rest_at b = (123 # fmt f [10]) @ t @ fmt f (replicate d 9) @ 125 # r"
    and ok: "ample b" and lim: "depth b < CJSON_NESTING_LIMIT"
  shows "\<exists>b'. parse_object pv item b = Some ((True, set_child ch (set_type cJSON_Object item)), b') \<and>
     reads b (length (fmt f [10 :: byte]) + length t + length (fmt f (replicate d (9 :: byte))) + 2) b'"
proof -
  define w2 :: bytes where "w2 = fmt f (replicate d 9)"
  define w :: bytes where "w = fmt f [10] @ (if ch = [] then w2 else fmt f (replicate (d + 1) 9))"
  have ws: "\<forall>x \<in> set w. x \<le> 32" "\<forall>x \<in> set w2. x \<le> 32" by (auto simp: w_def w2_def fmt_def)
  have "\<exists>u. (ch \<noteq> [] \<longrightarrow> t = fmt f (replicate (d + 1) 9) @ u) \<and> (ch = [] \<longrightarrow> t = []) \<and>
     fmt f [10] @ t @ w2 @ 125 # r = w @ (if ch = [] then 125 # r else u @ w2 @ 125 # r) \<and>
     (ch \<noteq> [] \<longrightarrow> hd u = 34 \<and> u \<noteq> [])"
    using t ch by (cases ch) (auto simp: cat_Some w_def quoted_def cstring_ok_def simp del: render.simps)
  then obtain u where u: "ch \<noteq> [] \<Longrightarrow> t = fmt f (replicate (d + 1) 9) @ u" "ch = [] \<Longrightarrow> t = []"
    "fmt f [10] @ t @ w2 @ 125 # r = w @ (if ch = [] then 125 # r else u @ w2 @ 125 # r)"
    "ch \<noteq> [] \<Longrightarrow> hd u = 34 \<and> u \<noteq> []" by blast
  define x :: byte where "x = (if ch = [] then 125 else 34)"
  define v where "v = (if ch = [] then r else tl u @ w2 @ 125 # r)"
  have xv: "(if ch = [] then 125 # r else u @ w2 @ 125 # r) = x # v"
    using u(4) by (cases u) (auto simp: x_def v_def)
  have r0: "rest_at (enter b) = (123 # w) @ x # v" and ok0: "ample (enter b)"
    using r ok u(3) xv by (simp_all add: ample_def w2_def)
  have c: "char_at (enter b) 0 = Some 123" by (rule char_at_rest) (use r0 in simp)
  have k1: "reads (enter b) 1 (skip 1 (enter b))" by (rule reads_skip [OF ok0])
  have r1: "rest_at (skip 1 (enter b)) = w @ x # v" by (rule reads_rest [OF k1, of "[123]"]) (use r0 in simp_all)
  define b1 where "b1 = buffer_skip_whitespace (skip 1 (enter b))"
  have b1: "reads (skip 1 (enter b)) (length w) b1" "rest_at b1 = x # v"
    using space_reads [OF r1 ws(1) _ reads_ample [OF k1]] by (simp_all add: b1_def x_def)
  have e1: "b1 = (enter b)\<lparr>offset := offset b + Suc (length w)\<rparr>"
    using skip_whitespace_text [OF r1 ws(1)] by (simp add: b1_def x_def)
  have c1: "char_at b1 0 = Some x" by (rule char_at_rest [OF b1(2)])
  then have acc: "can_access b1 0" by (simp add: char_at_def can_access_def split: if_splits)
  have t1: "reads (enter b) (1 + length w) b1" by (rule reads_trans [OF k1 b1(1)])
  have nb: "buffer_skip_whitespace (b\<lparr>depth := Suc (depth b), offset := Suc (offset b)\<rparr>) = b1"
    by (simp add: b1_def)
  note start = c nb c1 lim acc
  have d1: "depth b1 = depth b + 1" using t1 by (simp add: reads_def)
  show ?thesis
  proof (cases "ch = []")
    case True
    from close_container_reads [OF b1(2) reads_ample [OF b1(1)], of cJSON_Object item "[]"] d1 obtain b2 where
      "close_container cJSON_Object x item (True, []) b1 = Some ((True, set_child [] (set_type cJSON_Object item)), b2)"
      "reads b (length w + 2) b2"
      using t1 by (auto simp: reads_def)
    then show ?thesis
      using start True u(2) by (auto simp: parse_object_def Let_def x_def w_def w2_def add_ac)
  next
    case False
    define b2 where "b2 = b1\<lparr>offset := offset b1 - 1\<rparr>"
    have "drop (length w) (123 # w) = [last (123 # w)]"
      by (metis append_butlast_last_id append_eq_conv_conj diff_Suc_1 length_Cons length_butlast list.distinct(1))
    moreover have "rest_at b2 = drop (length w) (rest_at (enter b))"
      by (simp add: b2_def e1 add.commute)
    ultimately have r2: "rest_at b2 = last (123 # w) # u @ w2 @ 125 # r"
      unfolding r0 drop_append using xv False by (simp del: last.simps)
    have a2: "ample b2" using reads_ample [OF t1] by (simp add: b2_def ample_def)
    have rm: "render_members f (d + 1) ch = Some (fmt f (replicate (d + 1) 9) @ u)" using t u(1) [OF False] by simp
    from object_loop_back [where items = "[]" and b = b2 and w = "[]" and ?w2.0 = w2 and r = r and pv = pv, OF False _ rm] obtain b3 where
      b3: "object_loop pv [] b2 = Some ((True, ch), b3)" "reads b2 (Suc (length u + length w2)) b3"
      using ch r2 a2 ws(2) d1 by (auto simp: b2_def)
    have r3: "rest_at b3 = 125 # r"
      by (rule reads_rest [OF b3(2), of "last (123 # w) # u @ w2"]) (use r2 in simp_all)
    have d3: "depth b3 = depth b + 1" using b3(2) d1 by (simp add: reads_def b2_def)
    from close_container_reads [OF r3 reads_ample [OF b3(2)], of cJSON_Object item ch] d3 obtain b4 where
      b4: "close_container cJSON_Object 125 item (True, ch) b3 = Some ((True, set_child ch (set_type cJSON_Object item)), b4)"
      "content b4 = content b3" "offset b4 = offset b3 + 1" "depth b4 = depth b" "\<forall>k. h_ok (pheap b4) k" by auto
    have "reads b (length w + length u + length w2 + 2) b4"
      using b4 b3(2) by (simp add: reads_def b2_def e1)
    moreover have "parse_object pv item b = Some ((True, set_child ch (set_type cJSON_Object item)), b4)"
      using start False b3(1) b4(1) by (simp add: parse_object_def Let_def x_def b2_def)
    ultimately show ?thesis using u(1) [OF False] False by (auto simp: w_def w2_def add_ac)
  qed
qed

lemma nesting_child:
  "c \<in> set ch \<Longrightarrow> t = cJSON_Array \<or> t = cJSON_Object \<Longrightarrow> Suc (nesting c) \<le> nesting (Item t vs vi vd s ch)"
  using foldr_max_le [of "map nesting ch" "foldr max (map nesting ch) 0"] by auto

lemma value_back: "canonical i \<Longrightarrow> nesting i \<le> n \<Longrightarrow> reads_back (parse_value (Suc n)) f d i"
proof (induction i arbitrary: n d)
  case (Item ty vs vi vd s ch)
  let ?i = "Item ty vs vi vd s ch"
  show ?case unfolding reads_back_def
  proof (intro allI impI)
    fix t r b t0
    assume t: "render f d ?i = Some t" and r: "rest_at b = t @ r" and st: "stops r" and ok: "ample b"
      and dp: "depth b + nesting ?i \<le> CJSON_NESTING_LIMIT"
    let ?n = "Item t0 None 0 (Fin 0) (c_string ?i) []"
    have child: "canonical c \<and> reads_back (parse_value n) f (d + 1) c \<and> Suc (depth b) + nesting c \<le> CJSON_NESTING_LIMIT"
      if "c \<in> set ch" "list_all canonical ch" "ty = cJSON_Array \<or> ty = cJSON_Object" for c
    proof -
      have n: "Suc (nesting c) \<le> nesting ?i" by (rule nesting_child [OF that(1,3)])
      then obtain m where m: "n = Suc m" "nesting c \<le> m" using Item.prems(2) by (cases n) auto
      moreover have "canonical c" using that by (auto simp: list_all_iff)
      ultimately show ?thesis using Item.IH [OF that(1), of m "d + 1"] n dp by (simp del: parse_value.simps nesting.simps)
    qed
    have lim: "depth b < CJSON_NESTING_LIMIT" if "ty = cJSON_Array \<or> ty = cJSON_Object"
      using dp that by (auto simp: Suc_le_eq)
    show "\<exists>b'. parse_value (Suc n) ?n b = Some ((True, ?i), b') \<and> reads b (length t) b'"
      using Item.prems(1)
    proof (cases rule: canonical_cases)
      case null
      then show ?thesis using t r reads_skip [OF ok, of 4] parse_value_literal(1) [of b "''null''" r n ?n]
        by (auto simp: type_defs lit_def numeral_eq_Suc simp del: parse_value.simps)
    next
      case false
      then show ?thesis using t r reads_skip [OF ok, of 5] parse_value_literal(2) [of b "''false''" r n ?n]
        by (auto simp: type_defs lit_def numeral_eq_Suc simp del: parse_value.simps)
    next
      case true
      then show ?thesis using t r reads_skip [OF ok, of 4] parse_value_literal(3) [of b "''true''" r n ?n]
        by (auto simp: type_defs lit_def numeral_eq_Suc simp del: parse_value.simps)
    next
      case number
      have nt: "number_text ?i = Some t" using t number(1) by (simp add: type_defs)
      note nr = number_reads [OF number(4) nt r st ok]
      from nr(2) obtain c u where c: "t = c # u" "c = 45 \<or> is_digit c" by blast
      have "c \<notin> {110, 102, 116, 34}" "c = 45 \<or> 48 \<le> c \<and> c \<le> 57"
        using c(2) by (auto simp: is_digit_def word_le_nat_alt)
      then have "parse_value (Suc n) ?n b = parse_number ?n b"
        using parse_value_no_literal [of b c "u @ r"] r c(1) by (simp del: parse_value.simps)
      then show ?thesis using nr(1) [of ?n] number reads_skip [OF ok] by auto
    next
      case (string x)
      have "rest_at b = 34 # concat (map escape_out x) @ 34 # r" and l: "length t = length (concat (map escape_out x)) + 2"
        using t r string(1,2) by (auto simp: type_defs quoted_def)
      note pr = parse_string_text [OF this(1) string(3) ok, of ?n] and nl = parse_value_no_literal [OF this(1)]
      show ?thesis using pr string unfolding l by (subst nl) auto
    next
      case array
      from t obtain u where u: "render_elements f (d + 1) ch = Some u" "t = 91 # u @ [93]"
        using array(1) by (auto simp: type_defs cat_Some)
      have r': "rest_at b = 91 # u @ 93 # r" using r u(2) by simp
      have "\<forall>e \<in> set ch. canonical e \<and> reads_back (parse_value n) f (d + 1) e \<and> c_string e = None \<and>
        Suc (depth b) + nesting e \<le> CJSON_NESTING_LIMIT" using child array(1,5,6) by (auto simp: list_all_iff)
      from array_back [OF this u(1) r' ok lim, of ?n] array(1) obtain b' where
        "parse_array (parse_value n) ?n b = Some ((True, set_child ch (set_type cJSON_Array ?n)), b')"
        "reads b (length u + 2) b'" by blast
      then show ?thesis using u(2) array by (subst parse_value_no_literal [OF r']) auto
    next
      case object
      from t obtain u where u: "render_members f (d + 1) ch = Some u"
          "t = (123 # fmt f [10]) @ u @ fmt f (replicate d 9) @ [125]"
        using object(1) by (auto simp: type_defs cat_Some)
      have r': "rest_at b = (123 # fmt f [10]) @ u @ fmt f (replicate d 9) @ 125 # r" using r u(2) by simp
      then have r2: "rest_at b = 123 # (fmt f [10] @ u @ fmt f (replicate d 9) @ 125 # r)" by simp
      have "\<forall>e \<in> set ch. canonical e \<and> reads_back (parse_value n) f (d + 1) e \<and> c_string e \<noteq> None \<and>
        cstring_ok (c_string e) \<and> Suc (depth b) + nesting e \<le> CJSON_NESTING_LIMIT"
        using child object(1,5,6) by (auto simp: list_all_iff)
      from object_back [OF this u(1) r' ok lim, of ?n] object(1) obtain b' where
        "parse_object (parse_value n) ?n b = Some ((True, set_child ch (set_type cJSON_Object ?n)), b')"
        "reads b (length (fmt f [10 :: byte]) + length u + length (fmt f (replicate d (9 :: byte))) + 2) b'" by blast
      moreover have "parse_value (Suc n) ?n b = parse_object (parse_value n) ?n b"
        by (subst parse_value_no_literal [OF r2]) simp_all
      moreover have "length t = length (fmt f [10 :: byte]) + length u + length (fmt f (replicate d (9 :: byte))) + 2"
        using u(2) by simp
      ultimately show ?thesis using object by (simp del: parse_value.simps)
    qed
  qed
qed

lemma parse_rendered:
  assumes "canonical i" "c_string i = None" "nesting i \<le> CJSON_NESTING_LIMIT" "render f 0 i = Some t" "\<forall>k. h_ok h k"
  shows "\<exists>r. cJSON_Parse (Some t) h = Some r \<and> pr_item r = Some i \<and> pr_end r = Some (length t) \<and> pr_error r = None"
proof -
  obtain c u where c: "t = c # u" "\<not> c \<le> 32" and nobom: "c \<noteq> 239" by (rule render_first [OF assms(1,4)])
  define h1 where "h1 = h\<lparr>h_calls := h_calls h + 1, h_live := h_live h + 1\<rparr>"
  have n: "cJSON_New_Item h = (Some new_item, h1)" using assms(5) by (simp add: cJSON_New_Item_def allocate_def h1_def)
  let ?b = "\<lparr>content = t @ [0], offset = 0, depth = 0, pheap = h1\<rparr>"
  have a: "ample ?b" using assms(5) by (simp add: ample_def h1_def)
  have st: "stops [0]" by (simp add: stops_def number_char_def is_digit_def)
  have sk: "buffer_skip_whitespace ?b = ?b" using skip_whitespace_text [of ?b "[]" c "u @ [0]"] c by simp
  obtain b' where b': "parse_value (Suc CJSON_NESTING_LIMIT) (Item cJSON_Invalid None 0 (Fin 0) (c_string i) []) ?b = Some ((True, i), b')"
    "reads ?b (length t) b'"
    by (rule reads_backD [OF value_back [OF assms(1,3)] assms(4) _ st a]) (use assms(3) in simp_all)
  show ?thesis
    using b' c n nobom sk assms(2)
    by (simp add: cJSON_Parse_def cJSON_ParseWithOpts_def cJSON_ParseWithLengthOpts_def skip_utf8_bom_def new_item_def reads_def del: parse_value.simps)
qed

text \<open>
  C19. Printing and parsing are inverse: an item as the parser builds them, printed by
  \<open>cJSON_Print\<close> or \<open>cJSON_PrintUnformatted\<close> with memory available, gives a text that
  \<open>cJSON_Parse\<close> reads to the end and turns into the same item, for every string content, every
  nesting the limit allows, and every number whose own text reads back (all integers below
  \<open>2 ^ 53\<close> in particular).
\<close>

theorem print_parse_roundtrip:
  assumes "json_ok item" "canonical item" "c_string item = None" "nesting item \<le> CJSON_NESTING_LIMIT"
    and "length (the (render format 0 item)) + 2 \<le> SIZE_MAX div 2"
    and "\<forall>k. h_ok h k" "\<forall>k. h_ok h2 k"
  shows "\<exists>t h' r. print item format h = Some (Some (t @ [0]), h') \<and> cJSON_Parse (Some t) h2 = Some r \<and>
     pr_item r = Some item \<and> pr_end r = Some (length t) \<and> pr_error r = None"
proof -
  obtain t where t: "render format 0 item = Some t" using canonical_renders [OF assms(2)] by blast
  from print_renders [OF assms(1), of format h] obtain p h' where
    p: "print item format h = Some (p, h')"
    "case p of Some s \<Rightarrow> (\<exists>t. render format 0 item = Some t \<and> s = t @ [0]) \<and> h_live h' = h_live h + 1
      | None \<Rightarrow> h_live h' = h_live h"
    "\<forall>t. (\<forall>k. h_ok h k) \<longrightarrow> render format 0 item = Some t \<longrightarrow> length t + 2 \<le> SIZE_MAX div 2 \<longrightarrow> p \<noteq> None"
    by (elim exE conjE) (rule that)
  have "p = Some (t @ [0])" using p(2,3) t assms(5,6) by (auto split: option.splits)
  then show ?thesis using p(1) parse_rendered [OF assms(2-4) t assms(7)] by blast
qed

theorem print_parse_roundtrip_witness:
  "\<exists>t h' r. print (Item 64 None 0 (Fin 0) None
        [Item 16 (Some [34, 1]) 0 (Fin 0) (Some [97]) [], Item 8 None (- 7) (Fin (- 7)) (Some [98]) []]) True
      \<lparr>h_ok = \<lambda>_. True, h_fill = \<lambda>_ _. 0, h_calls = 0, h_live = 5, h_realloc = False\<rparr> = Some (Some (t @ [0]), h') \<and>
    cJSON_Parse (Some t) \<lparr>h_ok = \<lambda>_. True, h_fill = \<lambda>_ _. 0, h_calls = 0, h_live = 0, h_realloc = True\<rparr> = Some r \<and>
    pr_item r = Some (Item 64 None 0 (Fin 0) None
        [Item 16 (Some [34, 1]) 0 (Fin 0) (Some [97]) [], Item 8 None (- 7) (Fin (- 7)) (Some [98]) []])"
proof -
  let ?i = "Item 64 None 0 (Fin 0) None
        [Item 16 (Some [34, 1]) 0 (Fin 0) (Some [97]) [], Item 8 None (- 7) (Fin (- 7)) (Some [98]) []]"
  have n: "number_back (Item 8 None (- 7) (Fin (- 7)) (Some [98]) [])"
    using integer_back [of "- 7" "Some [98]"] by (simp add: type_defs)
  have c: "canonical ?i" using n by (simp add: type_defs cstring_ok_def)
  have "double_range 0" "double_range (- 7)" by code_simp+
  then have j: "json_ok ?i" by (simp add: cstring_ok_def number_ok_def)
  have "length (the (render True 0 ?i)) = 30" by code_simp
  then have l: "length (the (render True 0 ?i)) + 2 \<le> SIZE_MAX div 2" by (simp add: SIZE_MAX_def)
  have s: "c_string ?i = None" "nesting ?i \<le> CJSON_NESTING_LIMIT" by (simp_all add: CJSON_NESTING_LIMIT_def type_defs)
  have h: "\<forall>k. h_ok \<lparr>h_ok = \<lambda>_. True, h_fill = \<lambda>_ _. 0, h_calls = 0, h_live = 5, h_realloc = False\<rparr> k"
    "\<forall>k. h_ok \<lparr>h_ok = \<lambda>_. True, h_fill = \<lambda>_ _. 0, h_calls = 0, h_live = 0, h_realloc = True\<rparr> k" by simp_all
  show ?thesis using print_parse_roundtrip [OF j c s l h] by blast
qed

end
