(* ===== verification/Byte_Order.thy ===== *)
theory Byte_Order
  imports Prelude
begin

text \<open>
  Numbers in network byte order, as \<open>htonl\<close>, \<open>ntohl\<close>, \<open>htobe64\<close> and \<open>be64toh\<close> of the C
  library lay them out in memory: the most significant byte first.
\<close>

fun be_bytes :: "nat \<Rightarrow> nat \<Rightarrow> bytes" where
  "be_bytes 0 n = []"
| "be_bytes (Suc k) n = be_bytes k (n div 256) @ [of_nat (n mod 256)]"

definition be_nat :: "bytes \<Rightarrow> nat" where
  "be_nat bs = foldl (\<lambda>acc b. acc * 256 + unat b) 0 bs"

definition htonl :: "uint32 \<Rightarrow> bytes" where "htonl w = be_bytes 4 (unat w)"
definition ntohl :: "bytes \<Rightarrow> uint32" where "ntohl bs = of_nat (be_nat bs)"
definition htobe64 :: "uint64 \<Rightarrow> bytes" where "htobe64 w = be_bytes 8 (unat w)"
definition be64toh :: "bytes \<Rightarrow> uint64" where "be64toh bs = of_nat (be_nat bs)"

lemma length_be_bytes [simp]: "length (be_bytes k n) = k"
  by (induction k arbitrary: n) auto

lemma be_nat_snoc [simp]: "be_nat (bs @ [b]) = be_nat bs * 256 + unat b" "be_nat [] = 0"
  by (simp_all add: be_nat_def)

lemma unat_of_nat_byte [simp]: "unat (of_nat (n mod 256) :: byte) = n mod 256"
  by (simp add: unat_of_nat)

lemma be_nat_be_bytes: "n < 256 ^ k \<Longrightarrow> be_nat (be_bytes k n) = n"
proof (induction k arbitrary: n)
  case (Suc k)
  then have "n div 256 < 256 ^ k" by (simp add: less_mult_imp_div_less mult.commute)
  then show ?case using Suc.IH [of "n div 256"] by simp
qed simp

lemma be_nat_bound: "be_nat bs < 256 ^ length bs"
proof (induction bs rule: rev_induct)
  case (snoc b bs)
  have "be_nat bs * 256 + unat b < be_nat bs * 256 + 256" by simp
  also have "\<dots> \<le> 256 ^ length bs * 256" using snoc by simp
  finally show ?case by (simp add: mult.commute)
qed simp

lemma length_htonl [simp]: "length (htonl w) = 4" "length (htobe64 v) = 8"
  by (simp_all add: htonl_def htobe64_def)

lemma htonl_bytes:
  "htonl w = [of_nat (unat w div 256 div 256 div 256 mod 256), of_nat (unat w div 256 div 256 mod 256),
     of_nat (unat w div 256 mod 256), of_nat (unat w mod 256)]"
proof -
  have "be_bytes (Suc (Suc (Suc (Suc 0)))) n = [of_nat (n div 256 div 256 div 256 mod 256),
      of_nat (n div 256 div 256 mod 256), of_nat (n div 256 mod 256), of_nat (n mod 256)]" for n by simp
  moreover have "4 = Suc (Suc (Suc (Suc 0)))" by simp
  ultimately show ?thesis unfolding htonl_def by metis
qed

lemma ntohl_htonl [simp]: "ntohl (htonl w) = w" "be64toh (htobe64 v) = v"
  using unat_lt_uint32 [of w] unat_lt_uint64 [of v]
  by (simp_all add: ntohl_def htonl_def be64toh_def htobe64_def be_nat_be_bytes)

lemma htonl_ntohl:
  assumes "length bs = 4"
  shows "htonl (ntohl bs) = bs"
proof -
  have inj: "be_bytes (length bs) (be_nat bs) = bs" for bs
    by (induction bs rule: rev_induct) auto
  have "be_nat bs < 2 ^ 32" using be_nat_bound [of bs] assms by simp
  then have "unat (ntohl bs) = be_nat bs" by (simp add: ntohl_def unat_of_nat)
  then show ?thesis using inj [of bs] assms by (simp add: htonl_def)
qed

end
