(* ===== verification/Bounded_Socket.thy ===== *)
theory Bounded_Socket
  imports Bounded_Output_Safe Byte_Order
begin

text \<open>
  The socket adapters of the bounded result frames (\<open>iperf_bounded_socket.c\<close>): reading and
  writing a frame on the control socket under one absolute deadline, with a cancellation
  check before every wait. The operating system is a record: the answers of the clock, of
  \<open>poll\<close>, \<open>recv\<close>, \<open>send\<close> and \<open>fcntl\<close> as functions of the number of the clock call, the bytes
  the peer has sent, and as logs the waits that were asked for and the bytes handed over.
\<close>

datatype poll_result = PollErr errno | PollTimeout | PollReady bool  \<comment> \<open>with \<open>POLLNVAL\<close>?\<close>

datatype io_count = Count nat | IoErr errno

record sock_os =
  o_tick :: nat
  o_cancel :: "nat \<Rightarrow> bool"
  o_clock :: "nat \<Rightarrow> errno + uint64 \<times> uint64"  \<comment> \<open>\<open>tv_sec\<close> and \<open>tv_nsec\<close>\<close>
  o_poll :: "nat \<Rightarrow> poll_result"
  o_recv :: "nat \<Rightarrow> io_count"
  o_send :: "nat \<Rightarrow> io_count"
  o_getfl :: "errno option"
  o_setfl :: "nat \<Rightarrow> errno option"
  o_setfls :: nat
  o_nonblock :: bool
  o_in :: bytes
  o_sent :: bytes
  o_waits :: "nat list"

record socket_reader =
  r_deadline_ns :: uint64
  r_cancellable :: bool

definition IPERF_RESULT_READ_TIMEOUT_MS :: nat where "IPERF_RESULT_READ_TIMEOUT_MS = 30000"

definition clock_ns :: "uint64 \<times> uint64 \<Rightarrow> uint64" where
  "clock_ns t = fst t * 1000000000 + snd t"

definition monotonic_ns :: "sock_os \<Rightarrow> (errno + uint64) \<times> sock_os" where
  "monotonic_ns os =
     (map_sum id clock_ns (o_clock os (o_tick os)), os\<lparr>o_tick := o_tick os + 1\<rparr>)"

definition wait_ms :: "uint64 \<Rightarrow> uint64 \<Rightarrow> nat" where
  "wait_ms deadline now =
     (let remaining_ms = (deadline - now + 999999) div 1000000
      in if remaining_ms < 100 then unat remaining_ms else 100)"

text \<open>
  \<open>recv\<close> on a stream: some of the bytes that are there, at most \<open>capacity\<close>, none at the end.
\<close>

definition recv :: "nat \<Rightarrow> nat \<Rightarrow> sock_os \<Rightarrow> read_result \<times> sock_os" where
  "recv t capacity os =
     (case o_recv os t of
        IoErr e \<Rightarrow> (ReadErr (Some e), os)
      | Count n \<Rightarrow> let k = min capacity (max 1 n)
                  in (ReadBytes (take k (o_in os)), os\<lparr>o_in := drop k (o_in os)\<rparr>))"

partial_function (option) socket_read :: "socket_reader \<Rightarrow> nat \<Rightarrow> sock_os \<Rightarrow> (read_result \<times> sock_os) option" where
  "socket_read reader capacity os =
     (if r_cancellable reader \<and> o_cancel os (o_tick os) then Some (ReadErr (Some ECANCELED), os)
      else let t = o_tick os; (now, os) = monotonic_ns os
        in case now of
             Inl e \<Rightarrow> Some (ReadErr (Some e), os)
           | Inr now \<Rightarrow>
               if r_deadline_ns reader \<le> now then Some (ReadErr (Some ETIMEDOUT), os)
               else
                 let os = os\<lparr>o_waits := o_waits os @ [wait_ms (r_deadline_ns reader) now]\<rparr>
                 in case o_poll os t of
                      PollErr e \<Rightarrow>
                        if e = EINTR then socket_read reader capacity os else Some (ReadErr (Some e), os)
                    | PollTimeout \<Rightarrow> socket_read reader capacity os
                    | PollReady nval \<Rightarrow>
                        if nval then Some (ReadErr (Some EBADF), os)
                        else let (count, os) = recv t capacity os
                          in if count = ReadErr (Some EAGAIN) \<or> count = ReadErr (Some EINTR)
                             then socket_read reader capacity os
                             else Some (count, os))"

text \<open>The loop that collects the four bytes of the header: an error, or the bytes.\<close>

partial_function (option) header_loop ::
  "socket_reader \<Rightarrow> bytes \<Rightarrow> sock_os \<Rightarrow> ((errno option + bytes) \<times> sock_os) option" where
  "header_loop reader header os =
     (if 4 \<le> length header then Some (Inr header, os)
      else do { (count, os) \<leftarrow> socket_read reader (4 - length header) os;
                case count of
                  ReadErr e \<Rightarrow> Some (Inl e, os)
                | ReadBytes bs \<Rightarrow>
                    if bs = [] then Some (Inl (Some EPROTO), os)
                    else header_loop reader (header @ bs) os })"

text \<open>
  The callback that the frame reader gets. The flag of its context records a call that
  does not return.
\<close>

definition socket_callback :: "socket_reader \<Rightarrow> (sock_os \<times> bool) reader" where
  "socket_callback reader c n =
     (case socket_read reader n (fst c) of
        None \<Rightarrow> (ReadErr None, (fst c, True))
      | Some (r, os) \<Rightarrow> (r, (os, snd c)))"

definition read_failed :: "iperf_server_output option \<Rightarrow> iperf_server_output option" where
  "read_failed output = map_option (invalid_output IPERF_OUTPUT_READ_FAILURE) output"

definition read_results_socket ::
  "(bytes \<Rightarrow> errno option + 'j) \<Rightarrow> (nat \<Rightarrow> bool) \<Rightarrow> int \<Rightarrow> nat \<Rightarrow> nat \<Rightarrow> bool \<Rightarrow>
   iperf_server_output option \<Rightarrow> iperf_result_read_metrics option \<Rightarrow> sock_os \<Rightarrow>
   ('j, sock_os) read_outcome option" where
  "read_results_socket parse mal fd output_limit timeout_ms cancelled output metrics os =
     (let failed = (\<lambda>e os. Some \<lparr>ro_result = None, ro_errno = e, ro_output = read_failed output,
                             ro_metrics = metrics, ro_context = os\<rparr>)
      in if output = None \<or> metrics = None \<or> output_limit = 0 \<or> IPERF_OUTPUT_MAX_BYTES < output_limit \<or>
            timeout_ms = 0 \<or> IPERF_RESULT_READ_TIMEOUT_MS < timeout_ms \<or> fd < 0
         then failed (Some (if fd < 0 then EBADF else EINVAL)) os
         else let (now, os) = monotonic_ns os
           in case now of
                Inl e \<Rightarrow> failed (Some e) os
              | Inr now \<Rightarrow>
                  let reader = \<lparr>r_deadline_ns = now + of_nat timeout_ms * 1000000, r_cancellable = cancelled\<rparr>
                  in do { (header, os) \<leftarrow> header_loop reader [] os;
                          case header of
                            Inl e \<Rightarrow> failed e os
                          | Inr header \<Rightarrow>
                              do { r \<leftarrow> iperf_read_bounded_results parse mal (unat (ntohl header)) output_limit
                                     (Some (socket_callback reader)) (os, False) output metrics;
                                   if snd (ro_context r) then None
                                   else Some \<lparr>ro_result = ro_result r, ro_errno = ro_errno r,
                                          ro_output = ro_output r, ro_metrics = ro_metrics r,
                                          ro_context = fst (ro_context r)\<rparr> } })"

text \<open>\<open>None\<close> is the result 0, \<open>Some e\<close> the result -1 with \<open>errno\<close>.\<close>

partial_function (option) socket_write ::
  "socket_reader \<Rightarrow> bytes \<Rightarrow> nat \<Rightarrow> sock_os \<Rightarrow> (errno option \<times> sock_os) option" where
  "socket_write writer bytes sent os =
     (if length bytes \<le> sent then Some (None, os)
      else if r_cancellable writer \<and> o_cancel os (o_tick os) then Some (Some ECANCELED, os)
      else let t = o_tick os; (now, os) = monotonic_ns os
        in case now of
             Inl e \<Rightarrow> Some (Some e, os)
           | Inr now \<Rightarrow>
               if r_deadline_ns writer \<le> now then Some (Some ETIMEDOUT, os)
               else
                 let os = os\<lparr>o_waits := o_waits os @ [wait_ms (r_deadline_ns writer) now]\<rparr>
                 in case o_poll os t of
                      PollErr e \<Rightarrow>
                        if e = EINTR then socket_write writer bytes sent os else Some (Some e, os)
                    | PollTimeout \<Rightarrow> socket_write writer bytes sent os
                    | PollReady nval \<Rightarrow>
                        if nval then Some (Some EBADF, os)
                        else let chunk = (if length bytes - sent < 4096 then length bytes - sent else 4096)
                          in case o_send os t of
                               IoErr e \<Rightarrow>
                                 if e = EAGAIN \<or> e = EINTR then socket_write writer bytes sent os
                                 else Some (Some e, os)
                             | Count n \<Rightarrow>
                                 let count = min n chunk;
                                     os = os\<lparr>o_sent := o_sent os @ take count (drop sent bytes)\<rparr>
                                 in if count = 0 then Some (Some EPIPE, os)
                                    else socket_write writer bytes (sent + count) os)"

definition write_results_socket ::
  "int \<Rightarrow> bytes option \<Rightarrow> uint32 \<Rightarrow> nat \<Rightarrow> bool \<Rightarrow> sock_os \<Rightarrow> (errno option \<times> sock_os) option" where
  "write_results_socket fd bytes len timeout_ms cancelled os =
     (case bytes of
        None \<Rightarrow> Some (Some EINVAL, os)
      | Some bytes \<Rightarrow>
          if fd < 0 \<or> len = 0 \<or> IPERF_RESULT_FRAME_MAX_BYTES < unat len \<or>
             timeout_ms = 0 \<or> IPERF_RESULT_READ_TIMEOUT_MS < timeout_ms
          then Some (Some EINVAL, os)
          else if length bytes < unat len then None
          else let (now, os) = monotonic_ns os
            in case now of
                 Inl e \<Rightarrow> Some (Some e, os)
               | Inr now \<Rightarrow>
                   let writer = \<lparr>r_deadline_ns = now + of_nat timeout_ms * 1000000, r_cancellable = cancelled\<rparr>
                   in do { (r, os) \<leftarrow> socket_write writer (htonl len) 0 os;
                           if r \<noteq> None then Some (r, os)
                           else socket_write writer (take (unat len) bytes) 0 os })"

text \<open>\<open>nonblocking\<close> returns whether the descriptor was non-blocking before.\<close>

definition set_flags :: "bool \<Rightarrow> sock_os \<Rightarrow> errno option \<times> sock_os" where
  "set_flags nonblock os =
     (case o_setfl os (o_setfls os) of
        Some e \<Rightarrow> (Some e, os\<lparr>o_setfls := o_setfls os + 1\<rparr>)
      | None \<Rightarrow> (None, os\<lparr>o_setfls := o_setfls os + 1, o_nonblock := nonblock\<rparr>))"

definition nonblocking :: "sock_os \<Rightarrow> (errno + bool) \<times> sock_os" where
  "nonblocking os =
     (case o_getfl os of
        Some e \<Rightarrow> (Inl e, os)
      | None \<Rightarrow>
          let flags = o_nonblock os
          in if \<not> flags then
               let (r, os) = set_flags True os
               in (case r of Some e \<Rightarrow> Inl e | None \<Rightarrow> Inr flags, os)
             else (Inr flags, os))"

definition restore :: "bool \<Rightarrow> sock_os \<Rightarrow> errno option \<times> sock_os" where
  "restore flags os = (if \<not> flags then set_flags False os else (None, os))"

definition iperf_read_bounded_results_socket ::
  "(bytes \<Rightarrow> errno option + 'j) \<Rightarrow> (nat \<Rightarrow> bool) \<Rightarrow> int \<Rightarrow> nat \<Rightarrow> nat \<Rightarrow> bool \<Rightarrow>
   iperf_server_output option \<Rightarrow> iperf_result_read_metrics option \<Rightarrow> sock_os \<Rightarrow>
   ('j, sock_os) read_outcome option" where
  "iperf_read_bounded_results_socket parse mal fd output_limit timeout_ms cancelled output metrics os =
     (let (flags, os) = nonblocking os
      in case flags of
           Inl e \<Rightarrow>
             Some \<lparr>ro_result = None, ro_errno = Some e, ro_output = read_failed output,
                   ro_metrics = metrics, ro_context = os\<rparr>
         | Inr flags \<Rightarrow>
             do { r \<leftarrow> read_results_socket parse mal fd output_limit timeout_ms cancelled output metrics os;
                  let (e, os) = restore flags (ro_context r)
                  in case e of
                       Some e \<Rightarrow>
                         Some \<lparr>ro_result = None, ro_errno = Some e,
                               ro_output = read_failed (map_option iperf_clear_server_output (ro_output r)),
                               ro_metrics = ro_metrics r, ro_context = os\<rparr>
                     | None \<Rightarrow> Some (r\<lparr>ro_context := os\<rparr>) })"

definition iperf_write_bounded_results_socket ::
  "int \<Rightarrow> bytes option \<Rightarrow> uint32 \<Rightarrow> nat \<Rightarrow> bool \<Rightarrow> sock_os \<Rightarrow> (errno option \<times> sock_os) option" where
  "iperf_write_bounded_results_socket fd bytes len timeout_ms cancelled os =
     (let (flags, os) = nonblocking os
      in case flags of
           Inl e \<Rightarrow> Some (Some e, os)
         | Inr flags \<Rightarrow>
             do { (result, os) \<leftarrow> write_results_socket fd bytes len timeout_ms cancelled os;
                  let (e, os) = restore flags os
                  in Some (if e \<noteq> None then e else result, os) })"

end
