(* ===== verification/Bounded_Socket_Safe.thy ===== *)
theory Bounded_Socket_Safe
  imports Bounded_Socket
begin

text \<open>
  Correctness of the socket adapters: they return by their deadline whatever the socket does,
  they send and receive a prefix of the stream, and they restore the descriptor.
\<close>

subsection \<open>What one adapter call does to the socket\<close>

definition sock_step :: "sock_os \<Rightarrow> sock_os \<Rightarrow> bool" where
  "sock_step os os' \<longleftrightarrow>
     o_cancel os' = o_cancel os \<and> o_clock os' = o_clock os \<and> o_poll os' = o_poll os \<and>
     o_recv os' = o_recv os \<and> o_send os' = o_send os \<and> o_getfl os' = o_getfl os \<and>
     o_setfl os' = o_setfl os \<and> o_setfls os' = o_setfls os \<and> o_nonblock os' = o_nonblock os \<and>
     o_tick os \<le> o_tick os' \<and> (\<exists>ws. o_waits os' = o_waits os @ ws \<and> (\<forall>w \<in> set ws. w \<le> 100))"

lemma sock_step_refl [simp]: "sock_step os os"
  by (simp add: sock_step_def)

lemma sock_step_trans: "sock_step a b \<Longrightarrow> sock_step b c \<Longrightarrow> sock_step a c"
  by (fastforce simp: sock_step_def)

text \<open>The clock fails or has reached the deadline.\<close>

definition late :: "uint64 \<Rightarrow> sock_os \<Rightarrow> nat \<Rightarrow> bool" where
  "late d os k = (case o_clock os k of Inl _ \<Rightarrow> True | Inr t \<Rightarrow> d \<le> clock_ns t)"

definition ends :: "uint64 \<Rightarrow> sock_os \<Rightarrow> bool" where
  "ends d os \<longleftrightarrow> (\<forall>n. \<exists>k \<ge> n. late d os k)"

lemma ends_step: "sock_step os os' \<Longrightarrow> ends d os \<Longrightarrow> ends d os'"
  by (simp add: ends_def late_def sock_step_def)

lemma wait_ms_bound: "wait_ms d now \<le> 100"
  by (auto simp: wait_ms_def Let_def word_less_nat_alt)

lemma round_step [simp]:
  "sock_step os (os\<lparr>o_tick := Suc (o_tick os)\<rparr>)"
  "sock_step os (os\<lparr>o_tick := Suc (o_tick os), o_waits := o_waits os @ [wait_ms d now]\<rparr>)"
  by (simp_all add: sock_step_def wait_ms_bound)

lemma read_step: "sock_step os os' \<Longrightarrow> sock_step os (os'\<lparr>o_in := x\<rparr>)"
  and sent_step: "sock_step os os' \<Longrightarrow> sock_step os (os'\<lparr>o_sent := x\<rparr>)"
  by (simp_all add: sock_step_def)

subsection \<open>Reading\<close>

definition read_ok :: "nat \<Rightarrow> sock_os \<Rightarrow> read_result \<Rightarrow> sock_os \<Rightarrow> bool" where
  "read_ok capacity os r os' \<longleftrightarrow> sock_step os os' \<and> o_sent os' = o_sent os \<and>
     (case r of
        ReadBytes bs \<Rightarrow> length bs \<le> capacity \<and> o_in os = bs @ o_in os' \<and> (bs = [] \<longrightarrow> capacity = 0 \<or> o_in os = [])
      | ReadErr e \<Rightarrow> e \<noteq> None \<and> o_in os' = o_in os)"

lemma recv_ok: "recv t capacity os = (r, os') \<Longrightarrow> read_ok capacity os r os'"
  by (auto simp: recv_def read_ok_def Let_def sock_step_def min_def split: io_count.splits if_splits)

lemma read_ok_step:
  assumes "sock_step os os1" "o_in os1 = o_in os" "o_sent os1 = o_sent os" "read_ok capacity os1 r os'"
  shows "read_ok capacity os r os'"
  using assms sock_step_trans [OF assms(1)] by (auto simp: read_ok_def split: read_result.splits)

lemma socket_read_ok:
  assumes "\<exists>k \<ge> o_tick os. late (r_deadline_ns reader) os k"
  shows "wp (read_ok capacity os) (socket_read reader capacity os)"
proof -
  from assms obtain k where "late (r_deadline_ns reader) os k" "o_tick os \<le> k" by blast
  then show ?thesis
  proof (induction "k - o_tick os" arbitrary: os rule: less_induct)
    case less
    let ?t = "o_tick os" and ?d = "r_deadline_ns reader"
    show ?case
    proof (cases "r_cancellable reader \<and> o_cancel os ?t")
      case True
      then show ?thesis by (subst socket_read.simps) (simp add: read_ok_def)
    next
      case nc: False
      show ?thesis
      proof (cases "late ?d os ?t")
        case True
        then show ?thesis using nc
          by (subst socket_read.simps)
            (auto simp: late_def monotonic_ns_def read_ok_def round_step split: sum.splits)
      next
        case False
        then obtain now where now: "o_clock os ?t = Inr now" "\<not> ?d \<le> clock_ns now"
          by (auto simp: late_def split: sum.splits)
        let ?os = "os\<lparr>o_tick := Suc ?t, o_waits := o_waits os @ [wait_ms ?d (clock_ns now)]\<rparr>"
        have "?t < k" using False less.prems by (metis le_neq_implies_less)
        then have again: "wp (read_ok capacity os) (socket_read reader capacity os1)"
          if "sock_step os os1" "o_in os1 = o_in os" "o_sent os1 = o_sent os" "o_tick os1 = ?t + 1" for os1
          using less.hyps [of os1] less.prems that read_ok_step [OF that(1-3)]
          by (intro wp_mono [OF less.hyps [of os1]]) (auto simp: late_def sock_step_def)
        obtain r os2 where r: "recv ?t capacity ?os = (r, os2)" by fastforce
        note rok = recv_ok [OF r]
        have one: "read_ok capacity os r os2" by (rule read_ok_step [OF round_step(2) _ _ rok]) simp_all
        have "wp (read_ok capacity os) (socket_read reader capacity os2)" if "r = ReadErr e" for e
          using again [of os2] rok one that r by (auto simp: read_ok_def recv_def Let_def split: io_count.splits)
        then show ?thesis
          using nc now one again [of ?os] round_step(2) [of os ?d "clock_ns now"] r
          by (subst socket_read.simps)
            (auto simp: monotonic_ns_def Let_def read_ok_def [of capacity os "ReadErr _"] split: poll_result.splits)
      qed
    qed
  qed
qed

lemma header_loop_ok:
  assumes "ends (r_deadline_ns reader) os" "length header \<le> 4"
  shows "wp (\<lambda>r os'. sock_step os os' \<and> o_sent os' = o_sent os \<and>
      (case r of Inl e \<Rightarrow> e \<noteq> None | Inr h \<Rightarrow> length h = 4 \<and> header @ o_in os = h @ o_in os'))
    (header_loop reader header os)"
  using assms
proof (induction "4 - length header" arbitrary: header os rule: less_induct)
  case less
  show ?case
  proof (cases "4 \<le> length header")
    case True
    then show ?thesis using less.prems by (subst header_loop.simps) simp
  next
    case False
    have "\<exists>k \<ge> o_tick os. late (r_deadline_ns reader) os k" using less.prems(1) by (simp add: ends_def)
    from socket_read_ok [OF this, of "4 - length header"] obtain r os1 where
      r: "socket_read reader (4 - length header) os = Some (r, os1)" "read_ok (4 - length header) os r os1"
      by (auto simp: wp_ex)
    have st: "sock_step os os1" "o_sent os1 = o_sent os" using r(2) by (simp_all add: read_ok_def)
    show ?thesis
    proof (cases r)
      case (ReadErr e)
      then show ?thesis using False r by (subst header_loop.simps) (simp add: read_ok_def)
    next
      case (ReadBytes bs)
      show ?thesis
      proof (cases "bs = []")
        case True
        then show ?thesis using False r(1) ReadBytes st by (subst header_loop.simps) simp
      next
        case ne: False
        have l: "length bs \<le> 4 - length header" "o_in os = bs @ o_in os1"
          using r(2) ReadBytes by (auto simp: read_ok_def)
        have "wp (\<lambda>r os'. sock_step os1 os' \<and> o_sent os' = o_sent os1 \<and>
            (case r of Inl e \<Rightarrow> e \<noteq> None | Inr h \<Rightarrow> length h = 4 \<and> (header @ bs) @ o_in os1 = h @ o_in os'))
          (header_loop reader (header @ bs) os1)"
          by (rule less.hyps) (use ne l False ends_step [OF st(1) less.prems(1)] in \<open>cases bs; auto\<close>)+
        then have "wp (\<lambda>r os'. sock_step os os' \<and> o_sent os' = o_sent os \<and>
            (case r of Inl e \<Rightarrow> e \<noteq> None | Inr h \<Rightarrow> length h = 4 \<and> header @ o_in os = h @ o_in os'))
          (header_loop reader (header @ bs) os1)"
          by (rule wp_mono) (use st l sock_step_trans [OF st(1)] in \<open>auto split: sum.splits\<close>)
        then show ?thesis using False r(1) ReadBytes ne by (subst header_loop.simps) simp
      qed
    qed
  qed
qed

lemma socket_callback_called:
  assumes "called (socket_callback reader) c c'" "ends (r_deadline_ns reader) (fst c)" "\<not> snd c"
  shows "sock_step (fst c) (fst c') \<and> o_sent (fst c') = o_sent (fst c) \<and>
    (\<exists>n. o_in (fst c') = drop n (o_in (fst c))) \<and> \<not> snd c'"
proof -
  let ?I = "\<lambda>x. sock_step (fst c) (fst x) \<and> o_sent (fst x) = o_sent (fst c) \<and>
    (\<exists>n. o_in (fst x) = drop n (o_in (fst c))) \<and> \<not> snd x"
  have "?I (snd (socket_callback reader x n))" if I: "?I x" for x n
  proof -
    have "ends (r_deadline_ns reader) (fst x)" using I ends_step assms(2) by blast
    then have "\<exists>k \<ge> o_tick (fst x). late (r_deadline_ns reader) (fst x) k" by (simp add: ends_def)
    from socket_read_ok [OF this, of n] obtain r os1 where
      r: "socket_read reader n (fst x) = Some (r, os1)" "read_ok n (fst x) r os1" by (auto simp: wp_ex)
    have "\<exists>m. o_in os1 = drop m (o_in (fst x))"
    proof (cases r)
      case (ReadBytes bs)
      then have "o_in os1 = drop (length bs) (o_in (fst x))" using r(2) by (simp add: read_ok_def)
      then show ?thesis by blast
    next
      case (ReadErr e)
      then have "o_in os1 = drop 0 (o_in (fst x))" using r(2) by (simp add: read_ok_def)
      then show ?thesis by blast
    qed
    then have "\<exists>m. o_in os1 = drop m (o_in (fst c))" using I by (metis drop_drop)
    moreover have "sock_step (fst c) os1" "o_sent os1 = o_sent (fst c)"
      using r(2) I sock_step_trans by (auto simp: read_ok_def)
    ultimately show ?thesis using r(1) I by (simp add: socket_callback_def)
  qed
  moreover have "?I c" using assms(3) by (auto intro: exI [of _ 0])
  ultimately show ?thesis using spec [OF assms(1) [unfolded called_def], of ?I] by simp
qed

definition zero_call :: "nat \<Rightarrow> nat \<Rightarrow> int \<Rightarrow> bool" where
  "zero_call output_limit timeout_ms fd \<longleftrightarrow> 0 < output_limit \<and> output_limit \<le> IPERF_OUTPUT_MAX_BYTES \<and>
     0 < timeout_ms \<and> timeout_ms \<le> IPERF_RESULT_READ_TIMEOUT_MS \<and> 0 \<le> fd"

text \<open>The deadline of a call whose first reading of the clock is the next one.\<close>

definition deadline_of :: "nat \<Rightarrow> sock_os \<Rightarrow> uint64" where
  "deadline_of timeout_ms os =
     (case o_clock os (o_tick os) of Inl _ \<Rightarrow> 0 | Inr t \<Rightarrow> clock_ns t + of_nat timeout_ms * 1000000)"

definition truthful :: "nat \<Rightarrow> ('j, 'e) read_outcome \<Rightarrow> bool" where
  "truthful L r \<longleftrightarrow> (\<exists>out. ro_output r = Some out \<and> so_length out \<le> L \<and>
     (ro_result r = None \<longrightarrow> ro_errno r \<noteq> None \<and> so_value out = None \<and> so_state out = IPERF_OUTPUT_INVALID))"

lemma frame_read:
  assumes "0 < L" "L \<le> IPERF_OUTPUT_MAX_BYTES" "ends (r_deadline_ns reader) os"
  shows "\<exists>r. iperf_read_bounded_results parse mal frame_length L (Some (socket_callback reader)) (os, False)
      (Some zero_output) (Some zero_metrics) = Some r \<and> \<not> snd (ro_context r) \<and> sock_step os (fst (ro_context r)) \<and>
      o_sent (fst (ro_context r)) = o_sent os \<and>
      truthful L r"
proof (cases "0 < frame_length \<and> frame_length \<le> IPERF_RESULT_FRAME_MAX_BYTES")
  case False
  then show ?thesis using assms(1,2)
    by (auto simp: iperf_read_bounded_results_def invalid_output_def zero_output_def so_length_def truthful_def)
next
  case True
  then have f: "0 < frame_length" "frame_length \<le> IPERF_RESULT_FRAME_MAX_BYTES" by simp_all
  from read_bounded_total [OF assms(1,2) f, of parse mal "socket_callback reader" "(os, False)"] obtain r where
    r: "iperf_read_bounded_results parse mal frame_length L (Some (socket_callback reader)) (os, False)
      (Some zero_output) (Some zero_metrics) = Some r" "outcome_ok frame_length L r" by blast
  have "sock_step os (fst (ro_context r)) \<and> o_sent (fst (ro_context r)) = o_sent os \<and> \<not> snd (ro_context r)"
    using socket_callback_called [OF read_bounded_called [OF assms(1,2) f r(1)]] assms(3) by simp
  moreover have "truthful L r"
    using r(2) by (auto simp: truthful_def outcome_ok_def out_ok_def so_length_def
        split: option.splits iperf_output_state.splits)
  ultimately show ?thesis using r(1) by (intro exI [of _ r]) simp
qed

lemma read_results_socket_ok:
  assumes "zero_call L timeout_ms fd" "ends (deadline_of timeout_ms os) os"
  shows "\<exists>r. read_results_socket parse mal fd L timeout_ms cancelled (Some zero_output) (Some zero_metrics) os = Some r \<and>
     sock_step os (ro_context r) \<and> o_sent (ro_context r) = o_sent os \<and> truthful L r"
proof -
  have args: "\<not> (L = 0 \<or> IPERF_OUTPUT_MAX_BYTES < L \<or> timeout_ms = 0 \<or> IPERF_RESULT_READ_TIMEOUT_MS < timeout_ms \<or> fd < 0)"
    and L: "0 < L" "L \<le> IPERF_OUTPUT_MAX_BYTES" using assms(1) by (auto simp: zero_call_def)
  let ?os = "os\<lparr>o_tick := Suc (o_tick os)\<rparr>"
  show ?thesis
  proof (cases "o_clock os (o_tick os)")
    case (Inl e)
    then show ?thesis using args
      by (auto simp: read_results_socket_def monotonic_ns_def truthful_def read_failed_def invalid_output_def
          zero_output_def so_length_def)
  next
    case (Inr now)
    let ?rd = "\<lparr>r_deadline_ns = clock_ns now + of_nat timeout_ms * 1000000, r_cancellable = cancelled\<rparr>"
    have e: "ends (r_deadline_ns ?rd) ?os"
      using ends_step [OF round_step(1) assms(2)] Inr by (simp add: deadline_of_def)
    have "length ([] :: bytes) \<le> 4" by simp
    from header_loop_ok [OF e this, unfolded wp_ex append_Nil] obtain h os1 where
      h: "header_loop ?rd [] ?os = Some (h, os1)" "sock_step ?os os1" "o_sent os1 = o_sent ?os"
      "case h of Inl e \<Rightarrow> e \<noteq> None | Inr h \<Rightarrow> length h = 4 \<and> o_in ?os = h @ o_in os1"
      by (elim exE conjE) (rule that)
    have s1: "sock_step os os1" by (rule sock_step_trans [OF round_step(1) h(2)])
    show ?thesis
    proof (cases h)
      case (Inl x)
      then show ?thesis using args Inr h s1
        by (auto simp: read_results_socket_def monotonic_ns_def truthful_def read_failed_def invalid_output_def
            zero_output_def so_length_def Let_def)
    next
      case header: (Inr hd)
      from frame_read [OF L ends_step [OF h(2) e], of parse mal "unat (ntohl hd)"] obtain r where
        r: "iperf_read_bounded_results parse mal (unat (ntohl hd)) L (Some (socket_callback ?rd)) (os1, False)
          (Some zero_output) (Some zero_metrics) = Some r" "\<not> snd (ro_context r)" "sock_step os1 (fst (ro_context r))"
        "o_sent (fst (ro_context r)) = o_sent os1"
        "truthful L r"
        by (elim exE conjE) (rule that)
      then show ?thesis using args Inr h header sock_step_trans [OF s1 r(3)]
        by (auto simp: read_results_socket_def monotonic_ns_def truthful_def Let_def)
    qed
  qed
qed

subsection \<open>Writing\<close>

definition wrote :: "bytes \<Rightarrow> sock_os \<Rightarrow> errno option \<Rightarrow> sock_os \<Rightarrow> bool" where
  "wrote bs os r os' \<longleftrightarrow> sock_step os os' \<and> o_in os' = o_in os \<and>
     (\<exists>n. o_sent os' = o_sent os @ take n bs \<and> (r = None \<longrightarrow> length bs \<le> n))"

lemma wrote_step:
  assumes "sock_step os os1" "o_in os1 = o_in os" "o_sent os1 = o_sent os @ take k bs" "wrote (drop k bs) os1 r os'"
  shows "wrote bs os r os'"
proof -
  from assms(4) obtain n where n: "o_sent os' = o_sent os1 @ take n (drop k bs)" "r = None \<longrightarrow> length (drop k bs) \<le> n"
    by (auto simp: wrote_def)
  have "o_sent os' = o_sent os @ take (k + n) bs" using n(1) assms(3) by (simp add: take_add)
  moreover have "r = None \<longrightarrow> length bs \<le> k + n" using n(2) by auto
  ultimately show ?thesis using assms sock_step_trans [OF assms(1)] unfolding wrote_def by auto
qed

lemma socket_write_ok:
  assumes "\<exists>k \<ge> o_tick os. late (r_deadline_ns writer) os k"
  shows "wp (wrote (drop sent bytes) os) (socket_write writer bytes sent os)"
proof -
  from assms obtain k where "late (r_deadline_ns writer) os k" "o_tick os \<le> k" by blast
  then show ?thesis
  proof (induction "k - o_tick os" arbitrary: os sent rule: less_induct)
    case less
    let ?t = "o_tick os" and ?d = "r_deadline_ns writer"
    have fin: "wrote (drop sent bytes) os (Some e) os'"
      if "sock_step os os'" "o_in os' = o_in os" "o_sent os' = o_sent os" for e os'
      using that by (auto simp: wrote_def intro: exI [of _ 0])
    show ?case
    proof (cases "length bytes \<le> sent \<or> r_cancellable writer \<and> o_cancel os ?t")
      case True
      then show ?thesis
        by (subst socket_write.simps) (auto simp: fin, auto simp: wrote_def)
    next
      case nc: False
      show ?thesis
      proof (cases "late ?d os ?t")
        case True
        then show ?thesis using nc
          by (subst socket_write.simps) (auto simp: late_def monotonic_ns_def fin split: sum.splits)
      next
        case False
        then obtain now where now: "o_clock os ?t = Inr now" "\<not> ?d \<le> clock_ns now"
          by (auto simp: late_def split: sum.splits)
        let ?os = "os\<lparr>o_tick := Suc ?t, o_waits := o_waits os @ [wait_ms ?d (clock_ns now)]\<rparr>"
        have "?t < k" using False less.prems by (metis le_neq_implies_less)
        then have again: "wp (wrote (drop sent bytes) os) (socket_write writer bytes (sent + c) os1)"
          if "sock_step os os1" "o_in os1 = o_in os" "o_sent os1 = o_sent os @ take c (drop sent bytes)"
            "o_tick os1 = Suc ?t" for os1 c
          using less.prems that wrote_step [OF that(1-3)]
          by (intro wp_mono [OF less.hyps [of os1 "sent + c"]]) (auto simp: late_def sock_step_def add.commute)
        have ag0: "wp (wrote (drop sent bytes) os) (socket_write writer bytes sent ?os)"
          using again [of ?os 0] round_step(2) by simp
        let ?chunk = "if length bytes - sent < 4096 then length bytes - sent else 4096"
        have agc: "wp (wrote (drop sent bytes) os) (socket_write writer bytes (sent + c)
            (?os\<lparr>o_sent := o_sent os @ take c (drop sent bytes)\<rparr>))" for c
          using again [of "?os\<lparr>o_sent := o_sent os @ take c (drop sent bytes)\<rparr>" c] sent_step [OF round_step(2)] by simp
        show ?thesis
          using nc now ag0 agc fin
          by (subst socket_write.simps)
            (auto simp: monotonic_ns_def Let_def split: poll_result.splits io_count.splits)
      qed
    qed
  qed
qed

subsection \<open>The adapters\<close>

lemma nonblocking_fields:
  assumes "nonblocking os = (f, os')"
  shows "o_clock os' = o_clock os" "o_tick os' = o_tick os" "o_waits os' = o_waits os"
    "o_sent os' = o_sent os" "o_in os' = o_in os" "o_setfl os' = o_setfl os"
    "f = Inr b \<Longrightarrow> b = o_nonblock os \<and> o_nonblock os'"
  using assms
  by (auto simp: nonblocking_def set_flags_def Let_def split: option.splits if_splits prod.splits)

lemma restore_fields:
  assumes "restore b os = (e, os')"
  shows "o_waits os' = o_waits os" "o_sent os' = o_sent os" "o_in os' = o_in os"
    "e = None \<Longrightarrow> o_nonblock os \<Longrightarrow> o_nonblock os' = b" "(\<forall>n. o_setfl os n = None) \<Longrightarrow> e = None"
  using assms by (auto simp: restore_def set_flags_def split: if_splits option.splits)

text \<open>A socket for examples: always ready, one byte at a time, and a clock that jumps after ten readings.\<close>

definition sample_os :: "bytes \<Rightarrow> sock_os" where
  "sample_os input =
     \<lparr>o_tick = 0, o_cancel = \<lambda>_. False, o_clock = \<lambda>k. Inr (if k < 20 then 0 else 5, 0),
      o_poll = \<lambda>_. PollReady False, o_recv = \<lambda>_. Count 1, o_send = \<lambda>_. Count 3, o_getfl = None,
      o_setfl = \<lambda>_. None, o_setfls = 0, o_nonblock = False, o_in = input, o_sent = [], o_waits = []\<rparr>"

lemma sample_ends: "ends (deadline_of 1000 (sample_os i)) (sample_os i)" "ends 5 (sample_os i)"
proof -
  have "\<exists>k \<ge> n. late d (sample_os i) k" if "d \<le> 5000000000" for d n
    using that by (intro exI [of _ "max n 20"]) (simp add: late_def sample_os_def clock_ns_def)
  moreover have "deadline_of 1000 (sample_os i) \<le> 5000000000" by (simp add: deadline_of_def sample_os_def clock_ns_def)
  ultimately show "ends (deadline_of 1000 (sample_os i)) (sample_os i)" "ends 5 (sample_os i)"
    by (simp_all add: ends_def)
qed

lemma ends_same: "o_clock os' = o_clock os \<Longrightarrow> ends d os' = ends d os"
  by (simp add: ends_def late_def)

lemma deadline_same: "o_clock os' = o_clock os \<Longrightarrow> o_tick os' = o_tick os \<Longrightarrow> deadline_of n os' = deadline_of n os"
  by (simp add: deadline_of_def)

text \<open>
  C20. Reading a result frame from the control socket always comes back. Provided only that
  the monotonic clock, however often it is read, fails or reaches the deadline again, the
  call returns for every behaviour of \<open>poll\<close>, \<open>recv\<close>, \<open>fcntl\<close>, of the peer and of the
  allocator; no wait it asks for exceeds 100 ms, so a cancellation is seen within that time;
  without a tree it reports an error and no output; and a descriptor that was blocking is
  blocking again whenever a tree is returned or \<open>fcntl\<close> works.
\<close>

theorem bounded_socket_read_returns:
  assumes "zero_call L timeout_ms fd" "ends (deadline_of timeout_ms os) os"
  shows "\<exists>r ws. iperf_read_bounded_results_socket parse mal fd L timeout_ms cancelled
       (Some zero_output) (Some zero_metrics) os = Some r \<and> truthful L r \<and>
     o_waits (ro_context r) = o_waits os @ ws \<and> (\<forall>w \<in> set ws. w \<le> 100) \<and>
     (ro_result r \<noteq> None \<or> (\<forall>n. o_setfl os n = None) \<longrightarrow> o_nonblock (ro_context r) = o_nonblock os)"
proof -
  obtain f os1 where n: "nonblocking os = (f, os1)" by fastforce
  note nf = nonblocking_fields [OF n]
  show ?thesis
  proof (cases f)
    case (Inl e)
    then have "o_nonblock os1 = o_nonblock os"
      using n by (auto simp: nonblocking_def set_flags_def Let_def split: option.splits if_splits)
    then show ?thesis using Inl n nf(3)
      by (auto simp: iperf_read_bounded_results_socket_def truthful_def read_failed_def invalid_output_def
          zero_output_def so_length_def)
  next
    case (Inr b)
    have "ends (deadline_of timeout_ms os1) os1"
      using assms(2) ends_same [OF nf(1)] deadline_same [OF nf(1,2)] by simp
    from read_results_socket_ok [OF assms(1) this, of parse mal cancelled] obtain r where
      r: "read_results_socket parse mal fd L timeout_ms cancelled (Some zero_output) (Some zero_metrics) os1 = Some r"
      "sock_step os1 (ro_context r)" "o_sent (ro_context r) = o_sent os1" "truthful L r"
      by (elim exE conjE) (rule that)
    obtain e os2 where e: "restore b (ro_context r) = (e, os2)" by fastforce
    note ef = restore_fields [OF e]
    from r(2) nf(3) obtain ws where ws: "o_waits (ro_context r) = o_waits os @ ws" "\<forall>w \<in> set ws. w \<le> 100"
      by (auto simp: sock_step_def)
    have nb: "o_nonblock (ro_context r)" "b = o_nonblock os" "o_setfl (ro_context r) = o_setfl os"
      using nf(6,7) Inr r(2) by (auto simp: sock_step_def)
    show ?thesis
    proof (cases e)
      case None
      then show ?thesis
        using n Inr r(1,4) e ws ef(1,4) nb by (simp add: iperf_read_bounded_results_socket_def truthful_def)
    next
      case (Some x)
      obtain out where out: "ro_output r = Some out" using r(4) by (auto simp: truthful_def)
      have no: "(\<forall>n. o_setfl os n = None) = False" using ef(5) nb(3) Some by (metis option.distinct(1))
      show ?thesis
        using n Inr r(1) e ws ef(1) Some out
        by (simp add: no iperf_read_bounded_results_socket_def truthful_def read_failed_def invalid_output_def
            iperf_clear_server_output_def zero_output_def so_length_def)
    qed
  qed
qed

theorem bounded_socket_read_returns_witness:
  "\<exists>r ws. iperf_read_bounded_results_socket Inr (\<lambda>_. True) 3 16 1000 True (Some zero_output) (Some zero_metrics)
       (sample_os [0, 0, 0, 2, 123, 125]) = Some r \<and> o_waits (ro_context r) = ws \<and> (\<forall>w \<in> set ws. w \<le> 100) \<and>
     \<not> o_nonblock (ro_context r)"
proof -
  have z: "zero_call 16 1000 3" by (simp add: zero_call_def IPERF_OUTPUT_MAX_BYTES_def IPERF_RESULT_READ_TIMEOUT_MS_def)
  have o: "o_waits (sample_os i) = []" "o_nonblock (sample_os i) = False" "\<forall>n. o_setfl (sample_os i) n = None" for i
    by (simp_all add: sample_os_def)
  obtain r ws where r: "iperf_read_bounded_results_socket Inr (\<lambda>_. True) 3 16 1000 True (Some zero_output)
      (Some zero_metrics) (sample_os [0, 0, 0, 2, 123, 125]) = Some r" "truthful 16 r" "o_waits (ro_context r) = [] @ ws"
    "\<forall>w \<in> set ws. w \<le> 100" "ro_result r \<noteq> None \<or> True \<longrightarrow> o_nonblock (ro_context r) = False"
    using bounded_socket_read_returns [OF z sample_ends(1), of Inr "\<lambda>_. True" True "[0, 0, 0, 2, 123, 125]"]
    unfolding o(1,2) eqTrueI [OF o(3)] by (elim exE conjE) (rule that)
  show ?thesis by (intro exI [of _ r] exI [of _ ws] conjI) (use r in simp_all)
qed

lemma write_results_socket_ok:
  assumes "ends (deadline_of timeout_ms os) os" "unat len \<le> length bytes"
  shows "wp (wrote (htonl len @ take (unat len) bytes) os) (write_results_socket fd (Some bytes) len timeout_ms cancelled os)"
proof -
  let ?W = "wrote (htonl len @ take (unat len) bytes) os" and ?os = "os\<lparr>o_tick := Suc (o_tick os)\<rparr>"
  have fin: "?W (Some e) os'" if "sock_step os os'" "o_in os' = o_in os" "o_sent os' = o_sent os" for e os'
    using that by (auto simp: wrote_def intro: exI [of _ 0])
  show ?thesis
  proof (cases "fd < 0 \<or> len = 0 \<or> IPERF_RESULT_FRAME_MAX_BYTES < unat len \<or> timeout_ms = 0 \<or>
      IPERF_RESULT_READ_TIMEOUT_MS < timeout_ms \<or> (\<exists>e. o_clock os (o_tick os) = Inl e)")
    case True
    then show ?thesis using assms(2) fin by (auto simp: write_results_socket_def monotonic_ns_def)
  next
    case False
    then obtain now where now: "o_clock os (o_tick os) = Inr now" by (cases "o_clock os (o_tick os)") auto
    let ?w = "\<lparr>r_deadline_ns = clock_ns now + of_nat timeout_ms * 1000000, r_cancellable = cancelled\<rparr>"
    have e: "ends (r_deadline_ns ?w) ?os" using assms(1) now by (simp add: deadline_of_def ends_def late_def)
    have k: "\<exists>k \<ge> o_tick os'. late (r_deadline_ns ?w) os' k" if "sock_step ?os os'" for os'
      using ends_step [OF that e] by (simp add: ends_def)
    from socket_write_ok [OF k [OF sock_step_refl], of 0 "htonl len"] obtain r1 os1 where
      w1: "socket_write ?w (htonl len) 0 ?os = Some (r1, os1)" "wrote (htonl len) ?os r1 os1" by (auto simp: wp_ex)
    have s1: "sock_step ?os os1" using w1(2) by (simp add: wrote_def)
    from socket_write_ok [OF k [OF s1], of 0 "take (unat len) bytes"] obtain r2 os2 where
      w2: "socket_write ?w (take (unat len) bytes) 0 os1 = Some (r2, os2)" "wrote (take (unat len) bytes) os1 r2 os2"
      by (auto simp: wp_ex)
    have t1: "sock_step os os1" by (rule sock_step_trans [OF round_step(1) s1])
    have "?W r1 os1" if "r1 \<noteq> None"
    proof -
      from w1(2) obtain n where "o_sent os1 = o_sent os @ take n (htonl len)" by (auto simp: wrote_def)
      then have "o_sent os1 = o_sent os @ take (min n 4) (htonl len @ take (unat len) bytes)"
        by (simp add: min_def)
      then show ?thesis
        using that t1 w1(2) unfolding wrote_def by (intro conjI exI [of _ "min n 4"]) auto
    qed
    moreover have "?W r2 os2" if "r1 = None"
    proof (rule wrote_step [OF t1])
      show "o_in os1 = o_in os" using w1(2) by (simp add: wrote_def)
      show "o_sent os1 = o_sent os @ take 4 (htonl len @ take (unat len) bytes)"
        using w1(2) that by (auto simp: wrote_def)
      show "wrote (drop 4 (htonl len @ take (unat len) bytes)) os1 r2 os2" using w2(2) by simp
    qed
    ultimately show ?thesis using False now w1(1) w2(1) assms(2)
      by (auto simp: write_results_socket_def monotonic_ns_def Let_def)
  qed
qed

lemma socket_frame_written:
  assumes "ends (deadline_of timeout_ms os) os" "unat len \<le> length bytes"
  shows "\<exists>r os' n. iperf_write_bounded_results_socket fd (Some bytes) len timeout_ms cancelled os = Some (r, os') \<and>
     o_sent os' = o_sent os @ take n (htonl len @ take (unat len) bytes) \<and> (r = None \<longrightarrow> 4 + unat len \<le> n) \<and>
     (r = None \<or> (\<forall>n. o_setfl os n = None) \<longrightarrow> o_nonblock os' = o_nonblock os)"
proof -
  obtain f os1 where n: "nonblocking os = (f, os1)" by fastforce
  note nf = nonblocking_fields [OF n]
  show ?thesis
  proof (cases f)
    case (Inl e)
    then have "o_nonblock os1 = o_nonblock os"
      using n by (auto simp: nonblocking_def set_flags_def Let_def split: option.splits if_splits)
    then show ?thesis using Inl n nf(4)
      by (auto simp: iperf_write_bounded_results_socket_def intro: exI [of _ 0])
  next
    case (Inr b)
    have "ends (deadline_of timeout_ms os1) os1"
      using assms(1) ends_same [OF nf(1)] deadline_same [OF nf(1,2)] by simp
    from write_results_socket_ok [OF this assms(2), of fd cancelled] obtain r os2 where
      r: "write_results_socket fd (Some bytes) len timeout_ms cancelled os1 = Some (r, os2)"
      "wrote (htonl len @ take (unat len) bytes) os1 r os2" by (auto simp: wp_ex)
    obtain e os3 where e: "restore b os2 = (e, os3)" by fastforce
    note ef = restore_fields [OF e]
    have nb: "o_nonblock os2" "b = o_nonblock os" "o_setfl os2 = o_setfl os"
      using nf(6,7) Inr r(2) by (auto simp: sock_step_def wrote_def)
    from r(2) obtain k where k: "o_sent os2 = o_sent os @ take k (htonl len @ take (unat len) bytes)"
      "r = None \<longrightarrow> 4 + unat len \<le> k" using assms(2) nf(4) by (auto simp: wrote_def)
    show ?thesis
      by (intro exI [of _ "if e \<noteq> None then e else r"] exI [of _ os3] exI [of _ k])
        (use n Inr r(1) e ef(2,4,5) nb k in \<open>auto simp: iperf_write_bounded_results_socket_def\<close>)
  qed
qed

text \<open>
  C21. Writing a result frame returns too (same clock assumption), whatever partial sends,
  interruptions and errors occur; what reaches the socket is always a prefix of the header
  and the payload, and all of it when the call reports success.
\<close>

theorem bounded_socket_write_prefix:
  assumes "ends (deadline_of timeout_ms os) os" "unat len \<le> length bytes"
  shows "\<exists>r os' n. iperf_write_bounded_results_socket fd (Some bytes) len timeout_ms cancelled os = Some (r, os') \<and>
     o_sent os' = o_sent os @ take n (htonl len @ take (unat len) bytes) \<and> (r = None \<longrightarrow> 4 + unat len \<le> n) \<and>
     (r = None \<or> (\<forall>n. o_setfl os n = None) \<longrightarrow> o_nonblock os' = o_nonblock os)"
  by (rule socket_frame_written [OF assms])

theorem bounded_socket_write_prefix_witness:
  "\<exists>r os' n. iperf_write_bounded_results_socket 3 (Some [123, 125]) 2 1000 False (sample_os []) = Some (r, os') \<and>
     o_sent os' = take n [0, 0, 0, 2, 123, 125] \<and> (r = None \<longrightarrow> 6 \<le> n)"
proof -
  have h: "htonl 2 @ take (unat (2 :: uint32)) [123, 125] = [0, 0, 0, 2, 123, 125]" and o: "o_sent (sample_os []) = []"
    by (simp add: htonl_bytes, simp add: sample_os_def)
  have l: "unat (2 :: uint32) \<le> length [123 :: byte, 125]" by simp
  obtain r os' n where "iperf_write_bounded_results_socket 3 (Some [123, 125]) 2 1000 False (sample_os []) = Some (r, os')"
    "o_sent os' = [] @ take n [0, 0, 0, 2, 123, 125]" "r = None \<longrightarrow> 4 + unat (2 :: uint32) \<le> n"
    "r = None \<or> (\<forall>n. o_setfl (sample_os []) n = None) \<longrightarrow> o_nonblock os' = o_nonblock (sample_os [])"
    using bounded_socket_write_prefix [OF sample_ends(1) [of "[]"] l, of 3 False] unfolding h o
    by (elim exE conjE) (rule that)
  then show ?thesis by (intro exI [of _ r] exI [of _ os'] exI [of _ n]) simp
qed



end
