(* ===== verification/Output_Budget.thy ===== *)
theory Output_Budget
  imports Bounded_Socket Cjson_Print Cjson_Parse
begin

text \<open>
  The budget for the server's output (\<open>iperf_output_budget.c\<close>): collecting printed text and
  JSON intervals under a byte limit, sending them with the results, and merging the peer's
  status into what was received. \<open>budget_test\<close> has the fields of \<open>struct iperf_test\<close> that
  this code uses. A buffer write behind the end of its block is \<open>None\<close>; the two runs of
  \<open>vsnprintf\<close> over a format are arguments (the text, or \<open>None\<close> for a negative result).
\<close>

record budget_test =
  server_output_byte_limit :: nat
  collected_server_output :: iperf_server_output
  received_server_output :: iperf_server_output
  output_read_metrics :: iperf_result_read_metrics
  output_scratch :: "bytes option"
  output_json_values :: nat
  output_json_intervals :: nat
  output_finalized :: bool
  received_server_output_ready :: bool
  output_stop_requested :: bool
  json_output :: bool
  json_top :: "cJSON option"
  json_intervals :: "nat option"    \<comment> \<open>the child of \<open>json_top\<close> it points to\<close>
  bt_heap :: heap

definition UINT64_MAX :: nat where "UINT64_MAX = 18446744073709551615"

definition discard :: "iperf_output_reason \<Rightarrow> iperf_server_output \<times> heap \<Rightarrow> iperf_server_output \<times> heap" where
  "discard reason oh =
     (let (output, h) = oh
      in (output\<lparr>so_value := None,
            so_state := (if reason = IPERF_OUTPUT_INVALID_DATA then IPERF_OUTPUT_INVALID else IPERF_OUTPUT_DISCARDED),
            so_reason := reason\<rparr>,
          if so_value output = None then h else deallocate h))"

definition discard_collected :: "iperf_output_reason \<Rightarrow> budget_test \<Rightarrow> budget_test" where
  "discard_collected reason t =
     (let (output, h) = discard reason (collected_server_output t, bt_heap t)
      in t\<lparr>collected_server_output := output, bt_heap := h\<rparr>)"

abbreviation set_collected :: "(iperf_server_output \<Rightarrow> iperf_server_output) \<Rightarrow> budget_test \<Rightarrow> budget_test" where
  "set_collected f t \<equiv> t\<lparr>collected_server_output := f (collected_server_output t)\<rparr>"

definition iperf_set_test_server_output_byte_limit :: "budget_test option \<Rightarrow> nat \<Rightarrow> errno option \<times> budget_test option" where
  "iperf_set_test_server_output_byte_limit test limit =
     (case test of
        None \<Rightarrow> (Some EINVAL, None)
      | Some t \<Rightarrow>
          if IPERF_OUTPUT_MAX_BYTES < limit then (Some EINVAL, Some t)
          else (None, Some (t\<lparr>server_output_byte_limit := limit\<rparr>)))"

definition free_value :: "iperf_server_output \<Rightarrow> heap \<Rightarrow> heap" where
  "free_value output h = (if so_value output = None then h else deallocate h)"

definition iperf_output_budget_reset :: "budget_test \<Rightarrow> budget_test" where
  "iperf_output_budget_reset t =
     (let t = (if server_output_byte_limit t \<noteq> 0 then
                 t\<lparr>bt_heap := cJSON_Delete (the_list (json_top t)) (bt_heap t), json_top := None, json_intervals := None\<rparr>
               else t);
          h = free_value (received_server_output t) (free_value (collected_server_output t) (bt_heap t))
      in t\<lparr>collected_server_output := iperf_clear_server_output (collected_server_output t),
           received_server_output := iperf_clear_server_output (received_server_output t),
           output_read_metrics := zero_metrics,
           bt_heap := (if output_scratch t = None then h else deallocate h),
           output_scratch := None, output_json_values := 0, output_json_intervals := 0,
           output_finalized := False, received_server_output_ready := False\<rparr>)"

definition iperf_output_stop_requested :: "budget_test \<Rightarrow> bool" where
  "iperf_output_stop_requested t = output_stop_requested t"

text \<open>\<open>begin\<close> of the code: whether output may be collected.\<close>

definition begin_collect :: "iperf_output_format \<Rightarrow> budget_test \<Rightarrow> bool \<times> budget_test" where
  "begin_collect format t =
     (let output = collected_server_output t
      in if so_state output \<noteq> IPERF_OUTPUT_MISSING then (so_state output = IPERF_OUTPUT_COMPLETE, t)
         else let output = output\<lparr>so_format := format, so_observed_bytes_complete := (format = IPERF_OUTPUT_TEXT)\<rparr>;
                  (ok, h) = allocate (bt_heap t);
                  t = t\<lparr>bt_heap := h\<rparr>
           in if \<not> ok then
                (False, discard_collected IPERF_OUTPUT_ALLOCATION_FAILURE
                   (t\<lparr>collected_server_output := output\<lparr>so_value := None\<rparr>\<rparr>))
              else (True, t\<lparr>collected_server_output :=
                      output\<lparr>so_value := Some [], so_state := IPERF_OUTPUT_COMPLETE\<rparr>\<rparr>))"

subsection \<open>UTF-8\<close>

definition utf8_lead :: "byte \<Rightarrow> (nat \<times> uint32 \<times> uint32) option" where
  "utf8_lead c =
     (if c \<noteq> 0 \<and> c < 0x80 then Some (1, ucast c, 0)
      else if 0xc2 \<le> c \<and> c \<le> 0xdf then Some (2, ucast (c AND 31), 0x80)
      else if 0xe0 \<le> c \<and> c \<le> 0xef then Some (3, ucast (c AND 15), 0x800)
      else if 0xf0 \<le> c \<and> c \<le> 0xf4 then Some (4, ucast (c AND 7), 0x10000)
      else None)"

fun utf8_follow :: "uint32 \<Rightarrow> bytes \<Rightarrow> uint32 option" where
  "utf8_follow scalar [] = Some scalar"
| "utf8_follow scalar (b # bs) =
     (if b < 0x80 \<or> 0xbf < b then None else utf8_follow (push_bit 6 scalar OR ucast (b AND 63)) bs)"

text \<open>The result and \<open>*valid\<close>.\<close>

function utf8_prefix :: "bytes \<Rightarrow> bool \<Rightarrow> nat \<Rightarrow> bool \<times> nat" where
  "utf8_prefix [] is_cut valid = (True, valid)"
| "utf8_prefix (c # r) is_cut valid =
     (case utf8_lead c of
        None \<Rightarrow> (False, valid)
      | Some (n, scalar, minimum) \<Rightarrow>
          if length (c # r) < n then (is_cut, valid)
          else (case utf8_follow scalar (take (n - 1) r) of
                  None \<Rightarrow> (False, valid)
                | Some scalar \<Rightarrow>
                    if scalar < minimum \<or> 0x10ffff < scalar \<or> (0xd800 \<le> scalar \<and> scalar \<le> 0xdfff)
                    then (False, valid)
                    else utf8_prefix (drop (n - 1) r) is_cut (valid + n)))"
  by pat_completeness auto
termination by (relation "measure (\<lambda>(bs, _). length bs)") auto

subsection \<open>Text\<close>

definition count_bytes :: "nat \<Rightarrow> iperf_server_output \<Rightarrow> iperf_server_output" where
  "count_bytes count output =
     (if UINT64_MAX - so_observed_bytes output < count then
        output\<lparr>so_observed_bytes := UINT64_MAX, so_observed_bytes_complete := False\<rparr>
      else output\<lparr>so_observed_bytes := so_observed_bytes output + count\<rparr>)"

definition append_format :: "bytes option \<Rightarrow> bytes option \<Rightarrow> budget_test \<Rightarrow> budget_test option" where
  "append_format first second t =
     (case first of
        None \<Rightarrow> Some (set_collected (\<lambda>w. w\<lparr>so_observed_bytes_complete := False\<rparr>)
                       (discard_collected IPERF_OUTPUT_INVALID_DATA t))
      | Some s \<Rightarrow>
          let t = set_collected (count_bytes (length s)) t; output = collected_server_output t
          in if so_state output \<noteq> IPERF_OUTPUT_COMPLETE then Some t
             else case so_value output of
               None \<Rightarrow> None
             | Some v \<Rightarrow>
                 if server_output_byte_limit t < length v then None
                 else let available = server_output_byte_limit t - length v
                   in if map_option length second \<noteq> Some (length s) then
                        Some (discard_collected IPERF_OUTPUT_INVALID_DATA t)
                      else let text = the second;
                               count = (if length s < available then length s else available);
                               is_cut = available < length s;
                               (ok, valid) = utf8_prefix (take count text) is_cut 0
                        in if \<not> ok then Some (discard_collected IPERF_OUTPUT_INVALID_DATA t)
                           else Some (set_collected (\<lambda>w. let w = w\<lparr>so_value := Some (v @ take valid text)\<rparr>
                                  in if is_cut then w\<lparr>so_state := IPERF_OUTPUT_TRUNCATED, so_reason := IPERF_OUTPUT_BYTE_LIMIT\<rparr>
                                     else w) t))"

definition iperf_output_collect_printf ::
  "bytes option \<Rightarrow> bytes option \<Rightarrow> bytes option \<Rightarrow> budget_test \<Rightarrow> budget_test option" where
  "iperf_output_collect_printf prefix first second t =
     (if output_finalized t then Some t
      else let (_, t) = begin_collect IPERF_OUTPUT_TEXT t
        in do { t \<leftarrow> (case prefix of None \<Rightarrow> Some t | Some p \<Rightarrow> append_format (Some p) (Some p) t);
                append_format first second t })"

subsection \<open>JSON\<close>

text \<open>The node count, and the reason when the shape is refused.\<close>

fun shape :: "cJSON \<Rightarrow> nat \<Rightarrow> nat \<Rightarrow> iperf_output_reason option \<times> nat"
  and shapes :: "cJSON list \<Rightarrow> nat \<Rightarrow> nat \<Rightarrow> iperf_output_reason option \<times> nat" where
  "shape (Item t vs vi vd s children) level nodes =
     (if IPERF_RESULT_MAX_DEPTH < level then (Some IPERF_OUTPUT_DEPTH_LIMIT, nodes)
      else if IPERF_RESULT_CORE_MAX_VALUES < nodes + 1 then (Some IPERF_OUTPUT_NODE_LIMIT, nodes + 1)
      else shapes children (level + 1) (nodes + 1))"
| "shapes [] level nodes = (None, nodes)"
| "shapes (c # cs) level nodes =
     (case shape c level nodes of
        (None, nodes) \<Rightarrow> shapes cs level nodes
      | (Some reason, nodes) \<Rightarrow> (Some reason, nodes))"

definition shape_of :: "cJSON option \<Rightarrow> nat \<Rightarrow> nat \<Rightarrow> iperf_output_reason option \<times> nat" where
  "shape_of value level nodes =
     (case value of None \<Rightarrow> (Some IPERF_OUTPUT_INVALID_DATA, nodes) | Some v \<Rightarrow> shape v level nodes)"

definition scratch :: "budget_test \<Rightarrow> bool \<times> budget_test" where
  "scratch t =
     (if output_scratch t \<noteq> None then (True, t)
      else let (ok, h) = allocate (bt_heap t)
        in if ok then
             (True, t\<lparr>output_scratch := Some (junk (bt_heap t) 0 (server_output_byte_limit t + 5)), bt_heap := h\<rparr>)
           else (False, discard_collected IPERF_OUTPUT_ALLOCATION_FAILURE (t\<lparr>bt_heap := h\<rparr>)))"

text \<open>Printing into the scratch block: the text, or \<open>None\<close> when it does not fit.\<close>

definition print_scratch :: "cJSON \<Rightarrow> budget_test \<Rightarrow> (bytes option \<times> budget_test) option" where
  "print_scratch item t =
     do { (ok, mem) \<leftarrow> cJSON_PrintPreallocated item (output_scratch t)
            (int (server_output_byte_limit t) + 5) False (bt_heap t);
          let t = t\<lparr>output_scratch := mem\<rparr>;
          if \<not> ok then Some (None, t)
          else case mem of
            None \<Rightarrow> None
          | Some m \<Rightarrow> if 0 \<in> set m then Some (Some (takeWhile (\<lambda>c. c \<noteq> 0) m), t) else None }"

definition iperf_output_collect_interval :: "cJSON option \<Rightarrow> budget_test \<Rightarrow> budget_test option" where
  "iperf_output_collect_interval interval t =
     (if output_finalized t then Some t
      else let (ok, t) = begin_collect IPERF_OUTPUT_JSON t
        in if \<not> ok then Some t
           else let (reason, nodes) = shape_of interval 3 (output_json_values t)
             in case reason of
                  Some r \<Rightarrow> Some (discard_collected r t)
                | None \<Rightarrow>
                    let (ok, t) = scratch t
                    in if \<not> ok then Some t
                       else do {
                         (text, t) \<leftarrow> print_scratch (the interval) t;
                         case (text, so_value (collected_server_output t)) of
                           (None, _) \<Rightarrow> Some (discard_collected IPERF_OUTPUT_BYTE_LIMIT t)
                         | (Some text, None) \<Rightarrow> None
                         | (Some text, Some v) \<Rightarrow>
                             let limit = server_output_byte_limit t;
                                 extra = (if output_json_intervals t \<noteq> 0 then 1 else 0)
                             in if limit < 2 \<or> limit - 2 < length v \<or> limit - 2 - length v < length text + extra
                                then Some (discard_collected IPERF_OUTPUT_BYTE_LIMIT t)
                                else do {
                                  v \<leftarrow> (if extra = 1 then buf_put (limit + 1) v [44] else Some v);
                                  _ \<leftarrow> buf_put (limit + 1) v (text @ [0]);
                                  Some ((set_collected (\<lambda>w. w\<lparr>so_value := Some (v @ text)\<rparr>) t)
                                    \<lparr>output_json_values := nodes,
                                     output_json_intervals := output_json_intervals t + 1\<rparr>) } })"

definition raw_reference :: "bytes option \<Rightarrow> heap \<Rightarrow> cJSON option \<times> heap" where
  "raw_reference text h =
     (let (node, h) = cJSON_CreateStringReference text h
      in (map_option (set_type (cJSON_Raw OR cJSON_IsReference)) node, h))"

definition last_child :: "cJSON option \<Rightarrow> nat option" where
  "last_child item = map_option (\<lambda>i. length (c_child i) - 1) item"

text \<open>
  The document with the collected intervals in the place of \<open>intervals\<close>, printed into the
  scratch block; the tree is restored. The result is the text or the reason for refusing.
\<close>

definition print_document :: "cJSON \<Rightarrow> budget_test \<Rightarrow> ((iperf_output_reason + bytes) \<times> budget_test) option" where
  "print_document raw t =
     (let (original, doc) = cJSON_DetachItemViaPointer (json_top t) (json_intervals t);
          (_, doc, h) = cJSON_AddItemToObjectCS doc (Some (lit ''intervals'')) (Some raw) (bt_heap t);
          (reason, nodes) = shape_of doc 1 (output_json_values t);
          t = t\<lparr>bt_heap := h\<rparr>
      in do { (text, t) \<leftarrow> (case reason of
                 Some _ \<Rightarrow> Some (None, t)
               | None \<Rightarrow> (case doc of None \<Rightarrow> Some (None, t) | Some doc \<Rightarrow> print_scratch doc t));
              let result = (case (reason, text) of
                              (Some r, _) \<Rightarrow> Inl r
                            | (None, None) \<Rightarrow> Inl IPERF_OUTPUT_BYTE_LIMIT
                            | (None, Some s) \<Rightarrow>
                                if server_output_byte_limit t < length s then Inl IPERF_OUTPUT_BYTE_LIMIT else Inr s);
                  (raw, doc) = cJSON_DetachItemViaPointer doc (last_child doc);
                  h = cJSON_Delete (the_list raw) (bt_heap t);
                  (_, doc, h) = (case original of
                     None \<Rightarrow> (False, doc, h)
                   | Some i \<Rightarrow> cJSON_AddItemToObjectCS doc (Some (lit ''intervals'')) (Some i) h)
              in Some (result, t\<lparr>json_top := doc, json_intervals := last_child doc, bt_heap := h\<rparr>) })"

definition finalize_json :: "budget_test \<Rightarrow> budget_test option" where
  "finalize_json t =
     (let (ok, t) = begin_collect IPERF_OUTPUT_JSON t
      in if \<not> ok then Some t
         else let (ok, t) = scratch t
           in if \<not> ok then Some t
              else if json_top t = None \<or> json_intervals t = None then
                Some (discard_collected IPERF_OUTPUT_INVALID_DATA t)
              else if server_output_byte_limit t < 2 then Some (discard_collected IPERF_OUTPUT_BYTE_LIMIT t)
              else case so_value (collected_server_output t) of
                None \<Rightarrow> None
              | Some v \<Rightarrow>
                  do { _ \<leftarrow> buf_put (server_output_byte_limit t + 1) [] ([91] @ v @ [93, 0]);
                       let v = [91] @ v @ [93];
                           t = set_collected (\<lambda>w. w\<lparr>so_value := Some v\<rparr>) t;
                           (raw, h) = raw_reference (Some v) (bt_heap t);
                           t = t\<lparr>bt_heap := h\<rparr>
                       in case raw of
                            None \<Rightarrow> Some (discard_collected IPERF_OUTPUT_ALLOCATION_FAILURE t)
                          | Some raw \<Rightarrow>
                              do { (result, t) \<leftarrow> print_document raw t;
                                   case result of
                                     Inl reason \<Rightarrow> Some (discard_collected reason t)
                                   | Inr text \<Rightarrow>
                                       if \<not> fst (utf8_prefix text False 0) then
                                         Some (discard_collected IPERF_OUTPUT_INVALID_DATA t)
                                       else do {
                                         _ \<leftarrow> buf_put (server_output_byte_limit t + 1) [] (text @ [0]);
                                         Some (set_collected (\<lambda>w. w\<lparr>so_value := Some text,
                                           so_observed_bytes := length text,
                                           so_observed_bytes_complete := True\<rparr>) t) } } })"

subsection \<open>The results message\<close>

definition state_number :: "iperf_output_state \<Rightarrow> int" where
  "state_number s = (case s of IPERF_OUTPUT_MISSING \<Rightarrow> 0 | IPERF_OUTPUT_COMPLETE \<Rightarrow> 1
     | IPERF_OUTPUT_TRUNCATED \<Rightarrow> 2 | IPERF_OUTPUT_DISCARDED \<Rightarrow> 3 | IPERF_OUTPUT_INVALID \<Rightarrow> 4)"

definition format_number :: "iperf_output_format \<Rightarrow> int" where
  "format_number f = (case f of IPERF_OUTPUT_NONE \<Rightarrow> 0 | IPERF_OUTPUT_TEXT \<Rightarrow> 1 | IPERF_OUTPUT_JSON \<Rightarrow> 2)"

definition reason_number :: "iperf_output_reason \<Rightarrow> int" where
  "reason_number r = (case r of IPERF_OUTPUT_REASON_NONE \<Rightarrow> 0 | IPERF_OUTPUT_BYTE_LIMIT \<Rightarrow> 1
     | IPERF_OUTPUT_NODE_LIMIT \<Rightarrow> 2 | IPERF_OUTPUT_DEPTH_LIMIT \<Rightarrow> 3 | IPERF_OUTPUT_INVALID_DATA \<Rightarrow> 4
     | IPERF_OUTPUT_ALLOCATION_FAILURE \<Rightarrow> 5 | IPERF_OUTPUT_READ_FAILURE \<Rightarrow> 6)"

text \<open>The casts of a number back to the enumerations, for the values in their range.\<close>

definition number_state :: "int \<Rightarrow> iperf_output_state" where
  "number_state n = (if n = 1 then IPERF_OUTPUT_COMPLETE else if n = 2 then IPERF_OUTPUT_TRUNCATED
     else if n = 3 then IPERF_OUTPUT_DISCARDED else if n = 4 then IPERF_OUTPUT_INVALID
     else IPERF_OUTPUT_MISSING)"

definition number_format :: "int \<Rightarrow> iperf_output_format" where
  "number_format n = (if n = 1 then IPERF_OUTPUT_TEXT else if n = 2 then IPERF_OUTPUT_JSON else IPERF_OUTPUT_NONE)"

definition number_reason :: "int \<Rightarrow> iperf_output_reason" where
  "number_reason n = (if n = 1 then IPERF_OUTPUT_BYTE_LIMIT else if n = 2 then IPERF_OUTPUT_NODE_LIMIT
     else if n = 3 then IPERF_OUTPUT_DEPTH_LIMIT else if n = 4 then IPERF_OUTPUT_INVALID_DATA
     else if n = 5 then IPERF_OUTPUT_ALLOCATION_FAILURE else if n = 6 then IPERF_OUTPUT_READ_FAILURE
     else IPERF_OUTPUT_REASON_NONE)"

definition STATUS_KEY :: bytes where "STATUS_KEY = lit ''iperf_swift_server_output''"

text \<open>
  Adding numbers to the status object until one fails. \<open>observed_bytes\<close> is added only when
  it is exact and below \<open>2 ^ 53\<close>.
\<close>

fun add_numbers :: "(bytes \<times> int) list \<Rightarrow> cJSON option \<Rightarrow> heap \<Rightarrow> (bool \<times> cJSON option \<times> heap) option" where
  "add_numbers [] ob h = Some (True, ob, h)"
| "add_numbers ((k, n) # kns) ob h =
     do { (ok, ob, h) \<leftarrow> cJSON_AddNumberToObject ob (Some k) (Fin (of_int n)) h;
          if \<not> ok then Some (False, ob, h) else add_numbers kns ob h }"

definition status_numbers :: "iperf_server_output \<Rightarrow> (bytes \<times> int) list" where
  "status_numbers output =
     [(lit ''version'', 1), (lit ''state'', state_number (so_state output)),
      (lit ''format'', format_number (so_format output)), (lit ''reason'', reason_number (so_reason output))] @
     (if so_observed_bytes_complete output \<and> so_observed_bytes output \<le> 9007199254740991
      then [(lit ''observed_bytes'', int (so_observed_bytes output))] else [])"

definition output_item :: "iperf_server_output \<Rightarrow> heap \<Rightarrow> cJSON option \<times> heap" where
  "output_item output h =
     (if so_format output = IPERF_OUTPUT_JSON then raw_reference (so_value output) h
      else cJSON_CreateStringReference (so_value output) h)"

definition output_key :: "iperf_server_output \<Rightarrow> bytes" where
  "output_key output =
     (if so_format output = IPERF_OUTPUT_JSON then lit ''server_output_json'' else lit ''server_output_text'')"

text \<open>Whether the result is 0, the results object and the test.\<close>

definition iperf_output_add_server_results ::
  "cJSON option \<Rightarrow> budget_test \<Rightarrow> (bool \<times> cJSON option \<times> budget_test) option" where
  "iperf_output_add_server_results results t =
     do { t \<leftarrow> (if output_finalized t then Some t
               else do { t \<leftarrow> (if json_output t then finalize_json t
                               else Some (snd (begin_collect IPERF_OUTPUT_TEXT t)));
                         Some (t\<lparr>output_finalized := True\<rparr>) });
          let output = collected_server_output t;
              (value, h) = (if so_value output \<noteq> None then output_item output (bt_heap t) else (None, bt_heap t))
          in if so_value output \<noteq> None \<and> value = None then Some (False, results, t\<lparr>bt_heap := h\<rparr>)
             else let (_, results, h) = (if so_value output \<noteq> None
                        then cJSON_AddItemToObjectCS results (Some (output_key output)) value h
                        else (False, results, h));
                      (ok, results, h) = cJSON_AddObjectToObject results (Some STATUS_KEY) h
               in if \<not> ok then Some (False, results, t\<lparr>bt_heap := h\<rparr>)
                  else case results of
                    None \<Rightarrow> Some (False, None, t\<lparr>bt_heap := h\<rparr>)
                  | Some r \<Rightarrow>
                      do { (ok, status, h) \<leftarrow> add_numbers (status_numbers output) (Some (last (c_child r))) h;
                           Some (ok, Some (set_child (butlast (c_child r) @ the_list status) r), t\<lparr>bt_heap := h\<rparr>) } }"

subsection \<open>The peer's status\<close>

text \<open>\<open>valuedouble != valueint\<close> is false.\<close>

definition is_integer :: "cJSON \<Rightarrow> bool" where
  "is_integer i \<longleftrightarrow> deq (c_valuedouble i) (of_int64 (c_valueint i))"

definition status_well_formed ::
  "cJSON \<Rightarrow> cJSON option \<Rightarrow> cJSON option \<Rightarrow> cJSON option \<Rightarrow> cJSON option \<Rightarrow> bool" where
  "status_well_formed status version state format reason \<longleftrightarrow>
     cJSON_IsObject (Some status) \<and>
     (case (version, state, format, reason) of
        (Some v, Some s, Some f, Some r) \<Rightarrow>
          cJSON_IsNumber version \<and> deq (c_valuedouble v) (Fin 1) \<and>
          cJSON_IsNumber state \<and> is_integer s \<and> 1 \<le> c_valueint s \<and> c_valueint s \<le> 4 \<and>
          cJSON_IsNumber format \<and> (c_valueint f = 1 \<or> c_valueint f = 2) \<and> is_integer f \<and>
          cJSON_IsNumber reason \<and> is_integer r \<and> 0 \<le> c_valueint r \<and> c_valueint r \<le> 6
      | _ \<Rightarrow> False)"

definition status_consistent :: "int \<Rightarrow> int \<Rightarrow> int \<Rightarrow> bool" where
  "status_consistent state format reason \<longleftrightarrow>
     \<not> (state = 1 \<and> reason \<noteq> 0) \<and> \<not> (state = 2 \<and> (format \<noteq> 1 \<or> reason \<noteq> 1)) \<and>
     \<not> (3 \<le> state \<and> reason = 0)"

definition status_keys :: "bytes list" where
  "status_keys = map lit [''version'', ''state'', ''format'', ''reason'', ''observed_bytes'']"

text \<open>The loop over the members with the bit mask \<open>seen\<close>: no key occurs twice.\<close>

fun keys_once :: "cJSON list \<Rightarrow> bytes list \<Rightarrow> bool" where
  "keys_once [] seen = True"
| "keys_once (c # cs) seen =
     (case c_string c of
        None \<Rightarrow> keys_once cs seen
      | Some k \<Rightarrow> if k \<in> set status_keys then k \<notin> set seen \<and> keys_once cs (k # seen) else keys_once cs seen)"

definition observed_count :: "iperf_server_output \<Rightarrow> cJSON option \<Rightarrow> nat option" where
  "observed_count output bytes =
     (case bytes of
        None \<Rightarrow> None
      | Some b \<Rightarrow>
          (case c_valuedouble b of
             Fin x \<Rightarrow>
               if cJSON_IsNumber bytes \<and> dle (round64 (of_nat (so_observed_bytes output))) (Fin x) \<and>
                  x \<le> 9007199254740991 \<and> of_int \<lfloor>x\<rfloor> = x
               then Some (nat \<lfloor>x\<rfloor>) else None
           | _ \<Rightarrow> None))"

definition iperf_output_apply_peer_status ::
  "cJSON option \<Rightarrow> iperf_server_output \<times> heap \<Rightarrow> iperf_server_output \<times> heap" where
  "iperf_output_apply_peer_status results oh =
     (let output = fst oh in
      case cJSON_GetObjectItemCaseSensitive results (Some STATUS_KEY) of
        None \<Rightarrow> oh
      | Some status \<Rightarrow>
          let get = (\<lambda>k. cJSON_GetObjectItemCaseSensitive (Some status) (Some (lit k)));
              st = c_valueint (the (get ''state'')); fm = c_valueint (the (get ''format''));
              re = c_valueint (the (get ''reason''))
          in if \<not> status_well_formed status (get ''version'') (get ''state'') (get ''format'') (get ''reason'') then
               discard IPERF_OUTPUT_INVALID_DATA oh
             else if so_format output \<noteq> IPERF_OUTPUT_NONE \<and> format_number (so_format output) \<noteq> fm then
               discard IPERF_OUTPUT_INVALID_DATA oh
             else if so_state output = IPERF_OUTPUT_MISSING \<and> st < 3 then discard IPERF_OUTPUT_INVALID_DATA oh
             else if \<not> status_consistent st fm re then discard IPERF_OUTPUT_INVALID_DATA oh
             else if \<not> keys_once (c_child status) [] then discard IPERF_OUTPUT_INVALID_DATA oh
             else
               let (output, h) =
                     (if so_state output \<noteq> IPERF_OUTPUT_INVALID \<and> 3 \<le> st then
                        let (output, h) = discard (number_reason re) oh
                        in (output\<lparr>so_state := number_state st\<rparr>, h)
                      else if so_state output = IPERF_OUTPUT_COMPLETE \<and> st = 2 then
                        (output\<lparr>so_state := IPERF_OUTPUT_TRUNCATED, so_reason := number_reason re\<rparr>, snd oh)
                      else oh);
                   output = output\<lparr>so_format := number_format fm, so_observed_bytes_complete := False\<rparr>
               in (case observed_count output (get ''observed_bytes'') of
                     None \<Rightarrow> output
                   | Some n \<Rightarrow> output\<lparr>so_observed_bytes := n, so_observed_bytes_complete := True\<rparr>, h))"

subsection \<open>Sending and showing\<close>

definition results_capacity :: "nat \<Rightarrow> nat" where
  "results_capacity limit = IPERF_RESULT_CORE_MAX_BYTES + 6 * limit + 1024 + 5"

text \<open>\<open>None\<close> as the first result is 0; \<open>fd\<close> is \<open>ctrl_sck\<close>.\<close>

definition iperf_output_write_results ::
  "cJSON \<Rightarrow> int \<Rightarrow> budget_test \<Rightarrow> sock_os \<Rightarrow> (errno option \<times> budget_test \<times> sock_os) option" where
  "iperf_output_write_results results fd t os =
     (let capacity = results_capacity (server_output_byte_limit t); (ok, h) = allocate (bt_heap t)
      in if \<not> ok then Some (Some ENOMEM, t\<lparr>bt_heap := h\<rparr>, os)
         else do {
           (ok, mem) \<leftarrow> cJSON_PrintPreallocated results (Some (junk (bt_heap t) 0 capacity)) (int capacity) False h;
           (result, os) \<leftarrow>
             (if \<not> ok then Some (Some EFBIG, os)
              else let text = takeWhile (\<lambda>c. c \<noteq> 0) (the mem)
                in iperf_write_bounded_results_socket fd (Some text) (of_nat (length text))
                     IPERF_RESULT_READ_TIMEOUT_MS True os);
           Some (result, t\<lparr>bt_heap := deallocate h\<rparr>, os) })"

definition iperf_output_get_local_status :: "budget_test \<Rightarrow> iperf_server_output" where
  "iperf_output_get_local_status t = (collected_server_output t)\<lparr>so_value := None\<rparr>"

text \<open>The text that is handed to \<open>iperf_printf\<close>, if any.\<close>

definition iperf_output_print_received :: "budget_test \<Rightarrow> (bytes option \<times> budget_test) option" where
  "iperf_output_print_received t =
     (let output = received_server_output t
      in case so_value output of
           None \<Rightarrow> Some (None, t)
         | Some v \<Rightarrow>
             if so_format output \<noteq> IPERF_OUTPUT_JSON then
               Some (Some ([10] @ lit ''Server output:'' @ [10] @ v @ [10]), t)
             else do {
               r \<leftarrow> cJSON_ParseWithLength (Some v) (bt_heap t);
               (text, h) \<leftarrow> (case pr_item r of
                               None \<Rightarrow> Some (None, pr_heap r)
                             | Some tree \<Rightarrow> cJSON_Print tree (pr_heap r));
               let shown = (case text of None \<Rightarrow> v | Some s \<Rightarrow> takeWhile (\<lambda>c. c \<noteq> 0) s);
                   h = (if text = None then h else deallocate h);
                   h = cJSON_Delete (the_list (pr_item r)) h
               in Some (Some ([10] @ lit ''Server JSON output:'' @ [10] @ shown @ [10]), t\<lparr>bt_heap := h\<rparr>) })"

definition iperf_output_add_received_json :: "budget_test \<Rightarrow> budget_test" where
  "iperf_output_add_received_json t =
     (let output = received_server_output t
      in if so_value output = None then t
         else let (value, h) = output_item output (bt_heap t)
           in if value = None then t\<lparr>bt_heap := h\<rparr>
              else let (_, doc, h) = cJSON_AddItemToObjectCS (json_top t) (Some (output_key output)) value h
                in t\<lparr>json_top := doc, bt_heap := h\<rparr>)"

end
