(* ===== verification/Output_Budget_Safe.thy ===== *)
theory Output_Budget_Safe
  imports Output_Budget Bounded_Log Cjson_Print_Safe
begin

text \<open>
  Correctness of the output budget: the UTF-8 check decides validity; collected text is a
  function of the printed output; collected JSON is the rendering of the full document or
  nothing; the peer's status can only worsen the state.
\<close>

subsection \<open>The UTF-8 check\<close>

lemma byte_table:
  assumes "list_all (\<lambda>k. P (word_of_nat k)) [0..<256]"
  shows "P (b :: byte)"
proof -
  have "unat b \<in> set [0..<256]" by simp
  then show ?thesis using assms by (auto simp: list_all_iff dest!: bspec [of _ _ "unat b"])
qed

lemma cont_table:
  "0x80 \<le> b \<and> b \<le> 0xbf \<Longrightarrow> ucast (0x80 OR (ucast (b AND 63) :: uint32)) = (b :: byte)"
  "(ucast (b AND 63) :: uint32) AND 0x3f = ucast (b AND 63)"
proof -
  have "list_all (\<lambda>k. let b = word_of_nat k :: byte in
      (0x80 \<le> b \<and> b \<le> 0xbf \<longrightarrow> ucast (0x80 OR (ucast (b AND 63) :: uint32)) = b) \<and>
      (ucast (b AND 63) :: uint32) AND 0x3f = ucast (b AND 63)) [0..<256]" by code_simp
  from byte_table [where P = "\<lambda>b. (0x80 \<le> b \<and> b \<le> 0xbf \<longrightarrow> ucast (0x80 OR (ucast (b AND 63) :: uint32)) = b) \<and>
      (ucast (b AND 63) :: uint32) AND 0x3f = ucast (b AND 63)", OF this [unfolded Let_def], of b]
  show "0x80 \<le> b \<and> b \<le> 0xbf \<Longrightarrow> ucast (0x80 OR (ucast (b AND 63) :: uint32)) = (b :: byte)"
    "(ucast (b AND 63) :: uint32) AND 0x3f = ucast (b AND 63)" by simp_all
qed

lemma follow_bits:
  fixes s x :: uint32
  assumes "take_bit 20 s = s" "x AND 0x3f = x"
  shows "drop_bit 6 (push_bit 6 s OR x) = s" "(push_bit 6 s OR x) AND 0x3f = x" "take_bit 26 (push_bit 6 s OR x) = push_bit 6 s OR x"
proof -
  have x: "take_bit 6 x = x" using assms(2) by (simp add: take_bit_eq_mask mask_eq_exp_minus_1)
  have sb: "bit s n \<Longrightarrow> n < 20" for n using assms(1) by (metis bit_take_bit_iff)
  have xb: "bit x n \<Longrightarrow> n < 6" for n using x by (metis bit_take_bit_iff)
  show "drop_bit 6 (push_bit 6 s OR x) = s"
    by (rule bit_word_eqI) (use sb xb in \<open>fastforce simp: bit_simps\<close>)
  have "(push_bit 6 s OR x) AND mask 6 = x"
    by (rule bit_word_eqI) (use sb xb in \<open>auto simp: bit_simps\<close>)
  then show "(push_bit 6 s OR x) AND 0x3f = x" by (simp add: mask_eq_exp_minus_1)
  show "take_bit 26 (push_bit 6 s OR x) = push_bit 6 s OR x"
    by (rule bit_word_eqI) (use sb xb in \<open>fastforce simp: bit_simps\<close>)
qed

definition lead_ok :: "byte \<Rightarrow> bool" where
  "lead_ok c = (case utf8_lead c of
      None \<Rightarrow> True
    | Some (n, s, m) \<Rightarrow>
        (n = 1 \<and> s \<le> 0x7f \<and> s \<noteq> 0 \<and> ucast s = c \<and> m = 0) \<or> (n = 2 \<and> s < 32 \<and> ucast (0xc0 OR s) = c \<and> m = 0x80) \<or>
        (n = 3 \<and> s < 16 \<and> ucast (0xe0 OR s) = c \<and> m = 0x800) \<or> (n = 4 \<and> s < 8 \<and> ucast (0xf0 OR s) = c \<and> m = 0x10000))"

lemma lead_ok: "lead_ok c"
proof -
  have "list_all (\<lambda>k. lead_ok (word_of_nat k)) [0..<256]" by code_simp
  then show ?thesis by (rule byte_table)
qed

lemma small_take_bit: "s < 32 \<Longrightarrow> take_bit 20 s = (s :: uint32)"
proof -
  assume "s < 32"
  then have "unat (take_bit 20 s) = unat s"
    by (simp add: unsigned_take_bit_eq word_less_nat_alt take_bit_nat_eq_self)
  then show ?thesis by (simp add: word_unat_eq_iff)
qed

lemma take_bit_mono: "take_bit 26 (x :: uint32) = x \<Longrightarrow> unat x < 2 ^ 20 \<Longrightarrow> take_bit 20 x = x"
proof -
  assume "unat x < 2 ^ 20"
  then have "unat (take_bit 20 x) = unat x" by (simp add: unsigned_take_bit_eq take_bit_nat_eq_self)
  then show ?thesis by (simp add: word_unat_eq_iff)
qed

lemma unat_follow:
  assumes "take_bit 20 s = s"
  shows "unat (push_bit 6 s OR ucast ((b :: byte) AND 63) :: uint32) div 64 = unat s"
  using arg_cong [OF follow_bits(1) [OF assms cont_table(2) [of b]], of unat]
  unfolding unat_drop_bit_32 by simp

lemma utf8_decode:
  assumes lead: "utf8_lead c = Some (n, s0, m)" and f: "length f = n - 1" "utf8_follow s0 f = Some s"
    and s: "\<not> s < m"
  shows "c # f = utf8_bytes s \<and> s \<noteq> 0"
proof -
  note k = cont_table(2)
  consider (1) "n = 1" "s0 \<le> 0x7f" "s0 \<noteq> 0" "ucast s0 = c" | (2) "n = 2" "s0 < 32" "ucast (0xc0 OR s0) = c" "m = 0x80"
    | (3) "n = 3" "s0 < 16" "ucast (0xe0 OR s0) = c" "m = 0x800" | (4) "n = 4" "s0 < 8" "ucast (0xf0 OR s0) = c" "m = 0x10000"
    using lead_ok [of c] lead by (auto simp: lead_ok_def)
  then show ?thesis
  proof cases
    case 1
    then show ?thesis using f by (auto simp: utf8_bytes_def)
  next
    case 2
    then obtain b where b: "f = [b]" "0x80 \<le> b \<and> b \<le> 0xbf" "s = push_bit 6 s0 OR ucast (b AND 63)"
      using f by (cases f) (auto split: if_splits simp: not_less)
    have t: "take_bit 20 s0 = s0" by (rule small_take_bit [OF 2(2)])
    note fb = follow_bits [OF t k [of b], folded b(3)]
    have "unat s div 64 < 32" using unat_follow [OF t, of b] 2(2) b(3) by (simp add: word_less_nat_alt)
    then have u: "unat s < 2048" by simp
    then show ?thesis using 2 s b(1) fb(1,2) cont_table(1) [OF b(2)]
      by (auto simp: utf8_bytes_def word_le_nat_alt word_less_nat_alt)
  next
    case 3
    then obtain b1 b2 where b: "f = [b1, b2]" "0x80 \<le> b1 \<and> b1 \<le> 0xbf" "0x80 \<le> b2 \<and> b2 \<le> 0xbf"
      "s = push_bit 6 (push_bit 6 s0 OR ucast (b1 AND 63)) OR ucast (b2 AND 63)"
      using f by (cases f; cases "tl f") (auto split: if_splits simp: not_less)
    define s1 where "s1 = push_bit 6 s0 OR (ucast (b1 AND 63) :: uint32)"
    have "s0 < 32" using 3(2) by (rule less_trans) simp
    then have t: "take_bit 20 s0 = s0" by (rule small_take_bit)
    note fb1 = follow_bits [OF t k [of b1], folded s1_def]
    have "unat s1 div 64 < 16" using unat_follow [OF t, of b1] 3(2) by (simp add: word_less_nat_alt s1_def)
    then have "unat s1 < 1024" by simp
    then have t1: "take_bit 20 s1 = s1" by (intro take_bit_mono [OF fb1(3)]) simp
    have s': "s = push_bit 6 s1 OR ucast (b2 AND 63)" using b(4) by (simp add: s1_def)
    note fb2 = follow_bits [OF t1 k [of b2], folded s']
    have "unat s div 64 < 1024" using unat_follow [OF t1, of b2] \<open>unat s1 < 1024\<close> s' by simp
    then have u: "unat s < 65536" by simp
    have d12: "drop_bit 12 s = s0" using fb1(1) fb2(1) drop_bit_drop_bit [of 6 6 s] by simp
    show ?thesis using 3 s b(1) u fb1 fb2 d12 cont_table(1) [OF b(2)] cont_table(1) [OF b(3)]
      by (auto simp: utf8_bytes_def word_le_nat_alt word_less_nat_alt)
  next
    case 4
    then obtain b1 b2 b3 where b: "f = [b1, b2, b3]" "0x80 \<le> b1 \<and> b1 \<le> 0xbf" "0x80 \<le> b2 \<and> b2 \<le> 0xbf"
      "0x80 \<le> b3 \<and> b3 \<le> 0xbf"
      "s = push_bit 6 (push_bit 6 (push_bit 6 s0 OR ucast (b1 AND 63)) OR ucast (b2 AND 63)) OR ucast (b3 AND 63)"
      using f by (cases f; cases "tl f"; cases "tl (tl f)") (auto split: if_splits simp: not_less)
    define s1 where "s1 = push_bit 6 s0 OR (ucast (b1 AND 63) :: uint32)"
    define s2 where "s2 = push_bit 6 s1 OR (ucast (b2 AND 63) :: uint32)"
    have "s0 < 32" using 4(2) by (rule less_trans) simp
    then have t: "take_bit 20 s0 = s0" by (rule small_take_bit)
    note fb1 = follow_bits [OF t k [of b1], folded s1_def]
    have "unat s1 div 64 < 8" using unat_follow [OF t, of b1] 4(2) by (simp add: word_less_nat_alt s1_def)
    then have u1: "unat s1 < 512" by simp
    then have t1: "take_bit 20 s1 = s1" by (intro take_bit_mono [OF fb1(3)]) simp
    note fb2 = follow_bits [OF t1 k [of b2], folded s2_def]
    have "unat s2 div 64 < 512" using unat_follow [OF t1, of b2] u1 by (simp add: s2_def)
    then have u2: "unat s2 < 32768" by simp
    then have t2: "take_bit 20 s2 = s2" by (intro take_bit_mono [OF fb2(3)]) simp
    have s': "s = push_bit 6 s2 OR ucast (b3 AND 63)" using b(5) by (simp add: s1_def s2_def)
    note fb3 = follow_bits [OF t2 k [of b3], folded s']
    have d: "drop_bit 12 s = s1" "drop_bit 18 s = s0"
      using fb1(1) fb2(1) fb3(1) drop_bit_drop_bit [of 6 6 s] drop_bit_drop_bit [of 6 12 s] by simp_all
    show ?thesis
      using 4 s b(1) fb1 fb2 fb3 d cont_table(1) [OF b(2)] cont_table(1) [OF b(3)] cont_table(1) [OF b(4)]
      by (auto simp: utf8_bytes_def word_le_nat_alt word_less_nat_alt)
  qed
qed

lemma cont_encode:
  "(ucast (0x80 OR (x AND 0x3f) :: uint32) :: byte) < 0x80 \<or> 0xbf < (ucast (0x80 OR (x AND 0x3f) :: uint32) :: byte) \<longleftrightarrow> False"
  "ucast ((ucast (0x80 OR (x AND 0x3f) :: uint32) :: byte) AND 63) = x AND (0x3f :: uint32)"
proof -
  have t: "list_all (\<lambda>k. let y = word_of_nat k :: uint32; b = ucast (0x80 OR y) :: byte in
      \<not> (b < 0x80 \<or> 0xbf < b) \<and> ucast (b AND 63) = y) [0..<64]" by code_simp
  have "x AND 0x3f \<le> 0x3f" by (rule word_and_le1)
  then have "unat (x AND 0x3f) < 64" by (simp add: word_le_nat_alt)
  then have "let y = x AND 0x3f; b = ucast (0x80 OR y) :: byte in \<not> (b < 0x80 \<or> 0xbf < b) \<and> ucast (b AND 63) = y"
    by (intro lead_table [OF t, of "x AND 0x3f"]) simp_all
  then show "(ucast (0x80 OR (x AND 0x3f) :: uint32) :: byte) < 0x80 \<or> 0xbf < (ucast (0x80 OR (x AND 0x3f) :: uint32) :: byte) \<longleftrightarrow> False"
    "ucast ((ucast (0x80 OR (x AND 0x3f) :: uint32) :: byte) AND 63) = x AND (0x3f :: uint32)"
    by (simp_all add: Let_def)
qed

lemma join_bits:
  fixes s :: uint32
  shows "push_bit 6 (drop_bit 6 s) OR (s AND 0x3f) = s"
    "push_bit 6 (drop_bit 12 s) OR (drop_bit 6 s AND 0x3f) = drop_bit 6 s"
    "push_bit 6 (drop_bit 18 s) OR (drop_bit 12 s AND 0x3f) = drop_bit 12 s"
proof -
  have m: "(0x3f :: uint32) = mask 6" by (simp add: mask_eq_exp_minus_1)
  have j: "push_bit 6 (drop_bit 6 x) OR (x AND 0x3f) = x" for x :: uint32
    unfolding m by (rule bit_word_eqI) (auto simp: bit_simps)
  show "push_bit 6 (drop_bit 6 s) OR (s AND 0x3f) = s" by (rule j)
  show "push_bit 6 (drop_bit 12 s) OR (drop_bit 6 s AND 0x3f) = drop_bit 6 s"
    using j [of "drop_bit 6 s"] by simp
  show "push_bit 6 (drop_bit 18 s) OR (drop_bit 12 s AND 0x3f) = drop_bit 12 s"
    using j [of "drop_bit 12 s"] by simp
qed

lemma lead_encode_tables:
  "list_all (\<lambda>k. utf8_lead (ucast (0xc0 OR (word_of_nat k :: uint32))) = Some (2, word_of_nat k, 0x80)) [2..<32]"
  "list_all (\<lambda>k. utf8_lead (ucast (0xe0 OR (word_of_nat k :: uint32))) = Some (3, word_of_nat k, 0x800)) [0..<16]"
  "list_all (\<lambda>k. utf8_lead (ucast (0xf0 OR (word_of_nat k :: uint32))) = Some (4, word_of_nat k, 0x10000)) [0..<5]"
  "list_all (\<lambda>k. utf8_lead (ucast (word_of_nat k :: uint32)) = Some (1, word_of_nat k, 0)) [1..<128]"
  by code_simp+

lemma utf8_bytes_accepted:
  assumes "scalar_ok s" "s \<noteq> 0"
  obtains c f n s0 m where "utf8_bytes s = c # f" "utf8_lead c = Some (n, s0, m)" "length f = n - 1"
    "utf8_follow s0 f = Some s" "\<not> s < m" "0 < n" "n \<le> 4"
proof -
  have s: "unat s \<le> 1114111" using assms by (simp add: scalar_ok_def word_le_nat_alt)
  consider "s \<le> 0x7f" | "\<not> s \<le> 0x7f" "s \<le> 0x7ff" | "\<not> s \<le> 0x7ff" "s \<le> 0xffff" | "\<not> s \<le> 0xffff"
    by fastforce
  then show ?thesis
  proof cases
    case 1
    have "unat s \<noteq> 0" using assms(2) by (simp add: unat_eq_0)
    then have "utf8_lead (ucast s) = Some (1, s, 0)"
      using 1 by (intro lead_table [OF lead_encode_tables(4)]) (simp_all add: word_le_nat_alt)
    then show ?thesis using 1 that [of "ucast s" "[]" 1 s 0] by (simp add: utf8_bytes_def)
  next
    case 2
    have ns: "\<not> s < 0x80" using 2 by (simp add: word_le_nat_alt word_less_nat_alt)
    from 2 have "utf8_lead (ucast (0xc0 OR drop_bit 6 s)) = Some (2, drop_bit 6 s, 0x80)"
      by (intro lead_table [OF lead_encode_tables(1)]) (simp_all add: unat_drop_bit_32 word_le_nat_alt)
    then show ?thesis
      using 2 that [of "ucast (0xc0 OR drop_bit 6 s)" "[ucast (0x80 OR (s AND 0x3f))]" 2 "drop_bit 6 s" "0x80"]
      by (simp add: utf8_bytes_def cont_encode join_bits ns)
  next
    case 3
    have ns: "\<not> s < 0x800" "\<not> s \<le> 0x7f" using 3 by (simp_all add: word_le_nat_alt word_less_nat_alt)
    from 3 have "utf8_lead (ucast (0xe0 OR drop_bit 12 s)) = Some (3, drop_bit 12 s, 0x800)"
      by (intro lead_table [OF lead_encode_tables(2)]) (simp_all add: unat_drop_bit_32 word_le_nat_alt)
    then show ?thesis
      using 3 that [of "ucast (0xe0 OR drop_bit 12 s)"
          "[ucast (0x80 OR (drop_bit 6 s AND 0x3f)), ucast (0x80 OR (s AND 0x3f))]" 3 "drop_bit 12 s" "0x800"]
      by (simp add: utf8_bytes_def cont_encode join_bits ns)
  next
    case 4
    have ns: "\<not> s < 0x10000" "\<not> s \<le> 0x7f" "\<not> s \<le> 0x7ff" using 4 by (simp_all add: word_le_nat_alt word_less_nat_alt)
    from 4 have "utf8_lead (ucast (0xf0 OR drop_bit 18 s)) = Some (4, drop_bit 18 s, 0x10000)"
      using s by (intro lead_table [OF lead_encode_tables(3)]) (simp_all add: unat_drop_bit_32)
    then show ?thesis
      using 4 that [of "ucast (0xf0 OR drop_bit 18 s)"
          "[ucast (0x80 OR (drop_bit 12 s AND 0x3f)), ucast (0x80 OR (drop_bit 6 s AND 0x3f)), ucast (0x80 OR (s AND 0x3f))]"
          4 "drop_bit 18 s" "0x10000"]
      by (simp add: utf8_bytes_def cont_encode join_bits ns)
  qed
qed

lemma utf8_text_Cons: "scalar_ok s \<Longrightarrow> s \<noteq> 0 \<Longrightarrow> utf8_text v \<Longrightarrow> utf8_text (utf8_bytes s @ v)"
  unfolding utf8_text_def
proof (elim exE conjE)
  fix ss assume a: "scalar_ok s" "s \<noteq> 0" "v = concat (map utf8_bytes ss)" "\<forall>s\<in>set ss. scalar_ok s \<and> s \<noteq> 0"
  show "\<exists>ss. utf8_bytes s @ v = concat (map utf8_bytes ss) \<and> (\<forall>s\<in>set ss. scalar_ok s \<and> s \<noteq> 0)"
    using a by (intro exI [of _ "s # ss"]) simp
qed

lemma utf8_lead_width: "utf8_lead c = Some (n, s, m) \<Longrightarrow> 0 < n \<and> n \<le> 4"
  by (auto simp: utf8_lead_def split: if_splits)

definition valid_part :: "bytes \<Rightarrow> bool \<Rightarrow> bool \<Rightarrow> nat \<Rightarrow> bool" where
  "valid_part t is_cut ok w \<longleftrightarrow> w \<le> length t \<and> utf8_text (take w t) \<and> (ok \<and> \<not> is_cut \<longrightarrow> w = length t) \<and>
     (ok \<longrightarrow> length t < w + 4)"

lemma utf8_prefix_sound: "\<exists>w. snd (utf8_prefix t is_cut k) = k + w \<and> valid_part t is_cut (fst (utf8_prefix t is_cut k)) w"
proof (induction t is_cut k rule: utf8_prefix.induct)
  case (1 is_cut k)
  show ?case by (auto simp: valid_part_def)
next
  case (2 c r is_cut k)
  have stop: ?case if "utf8_prefix (c # r) is_cut k = (b, k)" "b \<longrightarrow> is_cut \<and> length (c # r) < 4" for b
    using that by (auto simp: valid_part_def)
  show ?case
  proof (cases "utf8_lead c")
    case None
    then show ?thesis by (intro stop [of False]) simp_all
  next
    case (Some l)
    obtain n s0 m where l: "utf8_lead c = Some (n, s0, m)" using Some by (cases l) auto
    note n = utf8_lead_width [OF l]
    show ?thesis
    proof (cases "length (c # r) < n")
      case True
      then show ?thesis using l n by (intro stop [of is_cut]) auto
    next
      case len: False
      show ?thesis
      proof (cases "utf8_follow s0 (take (n - 1) r)")
        case None
        then show ?thesis using l len by (intro stop [of False]) simp_all
      next
        case (Some s)
        show ?thesis
        proof (cases "s < m \<or> 0x10ffff < s \<or> (0xd800 \<le> s \<and> s \<le> 0xdfff)")
          case True
          then show ?thesis using l len Some by (intro stop [of False]) simp_all
        next
          case ok: False
          have d: "c # take (n - 1) r = utf8_bytes s \<and> s \<noteq> 0"
            by (rule utf8_decode [OF l _ Some]) (use ok len n in auto)
          have so: "scalar_ok s" using ok by (auto simp: scalar_ok_def not_less)
          have eq: "utf8_prefix (c # r) is_cut k = utf8_prefix (drop (n - 1) r) is_cut (k + n)"
            using l len Some ok by auto
          from "2.IH" [OF l refl refl len Some ok] obtain w where
            w: "snd (utf8_prefix (drop (n - 1) r) is_cut (k + n)) = k + n + w"
            "valid_part (drop (n - 1) r) is_cut (fst (utf8_prefix (drop (n - 1) r) is_cut (k + n))) w"
            by auto
          have "take (n + w) (c # r) = (c # take (n - 1) r) @ take w (drop (n - 1) r)"
            using n take_add [of "n - 1" w r] by (cases n) simp_all
          then have "take (n + w) (c # r) = utf8_bytes s @ take w (drop (n - 1) r)" using d by simp
          moreover have "utf8_text (utf8_bytes s @ take w (drop (n - 1) r))"
            by (rule utf8_text_Cons) (use d so w(2) in \<open>auto simp: valid_part_def\<close>)
          ultimately have "utf8_text (take (n + w) (c # r))" by simp
          then have "valid_part (c # r) is_cut (fst (utf8_prefix (c # r) is_cut k)) (n + w)"
            using w(2) len n unfolding eq valid_part_def by auto
          then show ?thesis using w(1) eq by (intro exI [of _ "n + w"]) simp
        qed
      qed
    qed
  qed
qed

lemma utf8_prefix_scalar:
  assumes "scalar_ok s" "s \<noteq> 0"
  shows "utf8_prefix (utf8_bytes s @ r) is_cut k = utf8_prefix r is_cut (k + length (utf8_bytes s))"
proof -
  obtain c f n s0 m where e: "utf8_bytes s = c # f" "utf8_lead c = Some (n, s0, m)" "length f = n - 1"
    "utf8_follow s0 f = Some s" "\<not> s < m" "0 < n" "n \<le> 4" by (rule utf8_bytes_accepted [OF assms])
  have "\<not> (s < m \<or> 0x10ffff < s \<or> (0xd800 \<le> s \<and> s \<le> 0xdfff))" using assms(1) e(5) by (auto simp: scalar_ok_def not_less)
  then show ?thesis using e by (auto simp: not_less)
qed

lemma utf8_prefix_complete: "utf8_text t \<Longrightarrow> utf8_prefix t is_cut k = (True, k + length t)"
proof -
  have "\<forall>s \<in> set ss. scalar_ok s \<and> s \<noteq> 0 \<Longrightarrow>
    utf8_prefix (concat (map utf8_bytes ss)) is_cut k = (True, k + length (concat (map utf8_bytes ss)))" for ss
    by (induction ss arbitrary: k) (auto simp: utf8_prefix_scalar)
  then show "utf8_text t \<Longrightarrow> ?thesis" by (auto simp: utf8_text_def)
qed

lemma utf8_prefix_cut: "utf8_text (t @ u) \<Longrightarrow> fst (utf8_prefix t True k)"
proof -
  have "\<forall>s \<in> set ss. scalar_ok s \<and> s \<noteq> 0 \<Longrightarrow> t @ u = concat (map utf8_bytes ss) \<Longrightarrow> fst (utf8_prefix t True k)" for ss
  proof (induction ss arbitrary: t k)
    case Nil
    then show ?case by simp
  next
    case (Cons s ss)
    then have s: "scalar_ok s" "s \<noteq> 0" by auto
    show ?case
    proof (cases "length (utf8_bytes s) \<le> length t")
      case True
      then have "t = utf8_bytes s @ drop (length (utf8_bytes s)) t"
        using Cons.prems(2) by (metis append_eq_append_conv_if append_take_drop_id concat.simps(2) list.simps(9))
      moreover from this have "drop (length (utf8_bytes s)) t @ u = concat (map utf8_bytes ss)"
        using Cons.prems(2) by (metis append_assoc concat.simps(2) list.simps(9) same_append_eq)
      ultimately show ?thesis using Cons.IH [of "drop (length (utf8_bytes s)) t"] Cons.prems(1) utf8_prefix_scalar [OF s]
        by (metis list.set_intros(2))
    next
      case False
      obtain c f n s0 m where e: "utf8_bytes s = c # f" "utf8_lead c = Some (n, s0, m)" "length f = n - 1" "0 < n"
        by (rule utf8_bytes_accepted [OF s])
      show ?thesis
      proof (cases t)
        case (Cons x t')
        then have "x = c" using Cons.prems(2) e(1) by simp
        then show ?thesis using Cons False e by simp
      qed simp
    qed
  qed
  then show "utf8_text (t @ u) \<Longrightarrow> ?thesis" by (auto simp: utf8_text_def)
qed

text \<open>
  C25. \<open>utf8_prefix\<close> decides UTF-8: without a cut it accepts exactly the texts that are
  encodings of Unicode scalars other than NUL; with a cut it accepts every prefix of such a
  text, and what it declares valid is a whole number of scalars with at most three bytes
  left over.
\<close>

theorem utf8_prefix_decides:
  "fst (utf8_prefix t False 0) = utf8_text t \<and>
   (\<forall>u. utf8_text (t @ u) \<longrightarrow> (\<exists>w. utf8_prefix t True 0 = (True, w) \<and> utf8_text (take w t) \<and>
      w \<le> length t \<and> length t < w + 4))"
proof (intro conjI allI impI)
  show "fst (utf8_prefix t False 0) = utf8_text t"
    using utf8_prefix_sound [of t False 0] utf8_prefix_complete [of t False 0] by (auto simp: valid_part_def)
  fix u assume "utf8_text (t @ u)"
  then have "fst (utf8_prefix t True 0)" by (rule utf8_prefix_cut)
  then show "\<exists>w. utf8_prefix t True 0 = (True, w) \<and> utf8_text (take w t) \<and> w \<le> length t \<and> length t < w + 4"
    using utf8_prefix_sound [of t True 0] by (cases "utf8_prefix t True 0") (auto simp: valid_part_def)
qed

theorem utf8_prefix_decides_witness:
  "\<exists>w. utf8_prefix [0x41, 0xe2, 0x82] True 0 = (True, w) \<and> utf8_text (take w [0x41, 0xe2, 0x82]) \<and> 3 < w + 4"
proof -
  have "utf8_text ([0x41, 0xe2, 0x82] @ [0xac])" unfolding utf8_text_def
    by (intro exI [of _ "[0x41, 0x20ac]"]) (simp add: utf8_bytes_def scalar_ok_def)
  then show ?thesis using utf8_prefix_decides [of "[0x41, 0xe2, 0x82]"] by auto
qed

subsection \<open>Collected text\<close>

text \<open>The output after texts with concatenation \<open>P\<close> have been collected under the limit.\<close>

definition text_collected :: "nat \<Rightarrow> bytes \<Rightarrow> iperf_server_output \<Rightarrow> bool" where
  "text_collected L P output \<longleftrightarrow>
     so_format output = IPERF_OUTPUT_TEXT \<and> so_observed_bytes output = length P \<and> so_observed_bytes_complete output \<and>
     (if length P \<le> L then so_state output = IPERF_OUTPUT_COMPLETE \<and> so_value output = Some P
      else so_state output = IPERF_OUTPUT_TRUNCATED \<and> so_reason output = IPERF_OUTPUT_BYTE_LIMIT \<and>
        (\<exists>w \<le> L. so_value output = Some (take w P) \<and> L < w + 4 \<and> utf8_text (take w P)))"

lemma utf8_text_append: "utf8_text a \<Longrightarrow> utf8_text b \<Longrightarrow> utf8_text (a @ b)"
  unfolding utf8_text_def
proof (elim exE conjE)
  fix xs ys assume a: "a = concat (map utf8_bytes xs)" "\<forall>s\<in>set xs. scalar_ok s \<and> s \<noteq> 0"
    "b = concat (map utf8_bytes ys)" "\<forall>s\<in>set ys. scalar_ok s \<and> s \<noteq> 0"
  show "\<exists>ss. a @ b = concat (map utf8_bytes ss) \<and> (\<forall>s\<in>set ss. scalar_ok s \<and> s \<noteq> 0)"
    using a by (intro exI [of _ "xs @ ys"]) auto
qed

lemma append_format_collects:
  assumes c: "text_collected L P (collected_server_output t)" and L: "server_output_byte_limit t = L"
    and s: "utf8_text s" "utf8_text P" "length (P @ s) \<le> UINT64_MAX"
  shows "\<exists>t'. append_format (Some s) (Some s) t = Some t' \<and> text_collected L (P @ s) (collected_server_output t') \<and>
     server_output_byte_limit t' = L \<and> output_finalized t' = output_finalized t"
proof -
  define t1 where "t1 = set_collected (count_bytes (length s)) t"
  let ?o = "collected_server_output t1"
  have cb: "?o = (collected_server_output t)\<lparr>so_observed_bytes := length (P @ s)\<rparr>"
    using c s(3) by (simp add: t1_def count_bytes_def text_collected_def)
  show ?thesis
  proof (cases "length P \<le> L")
    case False
    then obtain w where w: "w \<le> L" "so_value (collected_server_output t) = Some (take w P)" "L < w + 4" "utf8_text (take w P)"
      "so_state (collected_server_output t) = IPERF_OUTPUT_TRUNCATED" using c by (auto simp: text_collected_def)
    have "take w (P @ s) = take w P" using w(1) False by simp
    then show ?thesis
      using False c L w cb
      by (auto simp: append_format_def t1_def [symmetric] Let_def text_collected_def intro!: exI [of _ w])
        (simp_all add: t1_def)
  next
    case True
    then have o: "so_state ?o = IPERF_OUTPUT_COMPLETE" "so_value ?o = Some P" "so_format ?o = IPERF_OUTPUT_TEXT"
      "so_observed_bytes_complete ?o" "so_observed_bytes ?o = length (P @ s)"
      using c cb by (simp_all add: text_collected_def)
    have L1: "server_output_byte_limit t1 = L" "output_finalized t1 = output_finalized t" using L by (simp_all add: t1_def)
    show ?thesis
    proof (cases "length s \<le> L - length P")
      case fits: True
      then have "append_format (Some s) (Some s) t = Some (set_collected (\<lambda>w. w\<lparr>so_value := Some (P @ s)\<rparr>) t1)"
        using True o L1 utf8_prefix_complete [OF s(1), of False 0]
        by (auto simp: append_format_def t1_def [symmetric] Let_def)
      then show ?thesis using fits True o L1 by (auto simp: text_collected_def)
    next
      case over: False
      let ?a = "L - length P"
      have "utf8_text (take ?a s @ drop ?a s)" using s(1) by simp
      then have "fst (utf8_prefix (take ?a s) True 0)" by (rule utf8_prefix_cut)
      moreover obtain w where w: "snd (utf8_prefix (take ?a s) True 0) = w" "valid_part (take ?a s) True (fst (utf8_prefix (take ?a s) True 0)) w"
        using utf8_prefix_sound [of "take ?a s" True 0] by auto
      ultimately have p: "utf8_prefix (take ?a s) True 0 = (True, w)" by (metis prod.collapse)
      have w': "w \<le> ?a" "?a < w + 4" "utf8_text (take w s)"
        using w(2) p over by (auto simp: valid_part_def min_def)
      have "append_format (Some s) (Some s) t = Some (set_collected (\<lambda>x. x\<lparr>so_value := Some (P @ take w s),
          so_state := IPERF_OUTPUT_TRUNCATED, so_reason := IPERF_OUTPUT_BYTE_LIMIT\<rparr>) t1)"
        using True over o L1 p by (auto simp: append_format_def t1_def [symmetric] Let_def)
      moreover have "take (length P + w) (P @ s) = P @ take w s" by simp
      moreover have "utf8_text (P @ take w s)" by (rule utf8_text_append [OF s(2) w'(3)])
      ultimately show ?thesis using True over o L1 w'
        by (auto simp: text_collected_def intro!: exI [of _ "length P + w"])
    qed
  qed
qed

text \<open>A sequence of calls of \<open>iperf_output_collect_printf\<close>, and all the bytes they print.\<close>

fun collect_texts :: "(bytes option \<times> bytes) list \<Rightarrow> budget_test \<Rightarrow> budget_test option" where
  "collect_texts [] t = Some t"
| "collect_texts ((prefix, s) # xs) t =
     do { t \<leftarrow> iperf_output_collect_printf prefix (Some s) (Some s) t; collect_texts xs t }"

definition printed :: "(bytes option \<times> bytes) list \<Rightarrow> bytes" where
  "printed xs = concat (map (\<lambda>(prefix, s). (case prefix of None \<Rightarrow> [] | Some p \<Rightarrow> p) @ s) xs)"

definition texts_ok :: "(bytes option \<times> bytes) list \<Rightarrow> bool" where
  "texts_ok xs \<longleftrightarrow> (\<forall>(prefix, s) \<in> set xs. utf8_text s \<and> (case prefix of None \<Rightarrow> True | Some p \<Rightarrow> utf8_text p))"

lemma collect_printf_collects:
  assumes c: "text_collected L P (collected_server_output t)" and L: "server_output_byte_limit t = L" "\<not> output_finalized t"
    and s: "texts_ok [(prefix, s)]" "utf8_text P" "length (P @ printed [(prefix, s)]) \<le> UINT64_MAX"
  shows "\<exists>t'. iperf_output_collect_printf prefix (Some s) (Some s) t = Some t' \<and>
     text_collected L (P @ printed [(prefix, s)]) (collected_server_output t') \<and> server_output_byte_limit t' = L \<and>
     \<not> output_finalized t'"
proof -
  have b: "begin_collect IPERF_OUTPUT_TEXT t = (so_state (collected_server_output t) = IPERF_OUTPUT_COMPLETE, t)"
    using c by (auto simp: begin_collect_def text_collected_def split: if_splits)
  have us: "utf8_text s" using s(1) by (simp add: texts_ok_def)
  show ?thesis
  proof (cases prefix)
    case None
    from append_format_collects [OF c L(1) us s(2)] s(3) None L(2) b show ?thesis
      by (auto simp: iperf_output_collect_printf_def printed_def)
  next
    case (Some p)
    have up: "utf8_text p" using s(1) Some by (simp add: texts_ok_def)
    have le: "length (P @ p) \<le> UINT64_MAX" "length ((P @ p) @ s) \<le> UINT64_MAX" using s(3) Some by (simp_all add: printed_def)
    from append_format_collects [OF c L(1) up s(2) le(1)] obtain t1 where
      t1: "append_format (Some p) (Some p) t = Some t1" "text_collected L (P @ p) (collected_server_output t1)"
      "server_output_byte_limit t1 = L" "output_finalized t1 = output_finalized t" by (elim exE conjE) (rule that)
    from append_format_collects [OF t1(2,3) us utf8_text_append [OF s(2) up] le(2)] obtain t2 where
      t2: "append_format (Some s) (Some s) t1 = Some t2" "text_collected L ((P @ p) @ s) (collected_server_output t2)"
      "server_output_byte_limit t2 = L" "output_finalized t2 = output_finalized t1" by (elim exE conjE) (rule that)
    show ?thesis using t1 t2 b L(2) Some by (simp add: iperf_output_collect_printf_def printed_def)
  qed
qed

lemma printed_Cons: "printed (x # xs) = printed [x] @ printed xs"
  by (cases x) (simp add: printed_def)

lemma printed_ok: "texts_ok xs \<Longrightarrow> utf8_text (printed xs)"
  by (induction xs) (auto simp: printed_def texts_ok_def intro!: utf8_text_append split: option.splits)

lemma collect_texts_collects:
  assumes "text_collected L P (collected_server_output t)" "server_output_byte_limit t = L" "\<not> output_finalized t"
    and "texts_ok xs" "utf8_text P" "length (P @ printed xs) \<le> UINT64_MAX"
  shows "\<exists>t'. collect_texts xs t = Some t' \<and> text_collected L (P @ printed xs) (collected_server_output t')"
  using assms
proof (induction xs arbitrary: P t)
  case Nil
  then show ?case by (simp add: printed_def)
next
  case (Cons x xs)
  obtain prefix s where x: "x = (prefix, s)" by fastforce
  have ok: "texts_ok [(prefix, s)]" "texts_ok xs" using Cons.prems(4) x by (auto simp: texts_ok_def)
  have le: "length (P @ printed [(prefix, s)]) \<le> UINT64_MAX"
    "length ((P @ printed [(prefix, s)]) @ printed xs) \<le> UINT64_MAX"
    using Cons.prems(6) printed_Cons [of x xs] x by simp_all
  from collect_printf_collects [OF Cons.prems(1-3) ok(1) Cons.prems(5) le(1)] obtain t1 where
    t1: "iperf_output_collect_printf prefix (Some s) (Some s) t = Some t1"
    "text_collected L (P @ printed [(prefix, s)]) (collected_server_output t1)" "server_output_byte_limit t1 = L"
    "\<not> output_finalized t1" by (elim exE conjE) (rule that)
  from Cons.IH [OF t1(2-4) ok(2) utf8_text_append [OF Cons.prems(5) printed_ok [OF ok(1)]] le(2)]
  show ?case using t1(1) x printed_Cons [of x xs] by simp
qed


definition sample_test :: "nat \<Rightarrow> budget_test" where
  "sample_test limit = \<lparr>server_output_byte_limit = limit, collected_server_output = zero_output,
     received_server_output = zero_output, output_read_metrics = zero_metrics, output_scratch = None,
     output_json_values = 0, output_json_intervals = 0, output_finalized = False, received_server_output_ready = False,
     output_stop_requested = False, json_output = False, json_top = None, json_intervals = None,
     bt_heap = \<lparr>h_ok = \<lambda>_. True, h_fill = \<lambda>_ _. 0, h_calls = 0, h_live = 0, h_realloc = True\<rparr>\<rparr>"


subsection \<open>The peer's status\<close>

definition worsened :: "iperf_server_output \<Rightarrow> heap \<Rightarrow> iperf_server_output \<times> heap \<Rightarrow> bool" where
  "worsened output h r \<longleftrightarrow> (let (output', h') = r in
     state_number (so_state output) \<le> state_number (so_state output') \<and>
     (so_state output' = IPERF_OUTPUT_COMPLETE \<longrightarrow> so_state output = IPERF_OUTPUT_COMPLETE) \<and>
     (so_value output' = so_value output \<and> h_live h' = h_live h \<or>
      so_value output' = None \<and> h_live h' = h_live h - 1) \<and>
     (so_state output' \<noteq> so_state output \<and> 3 \<le> state_number (so_state output') \<longrightarrow> so_value output' = None))"

lemma worsened_refl: "worsened output h (output, h)"
  by (simp add: worsened_def)

lemma discard_worsens: "worsened output h (discard IPERF_OUTPUT_INVALID_DATA (output, h))"
  by (auto simp: worsened_def discard_def state_number_def deallocate_def split: iperf_output_state.splits)

lemma peer_merge_worsens:
  assumes "so_state output \<noteq> IPERF_OUTPUT_MISSING \<or> 3 \<le> st" "1 \<le> st" "st \<le> 4"
  shows "worsened output h
    (if so_state output \<noteq> IPERF_OUTPUT_INVALID \<and> 3 \<le> st then
       let (output, h) = discard r (output, h) in (output\<lparr>so_state := number_state st\<rparr>, h)
     else if so_state output = IPERF_OUTPUT_COMPLETE \<and> st = 2 then
       (output\<lparr>so_state := IPERF_OUTPUT_TRUNCATED, so_reason := r\<rparr>, h)
     else (output, h))"
proof -
  have "st = 1 \<or> st = 2 \<or> st = 3 \<or> st = 4" using assms(2,3) by linarith
  then show ?thesis using assms(1)
    by (elim disjE)
      (auto simp: worsened_def discard_def state_number_def number_state_def deallocate_def
        split: iperf_output_state.splits)
qed

lemma worsened_observed:
  "worsened output h (w, h') \<Longrightarrow> worsened output h
     (case observed_count (w\<lparr>so_format := f, so_observed_bytes_complete := False\<rparr>) b of
        None \<Rightarrow> w\<lparr>so_format := f, so_observed_bytes_complete := False\<rparr>
      | Some n \<Rightarrow> (w\<lparr>so_format := f, so_observed_bytes_complete := False\<rparr>)\<lparr>so_observed_bytes := n, so_observed_bytes_complete := True\<rparr>, h')"
  by (auto simp: worsened_def split: option.splits)

lemma apply_peer_status_worsens: "worsened output h (iperf_output_apply_peer_status results (output, h))"
proof (cases "cJSON_GetObjectItemCaseSensitive results (Some STATUS_KEY)")
  case None
  then show ?thesis by (simp add: iperf_output_apply_peer_status_def worsened_refl)
next
  case (Some status)
  define get where "get = (\<lambda>k. cJSON_GetObjectItemCaseSensitive (Some status) (Some (lit k)))"
  define st where "st = c_valueint (the (get ''state''))"
  define fm where "fm = c_valueint (the (get ''format''))"
  define re where "re = c_valueint (the (get ''reason''))"
  let ?wf = "status_well_formed status (get ''version'') (get ''state'') (get ''format'') (get ''reason'')"
  let ?m = "if so_state output \<noteq> IPERF_OUTPUT_INVALID \<and> 3 \<le> st then
       let (output, h) = discard (number_reason re) (output, h) in (output\<lparr>so_state := number_state st\<rparr>, h)
     else if so_state output = IPERF_OUTPUT_COMPLETE \<and> st = 2 then
       (output\<lparr>so_state := IPERF_OUTPUT_TRUNCATED, so_reason := number_reason re\<rparr>, h)
     else (output, h)"
  obtain w h' where m: "?m = (w, h')" by fastforce
  have body: "iperf_output_apply_peer_status results (output, h) =
     (if \<not> ?wf then discard IPERF_OUTPUT_INVALID_DATA (output, h)
      else if so_format output \<noteq> IPERF_OUTPUT_NONE \<and> format_number (so_format output) \<noteq> fm then
        discard IPERF_OUTPUT_INVALID_DATA (output, h)
      else if so_state output = IPERF_OUTPUT_MISSING \<and> st < 3 then discard IPERF_OUTPUT_INVALID_DATA (output, h)
      else if \<not> status_consistent st fm re then discard IPERF_OUTPUT_INVALID_DATA (output, h)
      else if \<not> keys_once (c_child status) [] then discard IPERF_OUTPUT_INVALID_DATA (output, h)
      else (case observed_count (w\<lparr>so_format := number_format fm, so_observed_bytes_complete := False\<rparr>) (get ''observed_bytes'') of
        None \<Rightarrow> w\<lparr>so_format := number_format fm, so_observed_bytes_complete := False\<rparr>
      | Some n \<Rightarrow> (w\<lparr>so_format := number_format fm, so_observed_bytes_complete := False\<rparr>)\<lparr>so_observed_bytes := n, so_observed_bytes_complete := True\<rparr>, h'))"
    using m unfolding iperf_output_apply_peer_status_def Some option.case get_def st_def fm_def re_def Let_def fst_conv snd_conv
    by simp
  have st: "1 \<le> st \<and> st \<le> 4" if ?wf
    using that by (auto simp: status_well_formed_def st_def split: option.splits)
  have "worsened output h ?m" if "\<not> (so_state output = IPERF_OUTPUT_MISSING \<and> st < 3)" ?wf
    by (rule peer_merge_worsens) (use that st in auto)
  then show ?thesis
    unfolding body m by (simp add: discard_worsens worsened_observed)
qed

text \<open>
  C26. Peer metadata can only worsen the local state, as the comment in the code demands: for
  every message, the state after \<open>iperf_output_apply_peer_status\<close> is at least as bad (in the
  order missing, complete, truncated, discarded, invalid), it is complete only if it was
  complete before, the retained bytes are either unchanged or freed exactly once, and they
  are freed when the peer declares its output discarded or invalid.
\<close>

theorem peer_status_only_worsens:
  "let (output', h') = iperf_output_apply_peer_status results (output, h) in
     state_number (so_state output) \<le> state_number (so_state output') \<and>
     (so_state output' = IPERF_OUTPUT_COMPLETE \<longrightarrow> so_state output = IPERF_OUTPUT_COMPLETE) \<and>
     (so_value output' = so_value output \<and> h_live h' = h_live h \<or>
      so_value output' = None \<and> h_live h' = h_live h - 1) \<and>
     (so_state output' \<noteq> so_state output \<and> 3 \<le> state_number (so_state output') \<longrightarrow> so_value output' = None)"
  by (rule apply_peer_status_worsens [unfolded worsened_def])

subsection \<open>Collected JSON\<close>

text \<open>Without formatting the nesting depth plays no role.\<close>

lemma children_depth:
  assumes "\<And>e a b. e \<in> set es \<Longrightarrow> render False a e = render False b e"
  shows "render_elements False d es = render_elements False d' es" "render_members False d es = render_members False d' es"
  using assms
proof (induction es)
  case (Cons e es)
  {
    case 1
    have e: "render False d e = render False d' e" by (rule 1) simp
    have es: "render_elements False d es = render_elements False d' es" by (rule Cons.IH(1), rule 1) simp
    show ?case by (simp only: render_elements.simps e es)
  next
    case 2
    have e: "render False d e = render False d' e" by (rule 2) simp
    have es: "render_members False d es = render_members False d' es" by (rule Cons.IH(2), rule 2) simp
    show ?case by (simp only: render_members.simps e es fmt_def if_False)
  }
qed simp_all

lemma render_depth: "render False d i = render False d' i"
proof (induction i arbitrary: d d')
  case (Item ty vs vi vd s children)
  have "render_elements False (d + 1) children = render_elements False (d' + 1) children"
    "render_members False (d + 1) children = render_members False (d' + 1) children"
    by (rule children_depth; rule Item.IH; assumption)+
  then show ?case by (simp only: render.simps fmt_def if_False)
qed

subsection \<open>Joining the intervals\<close>

fun join_texts :: "bytes list \<Rightarrow> bytes" where
  "join_texts [] = []"
| "join_texts (s # ss) = s @ (if ss = [] then [] else 44 # join_texts ss)"

lemma join_texts_snoc: "join_texts (ss @ [s]) = join_texts ss @ (if ss = [] then [] else [44]) @ s"
  by (induction ss) auto

lemma join_texts_render:
  "list_all2 (\<lambda>i s. render False 0 i = Some s) items ss \<Longrightarrow> render_elements False d items = Some (join_texts ss)"
proof (induction rule: list_all2_induct)
  case (Cons i items s ss)
  have "render False d i = Some s" using Cons(1) render_depth [of d i 0] by simp
  then show ?case using Cons by (cases ss) (auto simp: cat_def fmt_def)
qed simp

lemma join_texts_nz: "\<forall>s \<in> set ss. 0 \<notin> set s \<Longrightarrow> 0 \<notin> set (join_texts ss)"
  by (induction ss) auto

lemma render_members_last:
  assumes "c_string a = c_string b" "render f d a = render f d b"
  shows "render_members f d (xs @ [a]) = render_members f d (xs @ [b])"
  by (induction xs) (use assms in auto)

fun collect_intervals :: "cJSON list \<Rightarrow> budget_test \<Rightarrow> budget_test option" where
  "collect_intervals [] t = Some t"
| "collect_intervals (i # items) t =
     do { t \<leftarrow> iperf_output_collect_interval (Some i) t; collect_intervals items t }"

definition json_budget :: "budget_test \<Rightarrow> bool" where
  "json_budget t \<longleftrightarrow> server_output_byte_limit t \<le> IPERF_OUTPUT_MAX_BYTES \<and>
     (\<forall>m. output_scratch t = Some m \<longrightarrow> length m = server_output_byte_limit t + 5)"

definition collected_ok :: "cJSON list \<Rightarrow> nat \<Rightarrow> nat \<Rightarrow> iperf_server_output \<Rightarrow> bool" where
  "collected_ok items L n output \<longleftrightarrow>
     (case so_state output of
        IPERF_OUTPUT_MISSING \<Rightarrow> items = [] \<and> so_value output = None \<and> n = 0
      | IPERF_OUTPUT_COMPLETE \<Rightarrow>
          (\<exists>ss. list_all2 (\<lambda>i s. render False 0 i = Some s) items ss \<and>
             so_value output = Some (join_texts ss) \<and> length (join_texts ss) \<le> L - 2 \<and> n = length ss)
      | IPERF_OUTPUT_TRUNCATED \<Rightarrow> False
      | _ \<Rightarrow> so_value output = None)"

definition intervals_collected :: "cJSON list \<Rightarrow> budget_test \<Rightarrow> bool" where
  "intervals_collected items t \<longleftrightarrow>
     collected_ok items (server_output_byte_limit t) (output_json_intervals t) (collected_server_output t)"

text \<open>The fields that collecting leaves alone.\<close>

definition same_document :: "budget_test \<Rightarrow> budget_test \<Rightarrow> bool" where
  "same_document t t' \<longleftrightarrow> server_output_byte_limit t' = server_output_byte_limit t \<and> json_top t' = json_top t \<and>
     json_intervals t' = json_intervals t \<and> output_finalized t' = output_finalized t"

lemma same_document_trans: "same_document a b \<Longrightarrow> same_document b c \<Longrightarrow> same_document a c"
  by (simp add: same_document_def)

lemma discard_collected_ok:
  "json_budget t \<Longrightarrow> json_budget (discard_collected r t)" "intervals_collected items (discard_collected r t)"
  "same_document t (discard_collected r t)"
  by (simp_all add: discard_collected_def discard_def json_budget_def intervals_collected_def collected_ok_def same_document_def)

lemma print_scratch_ok:
  assumes "json_ok item" "output_scratch t = Some m" "json_budget t"
  shows "\<exists>s m'. print_scratch item t = Some (s, t\<lparr>output_scratch := Some m'\<rparr>) \<and> length m' = length m \<and>
     (\<forall>x. s = Some x \<longrightarrow> render False 0 item = Some x \<and> 0 \<notin> set x)"
proof -
  let ?n = "int (server_output_byte_limit t) + 5"
  have l: "length m = server_output_byte_limit t + 5" "server_output_byte_limit t \<le> 1048576"
    using assms(2,3) by (simp_all add: json_budget_def IPERF_OUTPUT_MAX_BYTES_def)
  have a: "0 \<le> ?n" "nat ?n \<le> length m" "?n < 2 ^ 31" using l by simp_all
  from print_preallocated_renders [OF assms(1) a, of False "bt_heap t"] obtain ok m' where
    p: "cJSON_PrintPreallocated item (Some m) ?n False (bt_heap t) = Some (ok, Some m')" "length m' = length m"
    "ok \<longrightarrow> (\<exists>s. render False 0 item = Some s \<and> take (length s + 1) m' = s @ [0])"
    by blast
  show ?thesis
  proof (cases ok)
    case False
    then show ?thesis using p(1,2) assms(2) by (auto simp: print_scratch_def)
  next
    case True
    then obtain s where s: "render False 0 item = Some s" "take (length s + 1) m' = s @ [0]" using p(3) by blast
    have nz: "0 \<notin> set s" by (rule render_nz [OF assms(1) s(1)])
    obtain r where r: "m' = (s @ [0]) @ r" by (metis append_take_drop_id s(2))
    have "takeWhile (\<lambda>c. c \<noteq> 0) m' = s" unfolding r using nz by (induction s) auto
    moreover have "0 \<in> set m'" by (simp add: r)
    ultimately show ?thesis using True p(1,2) assms(2) s(1) nz by (auto simp: print_scratch_def)
  qed
qed

lemma begin_collect_ok:
  assumes "json_budget t" "intervals_collected items t" "begin_collect IPERF_OUTPUT_JSON t = (ok, t')"
  shows "json_budget t'" "intervals_collected items t'" "same_document t t'"
    "ok \<longleftrightarrow> so_state (collected_server_output t') = IPERF_OUTPUT_COMPLETE"
    "output_json_values t' = output_json_values t" "so_state (collected_server_output t') \<noteq> IPERF_OUTPUT_MISSING"
  using assms
  by (auto simp: begin_collect_def Let_def json_budget_def intervals_collected_def collected_ok_def same_document_def
      discard_collected_def discard_def split: if_splits prod.splits)

lemma scratch_ok:
  assumes "json_budget t" "intervals_collected items t" "scratch t = (ok, t')"
  shows "json_budget t'" "intervals_collected items t'" "same_document t t'"
    "ok \<Longrightarrow> (\<exists>m. output_scratch t' = Some m) \<and> collected_server_output t' = collected_server_output t"
    "\<not> ok \<Longrightarrow> intervals_collected items' t'"
proof -
  obtain b h where a: "allocate (bt_heap t) = (b, h)" by fastforce
  consider (old) m where "output_scratch t = Some m" "ok" "t' = t"
    | (new) "ok" "output_scratch t = None" "t' = t\<lparr>output_scratch := Some (junk (bt_heap t) 0 (server_output_byte_limit t + 5)), bt_heap := h\<rparr>"
    | (failed) "\<not> ok" "t' = discard_collected IPERF_OUTPUT_ALLOCATION_FAILURE (t\<lparr>bt_heap := h\<rparr>)"
    using assms(3) a by (auto simp: scratch_def split: if_splits)
  then have "json_budget t' \<and> intervals_collected items t' \<and> same_document t t' \<and>
    (ok \<longrightarrow> (\<exists>m. output_scratch t' = Some m) \<and> collected_server_output t' = collected_server_output t) \<and>
    (\<not> ok \<longrightarrow> intervals_collected items' t')"
  proof cases
    case old
    then show ?thesis using assms by (simp add: same_document_def)
  next
    case new
    then show ?thesis using assms(1,2) by (simp add: json_budget_def intervals_collected_def same_document_def junk_def)
  next
    case failed
    have "json_budget (t\<lparr>bt_heap := h\<rparr>)" "same_document t (t\<lparr>bt_heap := h\<rparr>)"
      using assms(1) by (simp_all add: json_budget_def same_document_def)
    then show ?thesis using failed discard_collected_ok same_document_trans by metis
  qed
  then show "json_budget t'" "intervals_collected items t'" "same_document t t'"
    "ok \<Longrightarrow> (\<exists>m. output_scratch t' = Some m) \<and> collected_server_output t' = collected_server_output t"
    "\<not> ok \<Longrightarrow> intervals_collected items' t'" by blast+
qed

lemma json_budget_scratch:
  "json_budget t \<Longrightarrow> output_scratch t = Some m \<Longrightarrow> length m' = length m \<Longrightarrow> json_budget (t\<lparr>output_scratch := Some m'\<rparr>)"
  "intervals_collected items (t\<lparr>output_scratch := Some m'\<rparr>) = intervals_collected items t"
  "same_document t (t\<lparr>output_scratch := Some m'\<rparr>)"
  by (auto simp: json_budget_def intervals_collected_def same_document_def split: iperf_output_state.splits)

lemma collect_interval_ok:
  assumes "json_budget t" "intervals_collected items t" "\<not> output_finalized t" "json_ok i"
  shows "\<exists>t'. iperf_output_collect_interval (Some i) t = Some t' \<and> json_budget t' \<and>
     intervals_collected (items @ [i]) t' \<and> same_document t t'"
proof -
  obtain ok1 t1 where b: "begin_collect IPERF_OUTPUT_JSON t = (ok1, t1)" by fastforce
  note b1 = begin_collect_ok [OF assms(1,2) b]
  have bad: "intervals_collected (items @ [i]) t'" if "intervals_collected items t'"
    "so_state (collected_server_output t') \<noteq> IPERF_OUTPUT_COMPLETE" "so_state (collected_server_output t') \<noteq> IPERF_OUTPUT_MISSING" for t'
    using that by (auto simp: intervals_collected_def collected_ok_def split: iperf_output_state.splits)
  show ?thesis
  proof (cases ok1)
    case False
    then show ?thesis using assms(3) b b1 bad [OF b1(2)] by (auto simp: iperf_output_collect_interval_def)
  next
    case True
    obtain reason nodes where sh: "shape_of (Some i) 3 (output_json_values t1) = (reason, nodes)" by fastforce
    show ?thesis
    proof (cases reason)
      case (Some r)
      then show ?thesis
        using assms(3) b True sh discard_collected_ok [where t = t1 and r = r] b1 same_document_trans [OF b1(3)]
        by (auto simp: iperf_output_collect_interval_def)
    next
      case None
      obtain ok2 t2 where s: "scratch t1 = (ok2, t2)" by fastforce
      note s2 = scratch_ok [OF b1(1,2) s]
      have d2: "same_document t t2" by (rule same_document_trans [OF b1(3) s2(3)])
      show ?thesis
      proof (cases ok2)
        case False
        have "intervals_collected (items @ [i]) t2" by (rule s2(5) [OF False])
        then show ?thesis using assms(3) b True sh None s False s2 d2
          by (auto simp: iperf_output_collect_interval_def)
      next
        case ok2: True
        then obtain m where m: "output_scratch t2 = Some m" and c2: "collected_server_output t2 = collected_server_output t1"
          using s2(4) by blast
        from print_scratch_ok [OF assms(4) m s2(1)] obtain shown m' where
          p: "print_scratch i t2 = Some (shown, t2\<lparr>output_scratch := Some m'\<rparr>)" "length m' = length m"
          "\<forall>x. shown = Some x \<longrightarrow> render False 0 i = Some x \<and> 0 \<notin> set x" by blast
        define t3 where "t3 = t2\<lparr>output_scratch := Some m'\<rparr>"
        have t3: "json_budget t3" "intervals_collected items t3" "same_document t t3" "collected_server_output t3 = collected_server_output t1"
          "server_output_byte_limit t3 = server_output_byte_limit t2"
          using json_budget_scratch(1) [OF s2(1) m p(2)] json_budget_scratch(2,3) s2(2) d2 c2 same_document_trans
          by (auto simp: t3_def)
        from t3(2,4) True b1(4) obtain ss where
          ss: "list_all2 (\<lambda>i s. render False 0 i = Some s) items ss" "so_value (collected_server_output t3) = Some (join_texts ss)"
          "length (join_texts ss) \<le> server_output_byte_limit t3 - 2" "output_json_intervals t3 = length ss"
          "so_state (collected_server_output t3) = IPERF_OUTPUT_COMPLETE"
          by (auto simp: intervals_collected_def collected_ok_def)
        note dis = discard_collected_ok [where t = t3 and r = IPERF_OUTPUT_BYTE_LIMIT]
        note dd = same_document_trans [OF t3(3) dis(3)]
        let ?L = "server_output_byte_limit t3" and ?v = "join_texts ss"
        have run: "iperf_output_collect_interval (Some i) t =
           (case shown of
              None \<Rightarrow> Some (discard_collected IPERF_OUTPUT_BYTE_LIMIT t3)
            | Some x \<Rightarrow>
                let extra = (if length ss \<noteq> 0 then 1 else 0)
                in if ?L < 2 \<or> ?L - 2 < length ?v \<or> ?L - 2 - length ?v < length x + extra
                   then Some (discard_collected IPERF_OUTPUT_BYTE_LIMIT t3)
                   else do {
                     v \<leftarrow> (if extra = 1 then buf_put (?L + 1) ?v [44] else Some ?v);
                     _ \<leftarrow> buf_put (?L + 1) v (x @ [0]);
                     Some ((set_collected (\<lambda>w. w\<lparr>so_value := Some (v @ x)\<rparr>) t3)
                       \<lparr>output_json_values := nodes, output_json_intervals := length ss + 1\<rparr>) })"
          using assms(3) b True sh None s ok2 p(1) ss(2,4)
          by (auto simp: iperf_output_collect_interval_def t3_def Let_def split: option.splits)
        show ?thesis
        proof (cases shown)
          case None
          then show ?thesis using run dis t3(1) dd by auto
        next
          case (Some x)
          let ?extra = "if length ss \<noteq> 0 then 1 else 0 :: nat"
          show ?thesis
          proof (cases "?L < 2 \<or> ?L - 2 < length ?v \<or> ?L - 2 - length ?v < length x + ?extra")
            case True
            then have "iperf_output_collect_interval (Some i) t = Some (discard_collected IPERF_OUTPUT_BYTE_LIMIT t3)"
              using run Some by (auto simp: Let_def)
            then show ?thesis using dis t3(1) dd by auto
          next
            case fits: False
            let ?w = "join_texts (ss @ [x])"
            let ?t = "(set_collected (\<lambda>w. w\<lparr>so_value := Some ?w\<rparr>) t3)\<lparr>output_json_values := nodes, output_json_intervals := length ss + 1\<rparr>"
            have "iperf_output_collect_interval (Some i) t = Some ?t"
              using run Some fits by (auto simp: Let_def buf_put_def join_texts_snoc split: if_splits)
            moreover have "length ?w \<le> ?L - 2" using fits by (auto simp: join_texts_snoc split: if_splits)
            moreover have "list_all2 (\<lambda>i s. render False 0 i = Some s) (items @ [i]) (ss @ [x])"
              using ss(1) p(3) Some by (simp add: list_all2_appendI)
            ultimately show ?thesis using ss(5) t3(1,3)
              by (auto simp: intervals_collected_def collected_ok_def json_budget_def same_document_def)
          qed
        qed
      qed
    qed
  qed
qed

subsection \<open>The document\<close>

definition raw_member :: "bytes \<Rightarrow> cJSON" where
  "raw_member v = Item (cJSON_Raw OR cJSON_IsReference OR cJSON_StringIsConst) (Some v) 0 (Fin 0) (Some (lit ''intervals'')) []"

definition with_member :: "cJSON \<Rightarrow> nat \<Rightarrow> cJSON \<Rightarrow> cJSON" where
  "with_member d k i = set_child (remove_nth k (c_child d) @ [i]) d"

definition interval_array :: "cJSON list \<Rightarrow> cJSON" where
  "interval_array items = Item cJSON_Array None 0 (Fin 0) (Some (lit ''intervals'')) items"

lemma json_ok_with_member:
  "json_ok d \<Longrightarrow> json_ok i \<Longrightarrow> json_ok (with_member d k i)"
  by (cases d) (auto simp: with_member_def remove_nth_def number_ok_def dest: in_set_takeD in_set_dropD)

lemma json_ok_raw_member: "0 \<notin> set v \<Longrightarrow> json_ok (raw_member v)"
  by (simp add: raw_member_def cstring_ok_def number_ok_def lit_def double_range_def)

lemma render_with_member:
  assumes "c_string a = c_string b" "\<And>n. render False n a = render False n b"
    and "c_type d AND 255 = cJSON_Object"
  shows "render False 0 (with_member d k a) = render False 0 (with_member d k b)"
  using assms(3) render_members_last [where xs = "remove_nth k (c_child d)", OF assms(1) assms(2) [of 1]]
  by (cases d) (simp add: with_member_def Let_def cJSON_Object_def cJSON_NULL_def cJSON_False_def cJSON_True_def
      cJSON_Number_def cJSON_Raw_def cJSON_String_def cJSON_Array_def)


lemma raw_reference_cases:
  assumes "raw_reference (Some v) h = (raw, h')"
  shows "raw = None \<or> raw = Some (Item (cJSON_Raw OR cJSON_IsReference) (Some v) 0 (Fin 0) None [])"
  using assms by (auto simp: raw_reference_def cJSON_CreateStringReference_def cJSON_New_Item_def new_item_def Let_def split: if_splits prod.splits)

lemma print_document_ok:
  assumes "json_top t = Some d" "json_intervals t = Some k" "json_ok d" "json_budget t" "output_scratch t = Some m" "0 \<notin> set v"
  shows "\<exists>r t'. print_document (Item (cJSON_Raw OR cJSON_IsReference) (Some v) 0 (Fin 0) None []) t = Some (r, t') \<and>
     collected_server_output t' = collected_server_output t \<and> server_output_byte_limit t' = server_output_byte_limit t \<and>
     (\<forall>s. r = Inr s \<longrightarrow> length s \<le> server_output_byte_limit t \<and> render False 0 (with_member d k (raw_member v)) = Some s)"
proof -
  let ?raw = "Item (cJSON_Raw OR cJSON_IsReference) (Some v) 0 (Fin 0) None []"
  let ?d = "with_member d k (raw_member v)"
  have add: "cJSON_AddItemToObjectCS (Some (set_child (remove_nth k (c_child d)) d)) (Some (lit ''intervals'')) (Some ?raw) (bt_heap t) =
      (True, Some ?d, bt_heap t)"
    by (cases d) (simp add: cJSON_AddItemToObjectCS_def add_item_to_object_def add_item_to_array_def with_member_def raw_member_def or.assoc)
  obtain reason nodes where sh: "shape_of (Some ?d) 1 (output_json_values t) = (reason, nodes)" by fastforce
  define t1 where "t1 = t\<lparr>bt_heap := bt_heap t\<rparr>"
  have t1: "json_budget t1" "output_scratch t1 = Some m" using assms(4,5) by (simp_all add: t1_def)
  from print_scratch_ok [OF json_ok_with_member [OF assms(3) json_ok_raw_member [OF assms(6)]] t1(2,1), of k]
  obtain x m' where p: "print_scratch ?d t1 = Some (x, t1\<lparr>output_scratch := Some m'\<rparr>)"
    "\<forall>y. x = Some y \<longrightarrow> render False 0 ?d = Some y \<and> 0 \<notin> set y" by blast
  show ?thesis
    using assms(1,2) p sh add unfolding print_document_def
    by (auto simp: cJSON_DetachItemViaPointer_def t1_def Let_def split: option.splits prod.splits if_splits)
qed

definition document_collected :: "nat \<Rightarrow> cJSON \<Rightarrow> iperf_server_output \<Rightarrow> bool" where
  "document_collected L d output \<longleftrightarrow>
     (if so_state output = IPERF_OUTPUT_COMPLETE
      then \<exists>s. so_value output = Some s \<and> render False 0 d = Some s \<and> length s \<le> L \<and> utf8_text s \<and>
             so_observed_bytes output = length s
      else so_value output = None)"

lemma discard_document: "document_collected L d (collected_server_output (discard_collected r t))"
  by (simp add: document_collected_def discard_collected_def discard_def)

lemma render_interval_array:
  assumes "list_all2 (\<lambda>i s. render False 0 i = Some s) items ss"
  shows "render False n (interval_array items) = render False n (raw_member ([91] @ join_texts ss @ [93]))"
  using join_texts_render [OF assms, of "n + 1"]
  by (simp add: interval_array_def raw_member_def cat_def Let_def cJSON_Object_def cJSON_NULL_def cJSON_False_def
      cJSON_True_def cJSON_Number_def cJSON_Raw_def cJSON_String_def cJSON_Array_def cJSON_IsReference_def cJSON_StringIsConst_def)

lemma rendered_nz:
  assumes "list_all2 (\<lambda>i s. render False 0 i = Some s) items ss" "\<forall>i \<in> set items. json_ok i"
  shows "0 \<notin> set ([91] @ join_texts ss @ [93])"
proof -
  have "\<forall>s \<in> set ss. 0 \<notin> set s"
    using assms render_nz by (auto simp: list_all2_conv_all_nth in_set_conv_nth) (metis nth_mem)
  then show ?thesis using join_texts_nz by simp
qed

lemma utf8_prefix_text: "fst (utf8_prefix s False 0) \<Longrightarrow> utf8_text s"
  using utf8_prefix_sound [of s False 0] by (auto simp: valid_part_def)

lemma finalize_document:
  assumes t: "json_budget t" "output_scratch t = Some m" "json_top t = Some d" "json_intervals t = Some k" "json_ok d"
      "c_type d AND 255 = cJSON_Object" "2 \<le> server_output_byte_limit t"
    and ss: "list_all2 (\<lambda>i s. render False 0 i = Some s) items ss" "\<forall>i \<in> set items. json_ok i"
      "length (join_texts ss) \<le> server_output_byte_limit t - 2"
    and raw: "raw = Item (cJSON_Raw OR cJSON_IsReference) (Some v) 0 (Fin 0) None []" "v = [91] @ join_texts ss @ [93]"
  shows "\<exists>t'. do { (result, t) \<leftarrow> print_document raw t;
      case result of
        Inl reason \<Rightarrow> Some (discard_collected reason t)
      | Inr text \<Rightarrow>
          if \<not> fst (utf8_prefix text False 0) then Some (discard_collected IPERF_OUTPUT_INVALID_DATA t)
          else do {
            _ \<leftarrow> buf_put (server_output_byte_limit t + 1) [] (text @ [0]);
            Some (set_collected (\<lambda>w. w\<lparr>so_value := Some text, so_observed_bytes := length text,
              so_observed_bytes_complete := True\<rparr>) t) } } = Some t' \<and>
      (so_state (collected_server_output t) = IPERF_OUTPUT_COMPLETE \<longrightarrow>
       document_collected (server_output_byte_limit t) (with_member d k (interval_array items)) (collected_server_output t'))"
proof -
  have "0 \<notin> set v" unfolding raw(2) by (rule rendered_nz [OF ss(1,2)])
  from print_document_ok [OF t(3,4,5,1,2) this] obtain r t' where
    p: "print_document raw t = Some (r, t')" "collected_server_output t' = collected_server_output t"
    "server_output_byte_limit t' = server_output_byte_limit t"
    "\<forall>s. r = Inr s \<longrightarrow> length s \<le> server_output_byte_limit t \<and> render False 0 (with_member d k (raw_member v)) = Some s"
    unfolding raw(1) by blast
  have "render False 0 (with_member d k (interval_array items)) = render False 0 (with_member d k (raw_member v))"
    by (rule render_with_member [OF _ _ t(6)]) (simp_all add: render_interval_array [OF ss(1)] raw(2), simp add: interval_array_def raw_member_def)
  then show ?thesis
    using p
    by (cases r) (auto simp: buf_put_def document_collected_def discard_collected_def discard_def dest: utf8_prefix_text)
qed

lemma finalize_ok:
  assumes t: "json_budget t" "intervals_collected items t" "json_top t = Some d" "json_intervals t = Some k" "json_ok d"
      "c_type d AND 255 = cJSON_Object" "\<forall>i \<in> set items. json_ok i"
  shows "\<exists>t'. finalize_json t = Some t' \<and>
    document_collected (server_output_byte_limit t) (with_member d k (interval_array items)) (collected_server_output t')"
proof -
  have closed: "document_collected L d (collected_server_output t)"
    if "intervals_collected items t" "so_state (collected_server_output t) \<noteq> IPERF_OUTPUT_COMPLETE" for L d t
    using that by (auto simp: intervals_collected_def collected_ok_def document_collected_def split: iperf_output_state.splits)
  obtain ok1 t1 where b: "begin_collect IPERF_OUTPUT_JSON t = (ok1, t1)" by fastforce
  note b1 = begin_collect_ok [OF t(1,2) b]
  obtain ok2 t2 where s: "scratch t1 = (ok2, t2)" by fastforce
  note s2 = scratch_ok [OF b1(1,2) s]
  note d2 = same_document_trans [OF b1(3) s2(3), unfolded same_document_def]
  consider (refused) "\<not> ok1" | (scratch) "ok1" "\<not> ok2" | (small) "ok1" "ok2" "server_output_byte_limit t < 2"
    | (prints) "ok1" "ok2" "2 \<le> server_output_byte_limit t" by linarith
  then show ?thesis
  proof cases
    case refused
    then show ?thesis using b closed [OF b1(2)] b1(4) by (simp add: finalize_json_def)
  next
    case scratch
    then have "so_state (collected_server_output t2) \<noteq> IPERF_OUTPUT_COMPLETE"
      using s by (auto simp: scratch_def discard_collected_def discard_def split: option.splits prod.splits if_splits)
    then show ?thesis using b s scratch closed [OF s2(2)] by (simp add: finalize_json_def)
  next
    case small
    then show ?thesis using b s t(3,4) d2 discard_document by (simp add: finalize_json_def)
  next
    case prints
    then obtain m where m: "output_scratch t2 = Some m" and c: "collected_server_output t2 = collected_server_output t1"
      using s2(4) by blast
    then have complete: "so_state (collected_server_output t2) = IPERF_OUTPUT_COMPLETE" using b1(4) prints by simp
    then obtain ss where ss: "list_all2 (\<lambda>i s. render False 0 i = Some s) items ss"
      "so_value (collected_server_output t2) = Some (join_texts ss)" "length (join_texts ss) \<le> server_output_byte_limit t - 2"
      using s2(2) d2 by (auto simp: intervals_collected_def collected_ok_def)
    define v where "v = [91] @ join_texts ss @ [93]"
    obtain raw h where raw: "raw_reference (Some v) (bt_heap t2) = (raw, h)" by fastforce
    define t3 where "t3 = (set_collected (\<lambda>w. w\<lparr>so_value := Some v\<rparr>) t2)\<lparr>bt_heap := h\<rparr>"
    have t3: "json_budget t3" "output_scratch t3 = Some m" "json_top t3 = Some d" "json_intervals t3 = Some k"
      "server_output_byte_limit t3 = server_output_byte_limit t" "so_state (collected_server_output t3) = IPERF_OUTPUT_COMPLETE"
      using s2(1) m t(3,4) d2 complete by (simp_all add: t3_def json_budget_def)
    let ?rest = "\<lambda>raw. do { (result, t) \<leftarrow> print_document raw t3;
      case result of
        Inl reason \<Rightarrow> Some (discard_collected reason t)
      | Inr text \<Rightarrow>
          if \<not> fst (utf8_prefix text False 0) then Some (discard_collected IPERF_OUTPUT_INVALID_DATA t)
          else do {
            _ \<leftarrow> buf_put (server_output_byte_limit t + 1) [] (text @ [0]);
            Some (set_collected (\<lambda>w. w\<lparr>so_value := Some text, so_observed_bytes := length text,
              so_observed_bytes_complete := True\<rparr>) t) } }"
    have run: "finalize_json t =
       (case raw of None \<Rightarrow> Some (discard_collected IPERF_OUTPUT_ALLOCATION_FAILURE t3) | Some raw \<Rightarrow> ?rest raw)"
    proof -
      have "buf_put (server_output_byte_limit t2 + 1) [] ([91] @ join_texts ss @ [93, 0]) = Some ([91] @ join_texts ss @ [93, 0])"
        using ss(3) prints(3) d2 by (simp add: buf_put_def)
      then show ?thesis
        using b s prints ss(2) t(3,4) d2 raw
        unfolding t3_def v_def by (simp add: finalize_json_def Let_def del: append.simps)
    qed
    from raw_reference_cases [OF raw] show ?thesis
    proof
      assume "raw = None"
      then show ?thesis using run discard_document by simp
    next
      assume r: "raw = Some (Item (cJSON_Raw OR cJSON_IsReference) (Some v) 0 (Fin 0) None [])"
      from finalize_document [OF t3(1-4) t(5,6) _ ss(1) t(7) _ refl v_def] ss(3) prints(3) t3(5,6)
      show ?thesis unfolding run r option.case by simp
    qed
  qed
qed


lemma collect_intervals_ok:
  assumes "json_budget t" "intervals_collected past t" "\<not> output_finalized t" "\<forall>i \<in> set items. json_ok i"
  shows "\<exists>t'. collect_intervals items t = Some t' \<and> json_budget t' \<and> intervals_collected (past @ items) t' \<and> same_document t t'"
  using assms
proof (induction items arbitrary: t past)
  case (Cons i items)
  obtain t1 where t1: "iperf_output_collect_interval (Some i) t = Some t1" "json_budget t1"
    "intervals_collected (past @ [i]) t1" "same_document t t1"
    using collect_interval_ok [OF Cons.prems(1-3), of i] Cons.prems(4) by auto
  have f: "\<not> output_finalized t1" using t1(4) Cons.prems(3) by (simp add: same_document_def)
  from Cons.IH [OF t1(2,3) f] Cons.prems(4) t1(1,4) show ?case by (auto intro: same_document_trans)
qed (simp add: same_document_def)

text \<open>
  C23. Collecting JSON intervals under a byte limit and then finalising the document, for any
  list of interval objects and for any sequence of allocation failures: both return without an
  invalid memory access, and the result is all or nothing. Either the state is complete and
  the value is valid UTF-8 within the limit that is exactly the unformatted rendering of the
  document whose \<open>intervals\<close> member is the array of all the collected intervals, in order (the
  code splices preprinted text instead of building that array), with its length as the observed
  byte count; or nothing is retained.
\<close>

theorem json_collected_all_or_nothing:
  assumes "server_output_byte_limit t \<le> IPERF_OUTPUT_MAX_BYTES" "collected_server_output t = zero_output"
    and "output_scratch t = None" "output_json_intervals t = 0" "\<not> output_finalized t"
    and "json_top t = Some d" "json_intervals t = Some k" "json_ok d" "c_type d AND 255 = cJSON_Object"
    and "\<forall>i \<in> set items. json_ok i"
  shows "\<exists>t1 t2. collect_intervals items t = Some t1 \<and> finalize_json t1 = Some t2 \<and>
     (if so_state (collected_server_output t2) = IPERF_OUTPUT_COMPLETE
      then \<exists>s. so_value (collected_server_output t2) = Some s \<and>
             render False 0 (with_member d k (interval_array items)) = Some s \<and>
             length s \<le> server_output_byte_limit t \<and> utf8_text s \<and>
             so_observed_bytes (collected_server_output t2) = length s
      else so_value (collected_server_output t2) = None)"
proof -
  have "json_budget t" "intervals_collected [] t"
    using assms(1-4) by (simp_all add: json_budget_def intervals_collected_def collected_ok_def zero_output_def)
  from collect_intervals_ok [OF this assms(5,10)] obtain t1 where
    t1: "collect_intervals items t = Some t1" "json_budget t1" "intervals_collected items t1" "same_document t t1" by auto
  then have "json_top t1 = Some d" "json_intervals t1 = Some k" "server_output_byte_limit t1 = server_output_byte_limit t"
    using assms(6,7) by (simp_all add: same_document_def)
  with finalize_ok [OF t1(2,3) _ _ assms(8,9,10), of k] t1(1) show ?thesis
    by (simp add: document_collected_def)
qed


definition sample_document :: cJSON where
  "sample_document = Item cJSON_Object None 0 (Fin 0) None
     [Item cJSON_Array None 0 (Fin 0) (Some (lit ''intervals'')) [], Item cJSON_True None 0 (Fin 0) (Some (lit ''end'')) []]"

theorem json_collected_all_or_nothing_witness:
  "\<exists>t1 t2. collect_intervals [Item cJSON_NULL None 0 (Fin 0) None []] ((sample_test 64)\<lparr>json_top := Some sample_document, json_intervals := Some 0\<rparr>) = Some t1 \<and>
     finalize_json t1 = Some t2 \<and>
     (so_state (collected_server_output t2) = IPERF_OUTPUT_COMPLETE \<longrightarrow>
      so_value (collected_server_output t2) = Some (lit ''{\"end\":true,\"intervals\":[null]}''))"
proof -
  have r: "render False 0 (with_member sample_document 0 (interval_array [Item cJSON_NULL None 0 (Fin 0) None []])) =
      Some (lit ''{\"end\":true,\"intervals\":[null]}'')"
    by code_simp
  have ok: "json_ok sample_document" "json_ok (Item cJSON_NULL None 0 (Fin 0) None [])"
    by (simp_all add: sample_document_def cstring_ok_def number_ok_def lit_def double_range_def)
  show ?thesis
    using json_collected_all_or_nothing [of "(sample_test 64)\<lparr>json_top := Some sample_document, json_intervals := Some 0\<rparr>"
        sample_document 0 "[Item cJSON_NULL None 0 (Fin 0) None []]"] r ok
    by (auto simp: sample_test_def IPERF_OUTPUT_MAX_BYTES_def sample_document_def cJSON_Object_def)
qed

definition sample_status :: cJSON where
  "sample_status = Item cJSON_Object None 0 (Fin 0) None
     [Item cJSON_Object None 0 (Fin 0) (Some STATUS_KEY)
       (map (\<lambda>(k, n). Item cJSON_Number None n (Fin (of_int n)) (Some (lit k)) [])
         [(''version'', 1), (''state'', 3), (''format'', 1), (''reason'', 1)])]"

definition sample_heap :: heap where
  "sample_heap = \<lparr>h_ok = \<lambda>_. True, h_fill = \<lambda>_ _. 0, h_calls = 0, h_live = 1, h_realloc = True\<rparr>"

theorem peer_status_only_worsens_witness:
  "let output = zero_output\<lparr>so_value := Some [65], so_state := IPERF_OUTPUT_COMPLETE, so_format := IPERF_OUTPUT_TEXT\<rparr>;
       (output', h') = iperf_output_apply_peer_status (Some sample_status) (output, sample_heap)
   in so_state output' = IPERF_OUTPUT_DISCARDED \<and> so_value output' = None \<and> h_live h' = 0"
proof -
  let ?o = "zero_output\<lparr>so_value := Some [65], so_state := IPERF_OUTPUT_COMPLETE, so_format := IPERF_OUTPUT_TEXT\<rparr>"
  have n: "of_int64 3 = Fin 3" "of_int64 1 = Fin 1" using round64_int [of 3] round64_int [of 1] by (simp_all add: of_int64_def)
  have "so_state (fst (iperf_output_apply_peer_status (Some sample_status) (?o, sample_heap))) = IPERF_OUTPUT_DISCARDED"
    by (simp add: iperf_output_apply_peer_status_def sample_status_def cJSON_GetObjectItemCaseSensitive_def get_object_item_def
        Let_def lit_def STATUS_KEY_def nth_child_def status_well_formed_def status_consistent_def is_integer_def has_kind_def cJSON_IsObject_def
        cJSON_IsNumber_def cJSON_Object_def cJSON_Number_def format_number_def status_keys_def discard_def number_reason_def number_state_def observed_count_def zero_output_def deq_def n)
  then show ?thesis
    using peer_status_only_worsens [of "Some sample_status" ?o sample_heap]
    by (auto simp: Let_def state_number_def sample_heap_def split: prod.splits)
qed

end
