(* ===== verification/Net.thy ===== *)
theory Net
  imports Iperf_Time
begin

text \<open>
  Sockets (\<open>net.c\<close>): reading and writing a given number of bytes with the error codes of
  \<open>net.h\<close>, file transmission, and opening, connecting and announcing sockets. The operating
  system is a record of the answers to the successive calls, counted by \<open>n_tick\<close>, with the
  bytes (or datagrams) that are there to be read and the bytes handed over as its state. Byte
  counts are below \<open>INT_MAX\<close>, as everywhere in the callers.
\<close>

abbreviation ENOBUFS :: errno where "ENOBUFS \<equiv> EOTHER 105"
abbreviation EINPROGRESS :: errno where "EINPROGRESS \<equiv> EOTHER 115"
abbreviation EOPNOTSUPP :: errno where "EOPNOTSUPP \<equiv> EOTHER 95"   \<comment> \<open>\<open>ENOTSUP\<close> too\<close>
abbreviation EAFNOSUPPORT :: errno where "EAFNOSUPPORT \<equiv> EOTHER 97"

definition NET_SOFTERROR :: int where "NET_SOFTERROR = - 1"
definition NET_HARDERROR :: int where "NET_HARDERROR = - 2"

lemmas net_errors = NET_SOFTERROR_def NET_HARDERROR_def

subsection \<open>The operating system\<close>

datatype sock_in = Stream bytes | Dgrams "bytes list"

record net_os =
  n_tick :: nat
  n_in :: sock_in
  n_recv :: "nat \<Rightarrow> errno + nat"      \<comment> \<open>an error, or how many bytes of a stream are there\<close>
  n_select :: "nat \<Rightarrow> errno + nat"
  n_left :: "nat \<Rightarrow> nat"              \<comment> \<open>what \<open>select\<close> leaves of the timeout, in seconds\<close>
  n_clock :: "nat \<Rightarrow> timespec option"
  n_write :: "nat \<Rightarrow> errno + nat"
  n_out :: bytes
  n_waits :: "nat list"

definition ticked :: "net_os \<Rightarrow> net_os" where
  "ticked os = os\<lparr>n_tick := n_tick os + 1\<rparr>"

text \<open>
  \<open>read\<close>, and \<open>recv\<close> with \<open>MSG_TRUNC\<close>: the bytes copied to the buffer and the number returned.
  On a stream \<open>MSG_TRUNC\<close> discards the bytes; on a datagram socket it returns the full length of
  the datagram, of which only the first \<open>n\<close> bytes are copied.
\<close>

definition sock_read :: "bool \<Rightarrow> nat \<Rightarrow> net_os \<Rightarrow> (errno + bytes \<times> nat) \<times> net_os" where
  "sock_read trunc n os =
     (let os' = ticked os in
      case n_recv os (n_tick os) of
        Inl e \<Rightarrow> (Inl e, os')
      | Inr k \<Rightarrow>
          (case n_in os of
             Stream s \<Rightarrow> let c = min n (max 1 k); d = take c s
                         in (Inr (if trunc then [] else d, length d), os'\<lparr>n_in := Stream (drop c s)\<rparr>)
           | Dgrams [] \<Rightarrow> (Inl EAGAIN, os')
           | Dgrams (d # ds) \<Rightarrow>
               (Inr (take n d, if trunc then length d else min n (length d)), os'\<lparr>n_in := Dgrams ds\<rparr>)))"

definition sock_write :: "bytes \<Rightarrow> net_os \<Rightarrow> (errno + nat) \<times> net_os" where
  "sock_write bs os =
     (let os' = ticked os in
      case n_write os (n_tick os) of
        Inl e \<Rightarrow> (Inl e, os')
      | Inr k \<Rightarrow> (Inr (min k (length bs)), os'\<lparr>n_out := n_out os @ take k bs\<rparr>))"

text \<open>\<open>select\<close> on the one descriptor; the timeout it leaves behind is not longer than before.\<close>

definition sock_select :: "nat \<Rightarrow> net_os \<Rightarrow> (errno + nat) \<times> nat \<times> net_os" where
  "sock_select timeout os =
     (n_select os (n_tick os), min timeout (n_left os (n_tick os)),
      (ticked os)\<lparr>n_waits := n_waits os @ [timeout]\<rparr>)"

definition net_time_now :: "iperf_time \<Rightarrow> net_os \<Rightarrow> iperf_time \<times> net_os" where
  "net_time_now now os = (snd (clock_gettime_helper (n_clock os (n_tick os)) now), ticked os)"

text \<open>Storing bytes into the caller's buffer; \<open>None\<close> outside of it.\<close>

definition store_at :: "nat \<Rightarrow> bytes \<Rightarrow> bytes \<Rightarrow> bytes option" where
  "store_at i d buf = (if i + length d \<le> length buf then Some (take i buf @ d @ drop (i + length d) buf) else None)"

subsection \<open>Reading\<close>

definition retry_errno :: "errno \<Rightarrow> bool" where
  "retry_errno e \<longleftrightarrow> e = EINTR \<or> e = EAGAIN"

function recv_loop :: "bool \<Rightarrow> nat \<Rightarrow> nat \<Rightarrow> bytes \<Rightarrow> net_os \<Rightarrow> (int \<times> bytes \<times> net_os) option" where
  "recv_loop trunc count nleft buf os =
     (if nleft = 0 then Some (int count, buf, os)
      else case sock_read trunc nleft os of
        (Inl e, os) \<Rightarrow> Some (if retry_errno e then int (count - nleft) else NET_HARDERROR, buf, os)
      | (Inr (d, r), os) \<Rightarrow>
          if r = 0 then Some (int (count - nleft), buf, os)
          else do { buf \<leftarrow> store_at (count - nleft) d buf;
                    recv_loop trunc count (nleft - min r nleft) buf os })"
  by pat_completeness auto
termination by (relation "measure (\<lambda>(_, _, nleft, _). nleft)") auto

declare recv_loop.simps [simp del]

definition Nrecv_no_select :: "bytes \<Rightarrow> nat \<Rightarrow> bool \<Rightarrow> net_os \<Rightarrow> (int \<times> bytes \<times> net_os) option" where
  "Nrecv_no_select buf count trunc os = recv_loop trunc count count buf os"

definition Nread_no_select :: "bytes \<Rightarrow> nat \<Rightarrow> net_os \<Rightarrow> (int \<times> bytes \<times> net_os) option" where
  "Nread_no_select buf count os = Nrecv_no_select buf count False os"

definition nread_read_timeout :: nat where "nread_read_timeout = 10"
definition nread_overall_timeout :: nat where "nread_overall_timeout = 30"

text \<open>\<open>ftimeout\<close> is set on the first partial read; a clock in its second 0 counts as not set.\<close>

definition overall_timeout :: "iperf_time \<Rightarrow> iperf_time \<Rightarrow> iperf_time" where
  "overall_timeout ftimeout now =
     (if secs ftimeout = 0 then iperf_time_add_usecs now (of_nat (nread_overall_timeout * 1000000)) else ftimeout)"

function select_loop ::
  "bool \<Rightarrow> nat \<Rightarrow> nat \<Rightarrow> nat \<Rightarrow> iperf_time \<Rightarrow> iperf_time \<Rightarrow> bytes \<Rightarrow> net_os \<Rightarrow> (int \<times> bytes \<times> net_os) option" where
  "select_loop trunc count nleft timeout ftimeout now buf os =
     (if nleft = 0 then Some (int count, buf, os)
      else case sock_read trunc nleft os of
        (Inl e, os) \<Rightarrow> Some (if retry_errno e then int (count - nleft) else NET_HARDERROR, buf, os)
      | (Inr (d, r), os) \<Rightarrow>
          if r = 0 then Some (int (count - nleft), buf, os)
          else do { buf \<leftarrow> store_at (count - nleft) d buf;
                    let nleft = nleft - min r nleft;
                    if nleft = 0 then Some (int count, buf, os)
                    else let (now, os) = net_time_now now os; ftimeout = overall_timeout ftimeout now
                      in if iperf_time_compare ftimeout now < 0 then Some (int (count - nleft), buf, os)
                         else case sock_select timeout os of
                           (Inl _, _, os) \<Rightarrow> Some (NET_HARDERROR, buf, os)
                         | (Inr 0, _, os) \<Rightarrow> Some (int (count - nleft), buf, os)
                         | (Inr _, timeout, os) \<Rightarrow> select_loop trunc count nleft timeout ftimeout now buf os })"
  by pat_completeness auto
termination by (relation "measure (\<lambda>(_, _, nleft, _). nleft)") auto

declare select_loop.simps [simp del]

text \<open>The local \<open>now\<close> of each round is not initialised: its first value is an argument.\<close>

definition Nrecv :: "iperf_time \<Rightarrow> bytes \<Rightarrow> nat \<Rightarrow> bool \<Rightarrow> net_os \<Rightarrow> (int \<times> bytes \<times> net_os) option" where
  "Nrecv now buf count trunc os =
     (case sock_select nread_read_timeout os of
        (Inl _, _, os) \<Rightarrow> Some (NET_HARDERROR, buf, os)
      | (Inr 0, _, os) \<Rightarrow> Some (0, buf, os)
      | (Inr _, timeout, os) \<Rightarrow> select_loop trunc count count timeout \<lparr>secs = 0, usecs = 0\<rparr> now buf os)"

definition Nread :: "iperf_time \<Rightarrow> bytes \<Rightarrow> nat \<Rightarrow> net_os \<Rightarrow> (int \<times> bytes \<times> net_os) option" where
  "Nread now buf count os = Nrecv now buf count False os"

definition Nread_gro :: "bytes \<Rightarrow> nat \<Rightarrow> net_os \<Rightarrow> (int \<times> bytes \<times> net_os) option" where
  "Nread_gro buf count os = Some (NET_HARDERROR, buf, os)"

subsection \<open>Writing\<close>

function write_loop :: "nat \<Rightarrow> bytes \<Rightarrow> net_os \<Rightarrow> int \<times> net_os" where
  "write_loop count bs os =
     (if bs = [] then (int count, os)
      else case sock_write bs os of
        (Inl e, os) \<Rightarrow>
          (if retry_errno e then if length bs = count then NET_SOFTERROR else int (count - length bs)
           else if e = ENOBUFS then NET_SOFTERROR
           else NET_HARDERROR, os)
      | (Inr r, os) \<Rightarrow> if r = 0 then (NET_SOFTERROR, os) else write_loop count (drop r bs) os)"
  by pat_completeness auto
termination by (relation "measure (\<lambda>(_, bs, _). length bs)") auto

declare write_loop.simps [simp del]

definition Nwrite :: "bytes \<Rightarrow> net_os \<Rightarrow> int \<times> net_os" where
  "Nwrite bs os = write_loop (length bs) bs os"

definition Nwrite_gso :: "bytes \<Rightarrow> net_os \<Rightarrow> int \<times> net_os" where
  "Nwrite_gso bs os = (NET_HARDERROR, os)"

text \<open>
  \<open>sendfile\<close> from the offset \<open>count - nleft\<close> of the file, as on Linux: the answers are those of
  \<open>n_write\<close>, and it sends what the file has there.
\<close>

function sendfile_loop :: "bytes \<Rightarrow> nat \<Rightarrow> nat \<Rightarrow> net_os \<Rightarrow> int \<times> net_os" where
  "sendfile_loop file count nleft os =
     (if nleft = 0 then (int count, os)
      else case sock_write (take nleft (drop (count - nleft) file)) os of
        (Inl e, os) \<Rightarrow>
          (if retry_errno e then if nleft = count then NET_SOFTERROR else int (count - nleft)
           else if e = ENOBUFS \<or> e = ENOMEM then NET_SOFTERROR
           else NET_HARDERROR, os)
      | (Inr r, os) \<Rightarrow> if r = 0 then (NET_SOFTERROR, os) else sendfile_loop file count (nleft - r) os)"
  by pat_completeness auto
termination by (relation "measure (\<lambda>(_, _, nleft, _). nleft)") auto

declare sendfile_loop.simps [simp del]

definition has_sendfile :: bool where "has_sendfile = True"

definition Nsendfile :: "bytes \<Rightarrow> nat \<Rightarrow> net_os \<Rightarrow> int \<times> net_os" where
  "Nsendfile file count os = sendfile_loop file count count os"

subsection \<open>Opening sockets\<close>

text \<open>
  Descriptors and the results of \<open>getaddrinfo\<close> are resources of the record \<open>sys\<close>: releasing one
  that is not held, or passing \<open>NULL\<close> to \<open>freeaddrinfo\<close>, is \<open>None\<close>. All other calls answer from
  \<open>s_ans\<close>, an errno or a number.
\<close>

record sys =
  s_tick :: nat
  s_ans :: "nat \<Rightarrow> errno + nat"
  s_fresh :: nat
  s_fds :: "nat list"
  s_infos :: "nat list"
  s_flags :: "nat \<Rightarrow> int"
  s_errno :: "errno option"
  s_ierr :: int
  s_gerror :: bool

definition AF_UNSPEC :: nat where "AF_UNSPEC = 0"
definition AF_INET :: nat where "AF_INET = 2"
definition AF_INET6 :: nat where "AF_INET6 = 10"
definition O_NONBLOCK :: int where "O_NONBLOCK = 2048"
definition IEBINDDEV :: int where "IEBINDDEV = 143"
definition IEBINDDEVNOSUPPORT :: int where "IEBINDDEVNOSUPPORT = 146"

definition syscall :: "sys \<Rightarrow> (errno + nat) \<times> sys" where
  "syscall s =
     (let a = s_ans s (s_tick s); s = s\<lparr>s_tick := s_tick s + 1\<rparr>
      in (a, case a of Inl e \<Rightarrow> s\<lparr>s_errno := Some e\<rparr> | Inr _ \<Rightarrow> s))"

definition succeeds :: "sys \<Rightarrow> bool \<times> sys" where
  "succeeds s = (case syscall s of (Inl _, s) \<Rightarrow> (False, s) | (Inr _, s) \<Rightarrow> (True, s))"

text \<open>A handle and the address family, which is the hint unless the hint leaves it open.\<close>

definition getaddrinfo :: "nat \<Rightarrow> sys \<Rightarrow> (nat \<times> nat) option \<times> sys" where
  "getaddrinfo hint s =
     (case syscall s of
        (Inl _, s) \<Rightarrow> (None, s\<lparr>s_gerror := True\<rparr>)
      | (Inr f, s) \<Rightarrow>
          (Some (s_fresh s, if hint = AF_UNSPEC then f else hint),
           s\<lparr>s_gerror := False, s_infos := s_fresh s # s_infos s, s_fresh := s_fresh s + 1\<rparr>))"

definition freeaddrinfo :: "nat option \<Rightarrow> sys \<Rightarrow> sys option" where
  "freeaddrinfo res s =
     (case res of None \<Rightarrow> None
      | Some i \<Rightarrow> if i \<in> set (s_infos s) then Some (s\<lparr>s_infos := remove1 i (s_infos s)\<rparr>) else None)"

definition socket_new :: "sys \<Rightarrow> nat option \<times> sys" where
  "socket_new s =
     (case syscall s of
        (Inl _, s) \<Rightarrow> (None, s)
      | (Inr _, s) \<Rightarrow> (Some (s_fresh s), s\<lparr>s_fds := s_fresh s # s_fds s, s_fresh := s_fresh s + 1\<rparr>))"

definition close_fd :: "nat \<Rightarrow> sys \<Rightarrow> sys option" where
  "close_fd fd s = (if fd \<in> set (s_fds s) then Some (snd (syscall (s\<lparr>s_fds := remove1 fd (s_fds s)\<rparr>))) else None)"

definition fcntl_getfl :: "nat \<Rightarrow> sys \<Rightarrow> int \<times> sys" where
  "fcntl_getfl fd s = (case syscall s of (Inl _, s) \<Rightarrow> (- 1, s) | (Inr _, s) \<Rightarrow> (s_flags s fd, s))"

definition fcntl_setfl :: "nat \<Rightarrow> int \<Rightarrow> sys \<Rightarrow> bool \<times> sys" where
  "fcntl_setfl fd flags s =
     (case syscall s of (Inl _, s) \<Rightarrow> (False, s) | (Inr _, s) \<Rightarrow> (True, s\<lparr>s_flags := (s_flags s)(fd := flags)\<rparr>))"

text \<open>\<open>poll\<close> for the end of the connection attempt, and the error it left on the socket.\<close>

definition connect_wait :: "sys \<Rightarrow> int \<times> sys" where
  "connect_wait s =
     (case syscall s of
        (Inl _, s) \<Rightarrow> (- 1, s)
      | (Inr k, s) \<Rightarrow>
          if k = 1 then
            (case syscall s of
               (Inl _, s) \<Rightarrow> (- 1, s)
             | (Inr optval, s) \<Rightarrow> if optval = 0 then (0, s\<lparr>s_errno := None\<rparr>) else (- 1, s\<lparr>s_errno := Some (EOTHER optval)\<rparr>))
          else if k = 0 then (- 1, s\<lparr>s_errno := Some ETIMEDOUT\<rparr>)
          else (- 1, s))"

definition timeout_connect :: "nat \<Rightarrow> int \<Rightarrow> sys \<Rightarrow> int \<times> sys" where
  "timeout_connect fd timeout s =
     (let (flags, s) = (if timeout \<noteq> - 1 then fcntl_getfl fd s else (0, s));
          (ok, s) = (if timeout \<noteq> - 1 then fcntl_setfl fd (flags OR O_NONBLOCK) s else (True, s))
      in if \<not> ok then (- 1, s)
         else let (connected, s) = succeeds s;
                  (ret, s) = (if connected then (0, s)
                              else if s_errno s = Some EINPROGRESS then connect_wait s
                              else (- 1, s));
                  (ok, s) = (if timeout \<noteq> - 1 then fcntl_setfl fd flags s else (True, s))
           in (if ok then ret else - 1, s))"

definition bind_to_device :: "sys \<Rightarrow> bool \<times> sys" where
  "bind_to_device s = succeeds s"

definition iperf_set_socket_no_sigpipe :: "sys \<Rightarrow> bool \<times> sys" where
  "iperf_set_socket_no_sigpipe s = (True, s)"

text \<open>Closing the socket and releasing the addresses on an error, keeping \<open>errno\<close>.\<close>

definition give_up :: "nat \<Rightarrow> nat option list \<Rightarrow> sys \<Rightarrow> sys option" where
  "give_up fd res s =
     do { s' \<leftarrow> close_fd fd s;
          s' \<leftarrow> foldl (\<lambda>s' r. Option.bind s' (freeaddrinfo r)) (Some s') res;
          Some (s'\<lparr>s_errno := s_errno s\<rparr>) }"

definition device_error :: "sys \<Rightarrow> sys" where
  "device_error s = s\<lparr>s_ierr := (if s_errno s = Some EOPNOTSUPP then IEBINDDEVNOSUPPORT else IEBINDDEV)\<rparr>"

definition free_if :: "bool \<Rightarrow> nat option \<Rightarrow> sys \<Rightarrow> sys option" where
  "free_if b r s = (if b then freeaddrinfo r s else Some s)"

text \<open>Binding the new socket to the local address, or to the port of the wildcard address.\<close>

definition bind_local :: "bool \<Rightarrow> int \<Rightarrow> nat \<Rightarrow> nat option \<Rightarrow> nat \<times> nat \<Rightarrow> sys \<Rightarrow> ((nat \<times> nat) option \<times> sys) option" where
  "bind_local local local_port fd local_res server s =
     (if local then
        (case succeeds s of
           (False, s) \<Rightarrow> do { s \<leftarrow> give_up fd [local_res, Some (fst server)] s; Some (None, s) }
         | (True, s) \<Rightarrow> do { s \<leftarrow> freeaddrinfo local_res s; Some (Some (fd, fst server), s) })
      else if local_port \<noteq> 0 then
        if snd server \<noteq> AF_INET \<and> snd server \<noteq> AF_INET6 then
          do { s \<leftarrow> close_fd fd s; s \<leftarrow> freeaddrinfo (Some (fst server)) s;
               Some (None, s\<lparr>s_errno := Some EAFNOSUPPORT\<rparr>) }
        else (case succeeds s of
                (False, s) \<Rightarrow> do { s \<leftarrow> give_up fd [Some (fst server)] s; Some (None, s) }
              | (True, s) \<Rightarrow> Some (Some (fd, fst server), s))
      else Some (Some (fd, fst server), s))"

definition with_server ::
  "bool \<Rightarrow> bool \<Rightarrow> bool \<Rightarrow> int \<Rightarrow> nat option \<Rightarrow> nat \<times> nat \<Rightarrow> sys \<Rightarrow> ((nat \<times> nat) option \<times> sys) option" where
  "with_server stream local bind_dev local_port local_res server s =
     (case socket_new s of
        (None, s) \<Rightarrow>
          do { s \<leftarrow> free_if local local_res s; s \<leftarrow> freeaddrinfo (Some (fst server)) s; Some (None, s) }
      | (Some fd, s) \<Rightarrow>
          let (ok, s) = (if stream then iperf_set_socket_no_sigpipe s else (True, s))
          in if \<not> ok then
               do { s' \<leftarrow> close_fd fd s; s' \<leftarrow> free_if local local_res s';
                    s' \<leftarrow> freeaddrinfo (Some (fst server)) s'; Some (None, s'\<lparr>s_errno := s_errno s\<rparr>) }
             else let (ok, s) = (if bind_dev then bind_to_device s else (True, s))
               in if \<not> ok then do { s \<leftarrow> give_up fd [local_res, Some (fst server)] s; Some (None, device_error s) }
                  else bind_local local local_port fd local_res server s)"

text \<open>The socket and the server's addresses, or \<open>None\<close> for \<open>-1\<close>.\<close>

definition create_socket :: "nat \<Rightarrow> bool \<Rightarrow> bool \<Rightarrow> bool \<Rightarrow> int \<Rightarrow> sys \<Rightarrow> ((nat \<times> nat) option \<times> sys) option" where
  "create_socket domain stream local bind_dev local_port s =
     (let (local_res, s) = (if local then getaddrinfo domain s else (None, s))
      in if local \<and> local_res = None then Some (None, s)
         else case getaddrinfo domain s of
           (None, s) \<Rightarrow> do { s \<leftarrow> free_if local (map_option fst local_res) s; Some (None, s) }
         | (Some server, s) \<Rightarrow> with_server stream local bind_dev local_port (map_option fst local_res) server s)"

definition netdial :: "nat \<Rightarrow> bool \<Rightarrow> bool \<Rightarrow> bool \<Rightarrow> int \<Rightarrow> int \<Rightarrow> sys \<Rightarrow> (nat option \<times> sys) option" where
  "netdial domain stream local bind_dev local_port timeout s =
     do { (r, s) \<leftarrow> create_socket domain stream local bind_dev local_port s;
          case r of
            None \<Rightarrow> Some (None, s)
          | Some (fd, server_res) \<Rightarrow>
              let (ret, s) = timeout_connect fd timeout s
              in if ret < 0 \<and> s_errno s \<noteq> Some EINPROGRESS
                 then do { s \<leftarrow> give_up fd [Some server_res] s; Some (None, s) }
                 else do { s \<leftarrow> freeaddrinfo (Some server_res) s; Some (Some fd, s) } }"

text \<open>\<open>listen\<close> on the bound socket of \<open>netannounce\<close>.\<close>

definition announce_listen :: "bool \<Rightarrow> nat \<Rightarrow> nat \<Rightarrow> sys \<Rightarrow> (nat option \<times> sys) option" where
  "announce_listen stream fd res s =
     (case succeeds s of
        (False, s) \<Rightarrow> do { s \<leftarrow> give_up fd [Some res] s; Some (None, s) }
      | (True, s) \<Rightarrow>
          do { s \<leftarrow> freeaddrinfo (Some res) s;
               let (ok, s) = (if stream then succeeds s else (True, s));
               if ok then Some (Some fd, s) else do { s \<leftarrow> give_up fd [] s; Some (None, s) } })"

definition announce_options :: "nat \<Rightarrow> bool \<Rightarrow> nat \<Rightarrow> nat \<times> nat \<Rightarrow> sys \<Rightarrow> (nat option \<times> sys) option" where
  "announce_options domain stream fd res s =
     (case succeeds s of
        (False, s) \<Rightarrow> do { s \<leftarrow> give_up fd [Some (fst res)] s; Some (None, s) }
      | (True, s) \<Rightarrow>
          let (ok, s) = (if snd res = AF_INET6 \<and> (domain = AF_UNSPEC \<or> domain = AF_INET6) then succeeds s else (True, s))
          in if \<not> ok then do { s \<leftarrow> give_up fd [Some (fst res)] s; Some (None, s) }
             else announce_listen stream fd (fst res) s)"

definition netannounce :: "nat \<Rightarrow> bool \<Rightarrow> bool \<Rightarrow> bool \<Rightarrow> sys \<Rightarrow> (nat option \<times> sys) option" where
  "netannounce domain stream local bind_dev s =
     (case getaddrinfo (if domain = AF_UNSPEC \<and> \<not> local then AF_INET6 else domain) s of
        (None, s) \<Rightarrow> Some (None, s)
      | (Some res, s) \<Rightarrow>
          (case socket_new s of
             (None, s) \<Rightarrow> do { s \<leftarrow> freeaddrinfo (Some (fst res)) s; Some (None, s) }
           | (Some fd, s) \<Rightarrow>
               let (ok, s) = (if stream then iperf_set_socket_no_sigpipe s else (True, s))
               in if \<not> ok then do { s \<leftarrow> give_up fd [Some (fst res)] s; Some (None, s) }
                  else let (ok, s) = (if bind_dev then bind_to_device s else (True, s))
                    in if \<not> ok then do { s \<leftarrow> give_up fd [Some (fst res)] s; Some (None, device_error s) }
                       else announce_options domain stream fd res s))"

definition setnonblocking :: "nat \<Rightarrow> bool \<Rightarrow> sys \<Rightarrow> bool \<times> sys" where
  "setnonblocking fd nonblock s =
     (let (flags, s) = fcntl_getfl fd s
      in if flags < 0 then (False, s)
         else let newflags = (if nonblock then flags OR O_NONBLOCK else flags AND NOT O_NONBLOCK)
           in if newflags \<noteq> flags then fcntl_setfl fd newflags s else (True, s))"

definition getsockdomain :: "sys \<Rightarrow> int \<times> sys" where
  "getsockdomain s = (case syscall s of (Inl _, s) \<Rightarrow> (- 1, s) | (Inr family, s) \<Rightarrow> (int family, s))"

subsection \<open>Closing a socket\<close>

definition time0 :: iperf_time where "time0 = \<lparr>secs = 0, usecs = 0\<rparr>"

text \<open>Reading into the local buffer of 128 bytes until nothing more comes.\<close>

partial_function (option) drain :: "iperf_time \<Rightarrow> bytes \<Rightarrow> net_os \<Rightarrow> net_os option" where
  "drain now buf os =
     do { (r, buf, os) \<leftarrow> Nread now buf 128 os;
          if 0 < r then drain now buf os else Some os }"

definition iperf_sync_close_socket :: "iperf_time \<Rightarrow> bytes \<Rightarrow> net_os \<Rightarrow> net_os option" where
  "iperf_sync_close_socket now buf os = drain now buf (ticked os)"

end
