(* ===== verification/Net_Safe.thy ===== *)
theory Net_Safe
  imports Net
begin

text \<open>
  Correctness of \<open>net.c\<close>: reading moves a prefix of the stream to the start of the buffer,
  writing hands over a prefix of the data, opening sockets leaks neither descriptors nor
  address lists, and closing ends.
\<close>

subsection \<open>Reading from a stream\<close>

definition received :: "nat \<Rightarrow> bytes \<Rightarrow> bytes \<Rightarrow> net_os \<Rightarrow> nat \<Rightarrow> bytes \<Rightarrow> net_os \<Rightarrow> bool" where
  "received i s buf os n buf' os' \<longleftrightarrow> n \<le> length s \<and> buf' = take i buf @ take n s @ drop (i + n) buf \<and>
     n_in os' = Stream (drop n s) \<and> n_out os' = n_out os"

lemma received_refl: "n_in os' = Stream s \<Longrightarrow> n_out os' = n_out os \<Longrightarrow> received i s buf os 0 buf os'"
  by (simp add: received_def)

lemma received_trans:
  assumes "received i s buf os c buf1 os1" "received (i + c) (drop c s) buf1 os1 n buf2 os2" "i + c + n \<le> length buf"
  shows "received i s buf os (c + n) buf2 os2"
proof -
  have b: "buf1 = take i buf @ take c s @ drop (i + c) buf" "c \<le> length s" using assms(1) by (simp_all add: received_def)
  have "take (i + c) buf1 = take i buf @ take c s" "drop (i + c + n) buf1 = drop (i + c + n) buf"
    using b assms(3) by (simp_all add: add.commute add.left_commute)
  then show ?thesis using assms b
    by (auto simp: received_def take_add ac_simps)
qed

lemma length_received: "received i s buf os n buf' os' \<Longrightarrow> i + n \<le> length buf \<Longrightarrow> length buf' = length buf"
  by (auto simp: received_def)

lemma stream_read:
  assumes "n_in os = Stream s" "sock_read False n os = (res, os1)" "0 < n" "i + n \<le> length buf"
  obtains e where "res = Inl e" "received i s buf os 0 buf os1"
  | c buf1 where "res = Inr (take c s, c)" "c \<le> n" "c \<le> length s" "store_at i (take c s) buf = Some buf1"
      "received i s buf os c buf1 os1" "c = 0 \<longrightarrow> buf1 = buf"
proof (cases "n_recv os (n_tick os)")
  case (Inl e)
  then show ?thesis using assms(1,2) that(1) by (auto simp: sock_read_def ticked_def Let_def received_def)
next
  case (Inr k)
  define c where "c = min (length s) (min n (max 1 k))"
  have t: "take c s = take (min n (max 1 k)) s" "drop c s = drop (min n (max 1 k)) s"
    by (simp_all add: c_def min_def)
  have r: "res = Inr (take c s, c)" "n_in os1 = Stream (drop c s)" "n_out os1 = n_out os"
    using assms(1,2) Inr t by (auto simp: sock_read_def ticked_def Let_def c_def)
  have c: "c \<le> n" "c \<le> length s" by (simp_all add: c_def)
  show ?thesis
    by (rule that(2) [of c "take i buf @ take c s @ drop (i + c) buf"])
      (use r c assms(4) in \<open>auto simp: store_at_def received_def\<close>)
qed

definition read_result_ok :: "nat \<Rightarrow> nat \<Rightarrow> bytes \<Rightarrow> bytes \<Rightarrow> net_os \<Rightarrow> (int \<times> bytes \<times> net_os) option \<Rightarrow> bool" where
  "read_result_ok i nleft s buf os res \<longleftrightarrow>
     (\<exists>r n buf' os'. res = Some (r, buf', os') \<and> n \<le> nleft \<and> received i s buf os n buf' os' \<and>
        (r = int (i + n) \<or> r = NET_HARDERROR))"

lemma read_result_stop:
  "received i s buf os n buf' os' \<Longrightarrow> n \<le> nleft \<Longrightarrow> r = int (i + n) \<or> r = NET_HARDERROR \<Longrightarrow>
     read_result_ok i nleft s buf os (Some (r, buf', os'))"
  unfolding read_result_ok_def by blast

lemma read_result_step:
  assumes "received i s buf os c buf1 os1" "c \<le> nleft" "i + nleft \<le> length buf"
    and "read_result_ok (i + c) (nleft - c) (drop c s) buf1 os1 res"
  shows "read_result_ok i nleft s buf os res"
proof -
  from assms(4) obtain r n buf' os' where
    w: "res = Some (r, buf', os')" "n \<le> nleft - c" "received (i + c) (drop c s) buf1 os1 n buf' os'"
    "r = int (i + c + n) \<or> r = NET_HARDERROR" unfolding read_result_ok_def by blast
  have "received i s buf os (c + n) buf' os'"
    by (rule received_trans [OF assms(1) w(3)]) (use w(2) assms(2,3) in linarith)
  then show ?thesis using w assms(2) unfolding read_result_ok_def
    by (intro exI [of _ r] exI [of _ "c + n"] exI [of _ buf'] exI [of _ os']) (auto simp: ac_simps)
qed

lemma recv_loop_stream:
  assumes "n_in os = Stream s" "nleft \<le> count" "count \<le> length buf"
  shows "read_result_ok (count - nleft) nleft s buf os (recv_loop False count nleft buf os)"
  using assms
proof (induction nleft arbitrary: s buf os rule: less_induct)
  case (less nleft)
  show ?case
  proof (cases "nleft = 0")
    case True
    then show ?thesis
      using read_result_stop [OF received_refl [OF less.prems(1) refl]] by (subst recv_loop.simps) simp
  next
    case False
    obtain res os1 where r: "sock_read False nleft os = (res, os1)" by fastforce
    have i: "count - nleft + nleft \<le> length buf" using less.prems by simp
    from False have pos: "0 < nleft" by simp
    from stream_read [OF less.prems(1) r pos i] show ?thesis
    proof cases
      case (1 e)
      then show ?thesis using r False by (subst recv_loop.simps) (auto intro!: read_result_stop [where n = 0])
    next
      case (2 c buf1)
      show ?thesis
      proof (cases "c = 0")
        case True
        then show ?thesis using 2 r False by (subst recv_loop.simps) (auto intro!: read_result_stop [where n = 0])
      next
        case c: False
        have n: "nleft - min c nleft = nleft - c" using 2 by simp
        have "n_in os1 = Stream (drop c s)" using 2(5) by (simp add: received_def)
        moreover have "length buf1 = length buf" using length_received [OF 2(5)] 2(2) i by simp
        ultimately have "read_result_ok (count - (nleft - c)) (nleft - c) (drop c s) buf1 os1 (recv_loop False count (nleft - c) buf1 os1)"
          using less.IH [of "nleft - c" os1 "drop c s" buf1] c pos less.prems 2(2) by simp
        moreover have "count - (nleft - c) = count - nleft + c" using less.prems(2) 2(2) by simp
        ultimately have "read_result_ok (count - nleft) nleft s buf os (recv_loop False count (nleft - c) buf1 os1)"
          using read_result_step [OF 2(5,2) i] by simp
        then show ?thesis using 2 r False c n by (subst recv_loop.simps) simp
      qed
    qed
  qed
qed

lemma net_time_now_fields: "net_time_now now os = (now', os') \<Longrightarrow> n_in os' = n_in os \<and> n_out os' = n_out os"
  by (auto simp: net_time_now_def ticked_def)

lemma sock_select_fields: "sock_select t os = (r, t', os') \<Longrightarrow> n_in os' = n_in os \<and> n_out os' = n_out os"
  by (auto simp: sock_select_def ticked_def)

lemma received_after: "received i s buf os n buf' os1 \<Longrightarrow> n_in os2 = n_in os1 \<and> n_out os2 = n_out os1 \<Longrightarrow> received i s buf os n buf' os2"
  by (auto simp: received_def)

lemma select_loop_stream:
  assumes "n_in os = Stream s" "nleft \<le> count" "count \<le> length buf"
  shows "read_result_ok (count - nleft) nleft s buf os (select_loop False count nleft timeout ftimeout now buf os)"
  using assms
proof (induction nleft arbitrary: s buf os timeout ftimeout now rule: less_induct)
  case (less nleft)
  show ?case
  proof (cases "nleft = 0")
    case True
    then show ?thesis
      using read_result_stop [OF received_refl [OF less.prems(1) refl]] by (subst select_loop.simps) simp
  next
    case False
    obtain res os1 where r: "sock_read False nleft os = (res, os1)" by fastforce
    have i: "count - nleft + nleft \<le> length buf" using less.prems by simp
    from False have pos: "0 < nleft" by simp
    from stream_read [OF less.prems(1) r pos i] show ?thesis
    proof cases
      case (1 e)
      then show ?thesis using r False by (subst select_loop.simps) (auto intro!: read_result_stop [where n = 0])
    next
      case (2 c buf1)
      obtain now' os2 where t: "net_time_now now os1 = (now', os2)" by fastforce
      define ft where "ft = overall_timeout ftimeout now'"
      obtain sel to' os3 where s: "sock_select timeout os2 = (sel, to', os3)" by (metis prod_cases3)
      have f: "n_in os3 = n_in os1 \<and> n_out os3 = n_out os1" "n_in os2 = n_in os1 \<and> n_out os2 = n_out os1"
        using net_time_now_fields [OF t] sock_select_fields [OF s] by simp_all
      note rc = received_after [OF 2(5) f(1)] received_after [OF 2(5) f(2)]
      have n: "nleft - min c nleft = nleft - c" "count - (nleft - c) = count - nleft + c"
        using 2(2) less.prems(2) by simp_all
      have len: "length buf1 = length buf" using length_received [OF 2(5)] 2(2) i by simp
      show ?thesis
      proof (cases "c = 0 \<or> nleft - c = 0")
        case True
        then show ?thesis using 2 r False n less.prems(2)
          by (subst select_loop.simps) (auto intro!: read_result_stop [where n = c])
      next
        case c: False
        then have "read_result_ok (count - nleft + c) (nleft - c) (drop c s) buf1 os3
            (select_loop False count (nleft - c) to' ft now' buf1 os3)"
          using less.IH [of "nleft - c" os3 "drop c s" buf1 to' ft now'] pos less.prems(2,3) n(2) len rc(1)
          by (simp add: received_def)
        from read_result_step [OF rc(1) 2(2) i this]
        have go: "read_result_ok (count - nleft) nleft s buf os (select_loop False count (nleft - c) to' ft now' buf1 os3)" .
        have stop: "read_result_ok (count - nleft) nleft s buf os (Some (x, buf1, os'))"
          if "x = int (count - nleft + c) \<or> x = NET_HARDERROR" "os' = os2 \<or> os' = os3" for x os'
          using read_result_stop [OF _ 2(2) that(1)] rc that(2) by blast
        have "select_loop False count nleft timeout ftimeout now buf os =
            (if iperf_time_compare ft now' < 0 then Some (int (count - nleft + c), buf1, os2)
             else case sel of Inl _ \<Rightarrow> Some (NET_HARDERROR, buf1, os3)
               | Inr k \<Rightarrow> (case k of 0 \<Rightarrow> Some (int (count - nleft + c), buf1, os3)
                   | Suc _ \<Rightarrow> select_loop False count (nleft - c) to' ft now' buf1 os3))"
          using False c 2(1,4) r n t s by (subst select_loop.simps) (simp add: Let_def ft_def split: sum.split nat.split)
        then show ?thesis using go stop by (auto split: sum.split nat.split)
      qed
    qed
  qed
qed

lemma Nrecv_stream:
  assumes "n_in os = Stream s" "count \<le> length buf"
  shows "read_result_ok 0 count s buf os (Nrecv now buf count False os)"
proof -
  obtain sel to' os1 where r: "sock_select nread_read_timeout os = (sel, to', os1)" by (metis prod_cases3)
  have f: "n_in os1 = Stream s" "n_out os1 = n_out os" using sock_select_fields [OF r] assms(1) by auto
  have "read_result_ok 0 count s buf os1 (select_loop False count count to' \<lparr>secs = 0, usecs = 0\<rparr> now buf os1)"
    using select_loop_stream [OF f(1) order_refl assms(2)] by simp
  then have "read_result_ok 0 count s buf os (select_loop False count count to' \<lparr>secs = 0, usecs = 0\<rparr> now buf os1)"
    using f(2) by (simp add: read_result_ok_def received_def)
  then show ?thesis using r received_refl [OF f(1) f(2)]
    by (auto simp: Nrecv_def split: sum.splits nat.splits intro!: read_result_stop [where n = 0])
qed

subsection \<open>Writing to a stream\<close>

definition handed :: "bytes \<Rightarrow> net_os \<Rightarrow> nat \<Rightarrow> net_os \<Rightarrow> bool" where
  "handed bs os n os' \<longleftrightarrow> n \<le> length bs \<and> n_out os' = n_out os @ take n bs \<and> n_in os' = n_in os"

lemma sock_write_handed:
  assumes "sock_write bs os = (res, os1)"
  obtains e where "res = Inl e" "handed bs os 0 os1" | r where "res = Inr r" "r \<le> length bs" "handed bs os r os1"
proof (cases "n_write os (n_tick os)")
  case (Inl e)
  then show ?thesis using assms that(1) [of e] by (auto simp: sock_write_def ticked_def Let_def handed_def)
next
  case (Inr k)
  then have "res = Inr (min k (length bs))" "handed bs os (min k (length bs)) os1"
    using assms by (auto simp: sock_write_def ticked_def Let_def handed_def min_def)
  then show ?thesis using that(2) by simp
qed

lemma handed_trans: "handed bs os r os1 \<Longrightarrow> handed (drop r bs) os1 n os2 \<Longrightarrow> handed bs os (r + n) os2"
  by (auto simp: handed_def take_add)

lemma write_loop_handed:
  assumes "length bs \<le> count"
  shows "\<exists>r n os'. write_loop count bs os = (r, os') \<and> handed bs os n os' \<and>
     (if 0 \<le> r then r = int (count - length bs + n) \<and> (bs = [] \<or> 0 < count - length bs + n) else n < length bs)"
  using assms
proof (induction "length bs" arbitrary: bs os rule: less_induct)
  case less
  show ?case
  proof (cases "bs = []")
    case True
    then show ?thesis by (subst write_loop.simps) (simp add: handed_def)
  next
    case False
    obtain res os1 where w: "sock_write bs os = (res, os1)" by fastforce
    then show ?thesis
    proof (cases rule: sock_write_handed)
      case (1 e)
      then show ?thesis using w False less.prems
        by (subst write_loop.simps) (auto simp: net_errors intro!: exI [of _ "0::nat"])
    next
      case (2 r)
      show ?thesis
      proof (cases "r = 0")
        case True
        then show ?thesis using 2 w False
          by (subst write_loop.simps) (auto simp: net_errors intro!: exI [of _ "0::nat"])
      next
        case r: False
        have "length (drop r bs) < length bs" "length (drop r bs) \<le> count" using r False less.prems by auto
        from less.hyps [OF this] obtain x n os' where
          x: "write_loop count (drop r bs) os1 = (x, os')" "handed (drop r bs) os1 n os'"
          "if 0 \<le> x then x = int (count - length (drop r bs) + n) \<and> (drop r bs = [] \<or> 0 < count - length (drop r bs) + n) else n < length (drop r bs)" by blast
        have c: "count - (length bs - r) = count - length bs + r" using less.prems 2(2) by simp
        have e: "write_loop count bs os = (x, os')" using x(1) 2 w False r by (subst write_loop.simps) simp
        show ?thesis unfolding e
          by (rule exI [of _ x], rule exI [of _ "r + n"], rule exI [of _ os'])
            (use handed_trans [OF 2(3) x(2)] x(3) c r in \<open>auto split: if_splits\<close>)
      qed
    qed
  qed
qed

lemma sendfile_loop_handed:
  assumes "nleft \<le> count"
  shows "\<exists>r n os'. sendfile_loop file count nleft os = (r, os') \<and> n \<le> nleft \<and> handed (drop (count - nleft) file) os n os' \<and>
     (0 \<le> r \<longrightarrow> r = int (count - nleft + n))"
  using assms
proof (induction nleft arbitrary: os rule: less_induct)
  case (less nleft)
  show ?case
  proof (cases "nleft = 0")
    case True
    then show ?thesis by (subst sendfile_loop.simps) (auto simp: handed_def)
  next
    case False
    let ?bs = "take nleft (drop (count - nleft) file)"
    obtain res os1 where w: "sock_write ?bs os = (res, os1)" by fastforce
    then show ?thesis
    proof (cases rule: sock_write_handed)
      case (1 e)
      then show ?thesis using w False less.prems
        by (subst sendfile_loop.simps) (auto simp: net_errors handed_def intro!: exI [of _ "0::nat"])
    next
      case (2 r)
      show ?thesis
      proof (cases "r = 0")
        case True
        then show ?thesis using 2 w False
          by (subst sendfile_loop.simps) (auto simp: net_errors handed_def intro!: exI [of _ "0::nat"])
      next
        case r: False
        have rn: "r \<le> nleft" "r \<le> length (drop (count - nleft) file)" using 2(2) by simp_all
        have h: "handed (drop (count - nleft) file) os r os1"
          using 2(3) rn by (simp add: handed_def min_def)
        have c: "count - (nleft - r) = count - nleft + r" using less.prems rn by simp
        have "nleft - r < nleft" "nleft - r \<le> count" using r False less.prems by simp_all
        from less.IH [OF this, of os1] obtain x n os' where
          x: "sendfile_loop file count (nleft - r) os1 = (x, os')" "n \<le> nleft - r"
          "handed (drop (count - (nleft - r)) file) os1 n os'" "0 \<le> x \<longrightarrow> x = int (count - (nleft - r) + n)" by blast
        have d: "drop (count - (nleft - r)) file = drop r (drop (count - nleft) file)" using c by (simp add: add.commute)
        have e: "sendfile_loop file count nleft os = (x, os')" using x(1) 2 w False r by (subst sendfile_loop.simps) simp
        show ?thesis unfolding e
          by (rule exI [of _ x], rule exI [of _ "r + n"], rule exI [of _ os'])
            (use handed_trans [OF h, of n os'] x(2-4) c d rn in auto)
      qed
    qed
  qed
qed

text \<open>
  C?. \<open>Nread\<close> on a stream, whatever the chunks, errors, timeouts and clock: it returns, never
  writes outside the first \<open>count\<close> bytes of the buffer, takes exactly \<open>n\<close> bytes from the stream
  and puts them in order at the start of the buffer, and returns \<open>n\<close> or the hard error code.
\<close>

theorem Nread_reads_prefix:
  assumes "n_in os = Stream s" "count \<le> length buf"
  shows "\<exists>r n os'. Nread now buf count os = Some (r, take n s @ drop n buf, os') \<and> n \<le> count \<and> n \<le> length s \<and>
     n_in os' = Stream (drop n s) \<and> n_out os' = n_out os \<and> (r = int n \<or> r = NET_HARDERROR)"
  using Nrecv_stream [OF assms, of now] by (auto simp: Nread_def read_result_ok_def received_def)

definition sample_net :: "sock_in \<Rightarrow> (nat \<Rightarrow> errno + nat) \<Rightarrow> net_os" where
  "sample_net inp wr = \<lparr>n_tick = 0, n_in = inp, n_recv = \<lambda>_. Inr 2, n_select = \<lambda>_. Inr 1, n_left = \<lambda>_. 9,
     n_clock = \<lambda>_. Some \<lparr>tv_sec = 5, tv_nsec = 0\<rparr>, n_write = wr, n_out = [], n_waits = []\<rparr>"

theorem Nread_reads_prefix_witness:
  "\<exists>n. Nread \<lparr>secs = 0, usecs = 0\<rparr> [0, 0, 0, 0] 3 (sample_net (Stream [1, 2, 3, 4]) (\<lambda>_. Inr 1)) =
     Some (int n, take n [1, 2, 3, 4] @ drop n [0, 0, 0, 0], snd (snd (the (Nread \<lparr>secs = 0, usecs = 0\<rparr> [0, 0, 0, 0] 3 (sample_net (Stream [1, 2, 3, 4]) (\<lambda>_. Inr 1))))))"
proof -
  let ?os = "sample_net (Stream [1, 2, 3, 4]) (\<lambda>_. Inr 1)"
  have "fst (the (Nread \<lparr>secs = 0, usecs = 0\<rparr> [0, 0, 0, 0] 3 ?os)) = 3"
    by (simp add: sample_net_def Nread_def Nrecv_def sock_select_def ticked_def nread_read_timeout_def select_loop.simps sock_read_def
        Let_def store_at_def net_time_now_def clock_gettime_helper_def overall_timeout_def nread_overall_timeout_def
        iperf_time_compare_def iperf_time_add_usecs_def)
  then show ?thesis
    using Nread_reads_prefix [of ?os "[1, 2, 3, 4]" 3 "[0, 0, 0, 0]" "\<lparr>secs = 0, usecs = 0\<rparr>"]
    by (auto simp: sample_net_def net_errors)
qed

text \<open>
  C?. \<open>Nwrite\<close> and \<open>Nsendfile\<close>, whatever partial writes and errors occur: they return, what
  reaches the socket is a prefix of the data, and a result that is not negative is exactly the
  number of bytes handed over. \<open>Nwrite\<close> fails only with part of the data unsent.
\<close>

theorem Nwrite_sends_prefix:
  "(\<exists>r n os'. Nwrite bs os = (r, os') \<and> n \<le> length bs \<and> n_out os' = n_out os @ take n bs \<and>
      (if 0 \<le> r then r = int n \<and> (bs = [] \<or> 0 < n) else n < length bs)) \<and>
   (\<exists>r n os'. Nsendfile file count os = (r, os') \<and> n \<le> count \<and> n_out os' = n_out os @ take n file \<and>
      (if 0 \<le> r then r = int n else True))"
  using write_loop_handed [of bs "length bs" os] sendfile_loop_handed [OF order_refl, of "file" count os]
  by (fastforce simp: Nwrite_def Nsendfile_def handed_def)

subsection \<open>No descriptor and no address list leaks\<close>

definition same_held :: "sys \<Rightarrow> sys \<Rightarrow> bool" where
  "same_held s s' \<longleftrightarrow> s_fds s' = s_fds s \<and> s_infos s' = s_infos s \<and> s_fresh s' = s_fresh s"

lemma syscall_held: "syscall s = (a, s') \<Longrightarrow> same_held s s'"
  by (auto simp: syscall_def Let_def same_held_def split: sum.splits)

lemma succeeds_held: "succeeds s = (ok, s') \<Longrightarrow> same_held s s'"
  by (auto simp: succeeds_def split: prod.splits sum.splits dest: syscall_held)

lemma fcntl_held: "fcntl_getfl fd s = (f, s') \<Longrightarrow> same_held s s'" "fcntl_setfl fd g s = (ok, s') \<Longrightarrow> same_held s s'"
  by (auto simp: fcntl_getfl_def fcntl_setfl_def same_held_def split: prod.splits sum.splits dest: syscall_held [unfolded same_held_def])

lemma connect_wait_held: "connect_wait s = (r, s') \<Longrightarrow> same_held s s'"
  by (auto simp: connect_wait_def same_held_def split: prod.splits sum.splits if_splits dest!: syscall_held [unfolded same_held_def])

lemma timeout_connect_held:
  assumes "timeout_connect fd timeout s = (r, s')"
  shows "same_held s s'"
proof -
  obtain f s1 where 1: "(if timeout \<noteq> - 1 then fcntl_getfl fd s else (0, s)) = (f, s1)" by fastforce
  obtain ok s2 where 2: "(if timeout \<noteq> - 1 then fcntl_setfl fd (f OR O_NONBLOCK) s1 else (True, s1)) = (ok, s2)" by fastforce
  obtain c s3 where 3: "succeeds s2 = (c, s3)" by fastforce
  obtain ret s4 where 4: "(if c then (0, s3) else if s_errno s3 = Some EINPROGRESS then connect_wait s3 else (- 1, s3)) = (ret, s4)"
    by fastforce
  obtain ok' s5 where 5: "(if timeout \<noteq> - 1 then fcntl_setfl fd f s4 else (True, s4)) = (ok', s5)" by fastforce
  have "same_held s s1" "same_held s1 s2" "same_held s2 s3" "same_held s3 s4" "same_held s4 s5"
    using 1 2 3 4 5 fcntl_held succeeds_held connect_wait_held by (auto simp: same_held_def split: if_splits)
  then have "same_held s s2" "same_held s s5" by (simp_all add: same_held_def)
  moreover have "s' = s2 \<or> s' = s5" using assms 1 2 3 4 5 by (auto simp: timeout_connect_def Let_def split: if_splits)
  ultimately show ?thesis by auto
qed


definition held_ok :: "sys \<Rightarrow> bool" where
  "held_ok s \<longleftrightarrow> (\<forall>x \<in> set (s_fds s) \<union> set (s_infos s). x < s_fresh s)"

lemma held_ok_same: "same_held s s' \<Longrightarrow> held_ok s \<Longrightarrow> held_ok s'"
  by (simp add: same_held_def held_ok_def)

lemma close_fd_held: "fd \<in> set (s_fds s) \<Longrightarrow>
    \<exists>s'. close_fd fd s = Some s' \<and> s_fds s' = remove1 fd (s_fds s) \<and> s_infos s' = s_infos s \<and> s_fresh s' = s_fresh s"
  using syscall_held [of "s\<lparr>s_fds := remove1 fd (s_fds s)\<rparr>"]
  by (cases "syscall (s\<lparr>s_fds := remove1 fd (s_fds s)\<rparr>)") (auto simp: close_fd_def same_held_def)

lemma give_up_held:
  assumes "s_fds s = fd # F" "s_infos s = is @ I" "map Some is = rs \<or> map Some is = rev rs" "distinct is"
  shows "\<exists>s'. give_up fd rs s = Some s' \<and> s_fds s' = F \<and> s_infos s' = I \<and> s_fresh s' = s_fresh s"
proof -
  obtain s1 where s1: "close_fd fd s = Some s1" "s_fds s1 = F" "s_infos s1 = is @ I" "s_fresh s1 = s_fresh s"
    using close_fd_held [of fd s] assms(1,2) by auto
  have del: "\<exists>s'. foldl (\<lambda>s' r. Option.bind s' (freeaddrinfo r)) (Some s) (map Some js) = Some s' \<and>
      s_fds s' = s_fds s \<and> s_infos s' = foldl (\<lambda>I i. remove1 i I) (s_infos s) js \<and> s_fresh s' = s_fresh s"
    if "set js \<subseteq> set (s_infos s)" "distinct js" for js s
    using that
  proof (induction js arbitrary: s)
    case (Cons j js)
    have "set js \<subseteq> set (remove1 j (s_infos s))" using Cons.prems by (metis distinct.simps(2) in_set_remove1 insert_subset list.simps(15) subset_code(1))
    then show ?case using Cons.IH [of "s\<lparr>s_infos := remove1 j (s_infos s)\<rparr>"] Cons.prems by (auto simp: freeaddrinfo_def)
  qed simp
  have "\<exists>js. rs = map Some js \<and> set js = set is \<and> distinct js \<and> (js = is \<or> js = rev is)"
    using assms(3,4) by (metis distinct_rev rev_map rev_rev_ident set_rev)
  then obtain js where js: "rs = map Some js" "set js = set is" "distinct js" "js = is \<or> js = rev is" by blast
  have fwd: "foldl (\<lambda>I i. remove1 i I) (is @ I) is = I" by (induction "is") auto
  have bwd: "foldl (\<lambda>I i. remove1 i I) (js @ I) (rev js) = I" if "distinct js" for js :: "nat list"
    using that
  proof (induction js rule: rev_induct)
    case (snoc j js)
    then have "remove1 j (js @ [j] @ I) = js @ I" by (simp add: remove1_append)
    then show ?case using snoc by simp
  qed simp
  have "foldl (\<lambda>I i. remove1 i I) (is @ I) js = I" using js(4) fwd bwd [OF assms(4)] by auto
  then show ?thesis using del [of js s1] s1 js by (auto simp: give_up_def)
qed


definition socket_held :: "nat list \<Rightarrow> nat list \<Rightarrow> nat option \<times> sys \<Rightarrow> bool" where
  "socket_held F I r \<longleftrightarrow> s_infos (snd r) = I \<and>
     (case fst r of None \<Rightarrow> s_fds (snd r) = F | Some fd \<Rightarrow> s_fds (snd r) = fd # F \<and> fd \<notin> set F)"

definition dialled_held :: "nat list \<Rightarrow> nat list \<Rightarrow> (nat \<times> nat) option \<times> sys \<Rightarrow> bool" where
  "dialled_held F I r \<longleftrightarrow>
     (case fst r of None \<Rightarrow> s_fds (snd r) = F \<and> s_infos (snd r) = I
      | Some (fd, i) \<Rightarrow> s_fds (snd r) = fd # F \<and> fd \<notin> set F \<and> s_infos (snd r) = i # I)"

lemma bind_local_held:
  assumes "s_fds s = fd # F" "fd \<notin> set F" "s_infos s = fst server # (if local then [l] else []) @ I" "fst server \<noteq> l"
    and "local_res = (if local then Some l else None)"
  shows "\<exists>r. bind_local local local_port fd local_res server s = Some r \<and> dialled_held F I r"
proof -
  obtain ok s1 where 1: "succeeds s = (ok, s1)" by fastforce
  have h: "s_fds s1 = fd # F" "s_infos s1 = fst server # (if local then [l] else []) @ I"
    using succeeds_held [OF 1] assms by (simp_all add: same_held_def)
  have g1: "local \<Longrightarrow> \<exists>s'. give_up fd [local_res, Some (fst server)] s1 = Some s' \<and> s_fds s' = F \<and> s_infos s' = I"
    using give_up_held [of s1 fd F "[fst server, l]" I "[Some l, Some (fst server)]"] h assms(4,5) by auto
  have g2: "\<not> local \<Longrightarrow> \<exists>s'. give_up fd [Some (fst server)] s1 = Some s' \<and> s_fds s' = F \<and> s_infos s' = I"
    using give_up_held [of s1 fd F "[fst server]" I "[Some (fst server)]"] h by auto
  obtain s2 where c: "close_fd fd s = Some s2" "s_fds s2 = F" "s_infos s2 = s_infos s"
    using close_fd_held [of fd s] assms(1) by auto
  show ?thesis
  proof (cases "local")
    case True
    then show ?thesis using 1 g1 h assms(2,4,5)
      by (cases ok) (auto simp: bind_local_def freeaddrinfo_def dialled_held_def)
  next
    case False
    then show ?thesis using 1 g2 h assms c
      by (cases ok) (auto simp: bind_local_def freeaddrinfo_def dialled_held_def)
  qed
qed

lemma with_server_held:
  assumes "held_ok s" "s_fds s = F" "s_infos s = fst server # (if local then [l] else []) @ I" "fst server \<noteq> l"
    and "local_res = (if local then Some l else None)" "bind_dev \<longrightarrow> local"
  shows "\<exists>r. with_server stream local bind_dev local_port local_res server s = Some r \<and> dialled_held F I r"
proof -
  obtain x s1 where 1: "syscall s = (x, s1)" by fastforce
  have h: "s_fds s1 = F" "s_infos s1 = fst server # (if local then [l] else []) @ I" "s_fresh s1 = s_fresh s"
    using syscall_held [OF 1] assms(2,3) by (simp_all add: same_held_def)
  show ?thesis
  proof (cases x)
    case (Inl e)
    then show ?thesis using 1 h assms(4,5)
      by (auto simp: with_server_def socket_new_def free_if_def freeaddrinfo_def dialled_held_def)
  next
    case (Inr n)
    let ?fd = "s_fresh s" and ?s = "s1\<lparr>s_fds := s_fresh s # F, s_fresh := s_fresh s + 1\<rparr>"
    have new: "socket_new s = (Some ?fd, ?s)" using 1 Inr h by (simp add: socket_new_def)
    have fd: "?fd \<notin> set F" using assms(1,2) by (auto simp: held_ok_def)
    obtain ok s2 where 2: "(if bind_dev then bind_to_device ?s else (True, ?s)) = (ok, s2)" by fastforce
    then have h2: "s_fds s2 = ?fd # F" "s_infos s2 = fst server # (if local then [l] else []) @ I"
      using h succeeds_held by (fastforce simp: bind_to_device_def same_held_def split: if_splits)+
    have run: "with_server stream local bind_dev local_port local_res server s =
       (if \<not> ok then do { s \<leftarrow> give_up ?fd [local_res, Some (fst server)] s2; Some (None, device_error s) }
        else bind_local local local_port ?fd local_res server s2)"
      using new 2 by (auto simp: with_server_def iperf_set_socket_no_sigpipe_def Let_def)
    show ?thesis
    proof (cases ok)
      case True
      then show ?thesis using run bind_local_held [OF h2(1) fd h2(2) assms(4,5)] by simp
    next
      case False
      then have l: "local" using 2 assms(6) by (auto split: if_splits)
      have "\<exists>s'. give_up ?fd [local_res, Some (fst server)] s2 = Some s' \<and> s_fds s' = F \<and> s_infos s' = I"
        using give_up_held [of s2 ?fd F "[fst server, l]" I "[Some l, Some (fst server)]"] h2 assms(4,5) l by auto
      then show ?thesis using run False by (auto simp: dialled_held_def device_error_def)
    qed
  qed
qed


lemma getaddrinfo_held:
  assumes "getaddrinfo hint s = (r, s')" "held_ok s"
  shows "case r of None \<Rightarrow> same_held s s'
    | Some (i, _) \<Rightarrow> i \<notin> set (s_infos s) \<and> s_infos s' = i # s_infos s \<and> s_fds s' = s_fds s \<and> held_ok s'"
proof -
  obtain x s1 where 1: "syscall s = (x, s1)" by fastforce
  then show ?thesis using syscall_held [OF 1] assms
    by (cases x) (auto simp: getaddrinfo_def same_held_def held_ok_def less_Suc_eq)
qed

lemma create_socket_held:
  assumes "held_ok s" "bind_dev \<longrightarrow> local"
  shows "\<exists>r. create_socket domain stream local bind_dev local_port s = Some r \<and> dialled_held (s_fds s) (s_infos s) r"
proof -
  obtain lr s1 where 1: "(if local then getaddrinfo domain s else (None, s)) = (lr, s1)" by fastforce
  obtain sr s2 where 2: "getaddrinfo domain s1 = (sr, s2)" by fastforce
  have l: "case lr of None \<Rightarrow> same_held s s1 | Some (i, _) \<Rightarrow> local \<and> i \<notin> set (s_infos s) \<and> s_infos s1 = i # s_infos s \<and> s_fds s1 = s_fds s \<and> held_ok s1"
    using 1 assms(1) getaddrinfo_held [of domain s lr s1] by (auto simp: same_held_def split: if_splits option.splits)
  have ok: "held_ok s1" using l assms(1) by (auto simp: same_held_def held_ok_def split: option.splits)
  note g = getaddrinfo_held [OF 2 ok]
  have run: "create_socket domain stream local bind_dev local_port s =
     (if local \<and> lr = None then Some (None, s1)
      else case sr of
        None \<Rightarrow> do { s \<leftarrow> free_if local (map_option fst lr) s2; Some (None, s) }
      | Some server \<Rightarrow> with_server stream local bind_dev local_port (map_option fst lr) server s2)"
    using 1 2 by (simp add: create_socket_def split: option.split)
  show ?thesis
  proof (cases "local \<and> lr = None")
    case True
    then show ?thesis using run l by (simp add: dialled_held_def same_held_def)
  next
    case nl: False
    then have loc: "local \<longleftrightarrow> lr \<noteq> None" using 1 by (auto split: if_splits)
    define i where "i = fst (the lr)"
    have i: "map_option fst lr = (if local then Some i else None)" "s_infos s1 = (if local then [i] else []) @ s_infos s" "s_fds s1 = s_fds s"
      using l loc by (auto simp: i_def same_held_def split: option.splits)
    show ?thesis
    proof (cases sr)
      case None
      then show ?thesis using run nl g i
        by (auto simp: free_if_def freeaddrinfo_def dialled_held_def same_held_def)
    next
      case (Some server)
      then obtain j f where sv: "server = (j, f)" by fastforce
      have j: "j \<notin> set (s_infos s1)" "s_infos s2 = j # s_infos s1" "s_fds s2 = s_fds s" "held_ok s2"
        using g Some sv i(3) by auto
      have s2: "s_infos s2 = fst server # (if local then [i] else []) @ s_infos s" using j(2) i(2) sv by simp
      show ?thesis
      proof (cases "local")
        case True
        then have "fst server \<noteq> i" using j(1) i(2) sv by auto
        then show ?thesis using run nl Some with_server_held [OF j(4,3) s2 _ i(1) assms(2)] by simp
      next
        case False
        then show ?thesis using run Some i(1) with_server_held [OF j(4,3), of server False "fst server + 1" "s_infos s" None bind_dev stream local_port] s2 assms(2)
          by simp
      qed
    qed
  qed
qed

lemma announce_listen_held:
  assumes "s_fds s = fd # F" "fd \<notin> set F" "s_infos s = i # I"
  shows "\<exists>r. announce_listen stream fd i s = Some r \<and> socket_held F I r"
proof -
  obtain ok s1 where 1: "succeeds s = (ok, s1)" by fastforce
  have h: "s_fds s1 = fd # F" "s_infos s1 = i # I" using succeeds_held [OF 1] assms by (simp_all add: same_held_def)
  let ?s = "s1\<lparr>s_infos := I\<rparr>"
  obtain ok2 s2 where 2: "(if stream then succeeds ?s else (True, ?s)) = (ok2, s2)" by fastforce
  have h2: "s_fds s2 = fd # F" "s_infos s2 = I"
    using 2 h succeeds_held by (fastforce simp: same_held_def split: if_splits)+
  show ?thesis
    using 1 2 h h2 assms(2) give_up_held [of s1 fd F "[i]" I "[Some i]"] give_up_held [of s2 fd F "[]" I "[]"]
    by (cases ok; cases ok2) (auto simp: announce_listen_def freeaddrinfo_def socket_held_def)
qed

lemma announce_options_held:
  assumes "s_fds s = fd # F" "fd \<notin> set F" "s_infos s = fst res # I"
  shows "\<exists>r. announce_options domain stream fd res s = Some r \<and> socket_held F I r"
proof -
  obtain ok s1 where 1: "succeeds s = (ok, s1)" by fastforce
  have h: "s_fds s1 = fd # F" "s_infos s1 = fst res # I" using succeeds_held [OF 1] assms by (simp_all add: same_held_def)
  obtain ok2 s2 where 2: "(if snd res = AF_INET6 \<and> (domain = AF_UNSPEC \<or> domain = AF_INET6) then succeeds s1 else (True, s1)) = (ok2, s2)"
    by fastforce
  have h2: "s_fds s2 = fd # F" "s_infos s2 = fst res # I"
    using 2 h succeeds_held by (fastforce simp: same_held_def split: if_splits)+
  note g = give_up_held [of _ fd F "[fst res]" I "[Some (fst res)]"]
  have run: "announce_options domain stream fd res s =
     (if \<not> ok then do { s \<leftarrow> give_up fd [Some (fst res)] s1; Some (None, s) }
      else if \<not> ok2 then do { s \<leftarrow> give_up fd [Some (fst res)] s2; Some (None, s) }
      else announce_listen stream fd (fst res) s2)"
    using 1 2 by (simp add: announce_options_def Let_def)
  show ?thesis
    unfolding run using g [of s1] g [of s2] h h2 announce_listen_held [OF h2(1) assms(2) h2(2)]
    by (auto simp: socket_held_def)
qed

lemma netannounce_held:
  assumes "held_ok s"
  shows "\<exists>r. netannounce domain stream local bind_dev s = Some r \<and> socket_held (s_fds s) (s_infos s) r"
proof -
  obtain gr s1 where 1: "getaddrinfo (if domain = AF_UNSPEC \<and> \<not> local then AF_INET6 else domain) s = (gr, s1)" by fastforce
  note g = getaddrinfo_held [OF 1 assms]
  show ?thesis
  proof (cases gr)
    case None
    then show ?thesis using 1 g by (simp add: netannounce_def socket_held_def same_held_def)
  next
    case (Some res)
    obtain i f where res: "res = (i, f)" by fastforce
    have h: "s_infos s1 = i # s_infos s" "s_fds s1 = s_fds s" "held_ok s1" using g Some res by auto
    obtain x s2 where 2: "syscall s1 = (x, s2)" by fastforce
    have h2: "s_infos s2 = i # s_infos s" "s_fds s2 = s_fds s" "s_fresh s2 = s_fresh s1"
      using syscall_held [OF 2] h by (simp_all add: same_held_def)
    show ?thesis
    proof (cases x)
      case (Inl e)
      then show ?thesis using 1 2 Some res h2
        by (auto simp: netannounce_def socket_new_def freeaddrinfo_def socket_held_def)
    next
      case (Inr n)
      let ?fd = "s_fresh s1" and ?s = "s2\<lparr>s_fds := s_fresh s1 # s_fds s, s_fresh := s_fresh s1 + 1\<rparr>"
      have fd: "?fd \<notin> set (s_fds s)" using h(2,3) by (auto simp: held_ok_def)
      obtain ok s3 where 3: "(if bind_dev then bind_to_device ?s else (True, ?s)) = (ok, s3)" by fastforce
      have h3: "s_fds s3 = ?fd # s_fds s" "s_infos s3 = fst res # s_infos s"
        using 3 h2 res succeeds_held by (fastforce simp: bind_to_device_def same_held_def split: if_splits)+
      have run: "netannounce domain stream local bind_dev s =
         (if \<not> ok then do { s \<leftarrow> give_up ?fd [Some (fst res)] s3; Some (None, device_error s) }
          else announce_options domain stream ?fd res s3)"
        using 1 2 3 Some Inr h2 by (auto simp: netannounce_def socket_new_def iperf_set_socket_no_sigpipe_def Let_def)
      show ?thesis
        unfolding run
        using give_up_held [of s3 ?fd "s_fds s" "[fst res]" "s_infos s" "[Some (fst res)]"] h3 announce_options_held [OF h3(1) fd h3(2)]
        by (auto simp: socket_held_def device_error_def)
    qed
  qed
qed

lemma netdial_held:
  assumes "held_ok s" "bind_dev \<longrightarrow> local"
  shows "\<exists>r. netdial domain stream local bind_dev local_port timeout s = Some r \<and> socket_held (s_fds s) (s_infos s) r"
proof -
  obtain r s1 where 1: "create_socket domain stream local bind_dev local_port s = Some (r, s1)" "dialled_held (s_fds s) (s_infos s) (r, s1)"
    using create_socket_held [OF assms] by (metis prod.collapse)
  show ?thesis
  proof (cases r)
    case None
    then show ?thesis using 1 by (simp add: netdial_def dialled_held_def socket_held_def)
  next
    case (Some p)
    obtain fd i where p: "p = (fd, i)" by fastforce
    obtain ret s2 where 2: "timeout_connect fd timeout s1 = (ret, s2)" by fastforce
    have h: "s_fds s2 = fd # s_fds s" "fd \<notin> set (s_fds s)" "s_infos s2 = i # s_infos s"
      using timeout_connect_held [OF 2] 1(2) Some p by (auto simp: dialled_held_def same_held_def)
    show ?thesis
      using 1(1) Some p 2 h give_up_held [of s2 fd "s_fds s" "[i]" "s_infos s" "[Some i]"]
      by (auto simp: netdial_def freeaddrinfo_def socket_held_def)
  qed
qed

text \<open>
  C?. Opening sockets leaks nothing: for every sequence of answers of the operating system,
  \<open>netannounce\<close>, and \<open>netdial\<close> unless a device is given without a local address, release every
  address list exactly once, and end with exactly the descriptors held before and, on success,
  the new one.
\<close>

theorem sockets_no_leak:
  assumes "\<forall>x \<in> set (s_fds s) \<union> set (s_infos s). x < s_fresh s" "bind_dev \<longrightarrow> local"
  shows "(\<exists>r s'. netdial domain stream local bind_dev local_port timeout s = Some (r, s') \<and> s_infos s' = s_infos s \<and>
      (case r of None \<Rightarrow> s_fds s' = s_fds s | Some fd \<Rightarrow> s_fds s' = fd # s_fds s \<and> fd \<notin> set (s_fds s))) \<and>
    (\<exists>r s'. netannounce domain stream local dev s = Some (r, s') \<and> s_infos s' = s_infos s \<and>
      (case r of None \<Rightarrow> s_fds s' = s_fds s | Some fd \<Rightarrow> s_fds s' = fd # s_fds s \<and> fd \<notin> set (s_fds s)))"
  using netdial_held [OF assms(1) [folded held_ok_def] assms(2), of domain stream local_port timeout]
    netannounce_held [OF assms(1) [folded held_ok_def], of domain stream "local" dev]
  by (fastforce simp: socket_held_def split: option.splits)

definition sample_sys :: "(nat \<Rightarrow> errno + nat) \<Rightarrow> sys" where
  "sample_sys ans = \<lparr>s_tick = 0, s_ans = ans, s_fresh = 3, s_fds = [0, 1, 2], s_infos = [], s_flags = \<lambda>_. 2,
     s_errno = None, s_ierr = 0, s_gerror = False\<rparr>"

theorem sockets_no_leak_witness:
  "\<exists>r s'. netdial AF_UNSPEC True True True 0 5 (sample_sys (\<lambda>k. if k = 3 then Inl EINVAL else Inr 2)) = Some (r, s') \<and>
     s_infos s' = [] \<and> (r = None \<longrightarrow> s_fds s' = [0, 1, 2])"
  using sockets_no_leak [where s = "sample_sys (\<lambda>k. if k = 3 then Inl EINVAL else Inr 2)" and bind_dev = True and local = True
      and domain = AF_UNSPEC and stream = True and local_port = 0 and timeout = 5]
  by (fastforce simp: sample_sys_def)

text \<open>
  C?. The exception is real: when binding to a device fails and no local address was given,
  \<open>create_socket\<close> passes the null pointer \<open>local_res\<close> to \<open>freeaddrinfo\<close>, whatever the error and
  the protocol.
\<close>

theorem create_socket_frees_null:
  "create_socket domain stream False True local_port (sample_sys (\<lambda>k. if k = 2 then Inl e else Inr AF_INET)) = None"
  by (simp add: create_socket_def getaddrinfo_def syscall_def sample_sys_def with_server_def socket_new_def
      iperf_set_socket_no_sigpipe_def bind_to_device_def succeeds_def give_up_def close_fd_def freeaddrinfo_def Let_def)

lemma drain_ends:
  assumes "n_in os = Stream s" "128 \<le> length buf"
  shows "\<exists>os' n. drain now buf os = Some os' \<and> n_in os' = Stream (drop n s)"
  using assms
proof (induction "length s" arbitrary: s buf os rule: less_induct)
  case less
  from Nrecv_stream [OF less.prems, of now] obtain r n buf1 os1 where
    r: "Nread now buf 128 os = Some (r, buf1, os1)" "n \<le> 128" "received 0 s buf os n buf1 os1" "r = int n \<or> r = NET_HARDERROR"
    by (auto simp: read_result_ok_def Nread_def)
  have f: "n \<le> length s" "n_in os1 = Stream (drop n s)" "128 \<le> length buf1"
    using r(2,3) less.prems(2) by (auto simp: received_def)
  show ?case
  proof (cases "0 < r")
    case True
    then have "length (drop n s) < length s" using r(4) f(1) by (auto simp: net_errors)
    from less.hyps [OF this f(2,3)] obtain os' m where "drain now buf1 os1 = Some os'" "n_in os' = Stream (drop m (drop n s))"
      by blast
    then show ?thesis using True r(1) by (subst drain.simps) (auto simp: ac_simps)
  next
    case False
    then show ?thesis using r(1) f(2) by (subst drain.simps) auto
  qed
qed

text \<open>
  C?. \<open>iperf_sync_close_socket\<close> ends: whatever chunks, errors and timeouts occur, the loop that
  reads until the end of the stream stops after the finitely many bytes the peer has sent.
\<close>

theorem iperf_sync_close_terminates:
  assumes "n_in os = Stream s" "length buf = 128"
  shows "\<exists>os' n. iperf_sync_close_socket now buf os = Some os' \<and> n_in os' = Stream (drop n s)"
  using drain_ends [of "ticked os" s buf now] assms by (simp add: iperf_sync_close_socket_def ticked_def)

theorem iperf_sync_close_terminates_witness:
  "\<exists>os' n. iperf_sync_close_socket time0 (replicate 128 7) (sample_net (Stream [1, 2, 3]) (\<lambda>_. Inr 0)) = Some os' \<and>
     n_in os' = Stream (drop n [1, 2, 3])"
  using iperf_sync_close_terminates [of "sample_net (Stream [1, 2, 3]) (\<lambda>_. Inr 0)" "[1, 2, 3]" "replicate 128 7" time0]
  by (simp add: sample_net_def)

end
