(* ===== verification/Json_Channel.thy ===== *)
theory Json_Channel
  imports Net_Safe Cjson_Roundtrip Cjson_Parse_Safe Byte_Order
begin

text \<open>
  The JSON messages of the control connection (\<open>JSON_write\<close> and \<open>JSON_read\<close> of
  \<open>iperf_api.c\<close>): a length in network byte order followed by the unformatted text.
\<close>

definition strlen_text :: "bytes \<Rightarrow> bytes" where
  "strlen_text s = takeWhile (\<lambda>c. c \<noteq> 0) s"

definition JSON_write :: "cJSON \<Rightarrow> net_os \<times> heap \<Rightarrow> (int \<times> net_os \<times> heap) option" where
  "JSON_write json w =
     (let (os, h) = w in
      do { (str, h) \<leftarrow> cJSON_PrintUnformatted json h;
           case str of
             None \<Rightarrow> Some (- 1, os, h)
           | Some str \<Rightarrow>
               let hsize = of_nat (length (strlen_text str)) :: uint32;
                   (r, os) = Nwrite (htonl hsize) os
               in if r < 0 then Some (- 1, os, deallocate h)
                  else let (r, os) = Nwrite (take (unat hsize) str) os
                    in Some (if r < 0 then - 1 else 0, os, deallocate h) })"

text \<open>The text that follows the length, read into a zeroed block that is one byte longer.\<close>

definition JSON_text :: "iperf_time \<Rightarrow> uint32 \<Rightarrow> net_os \<Rightarrow> heap \<Rightarrow> (cJSON option \<times> net_os \<times> heap) option" where
  "JSON_text now hsize os h =
     do { (rc, str, os) \<leftarrow> Nread now (replicate (unat (hsize + 1)) 0) (unat hsize) os;
          if 0 \<le> rc \<and> word_of_int rc = hsize then
            do { r \<leftarrow> (if 0 \<in> set str then cJSON_Parse (Some (strlen_text str)) h else None);
                 Some (pr_item r, os, deallocate (pr_heap r)) }
          else Some (None, os, deallocate h) }"

text \<open>The first argument is what the local variables hold before they are set.\<close>

definition JSON_read :: "iperf_time \<times> bytes \<Rightarrow> int \<Rightarrow> net_os \<times> heap \<Rightarrow> (cJSON option \<times> net_os \<times> heap) option" where
  "JSON_read locals max_size w =
     (let (os, h) = w; (now, nsize) = locals in
      do { (rc, nsize, os) \<leftarrow> Nread now nsize 4 os;
           if rc \<noteq> 4 then Some (None, os, h)
           else let hsize = ntohl nsize
             in if \<not> (0 < hsize \<and> (max_size = 0 \<or> hsize \<le> word_of_int max_size)) then Some (None, os, h)
                else if hsize + 1 = 0 then Some (None, os, h)
                else let (ok, h) = allocate h
                  in if \<not> ok then Some (None, os, h) else JSON_text now hsize os h })"

definition frame_of :: "bytes \<Rightarrow> bytes" where
  "frame_of t = htonl (of_nat (length t)) @ t"

lemma Nwrite_handed:
  obtains r n os' where "Nwrite bs os = (r, os')" "handed bs os n os'" "0 \<le> r \<longrightarrow> r = int n"
  using write_loop_handed [of bs "length bs" os] by (auto simp: Nwrite_def split: if_splits)

lemma strlen_text_nz: "0 \<notin> set t \<Longrightarrow> strlen_text (t @ [0]) = t"
  by (induction t) (auto simp: strlen_text_def)

lemma JSON_write_sent:
  assumes "json_ok item" "\<And>t. render False 0 item = Some t \<Longrightarrow> length t < 2 ^ 32"
  shows "\<exists>r os' h'. JSON_write item (os, h) = Some (r, os', h') \<and> h_live h' = h_live h \<and> n_in os' = n_in os \<and>
     (case render False 0 item of None \<Rightarrow> n_out os' = n_out os \<and> r = - 1
      | Some t \<Rightarrow> \<exists>i j. i \<le> 4 \<and> j \<le> length t \<and> n_out os' = n_out os @ take i (htonl (of_nat (length t))) @ take j t)"
proof -
  from print_renders [OF assms(1), of False h] obtain p h1 where
    p: "print item False h = Some (p, h1)"
    "case p of Some s \<Rightarrow> (\<exists>t. render False 0 item = Some t \<and> s = t @ [0]) \<and> h_live h1 = h_live h + 1
      | None \<Rightarrow> h_live h1 = h_live h" by (elim exE conjE) (rule that)
  show ?thesis
  proof (cases p)
    case None
    then have "JSON_write item (os, h) = Some (- 1, os, h1)" "h_live h1 = h_live h"
      using p by (simp_all add: JSON_write_def cJSON_PrintUnformatted_def)
    then show ?thesis by (cases "render False 0 item") auto
  next
    case (Some s)
    then obtain t where t: "render False 0 item = Some t" "s = t @ [0]" "h_live h1 = h_live h + 1" using p(2) by auto
    have nz: "0 \<notin> set t" by (rule render_nz [OF assms(1) t(1)])
    have len: "strlen_text s = t" "unat (of_nat (length t) :: uint32) = length t"
      using strlen_text_nz [OF nz] t(2) assms(2) [OF t(1)] by (simp_all add: unat_of_nat)
    let ?hd = "htonl (of_nat (length t))"
    obtain r1 n1 os1 where w1: "Nwrite ?hd os = (r1, os1)" "handed ?hd os n1 os1" by (rule Nwrite_handed)
    obtain r2 n2 os2 where w2: "Nwrite t os1 = (r2, os2)" "handed t os1 n2 os2" by (rule Nwrite_handed)
    have run: "JSON_write item (os, h) =
       (if r1 < 0 then Some (- 1, os1, deallocate h1) else Some (if r2 < 0 then - 1 else 0, os2, deallocate h1))"
      using p(1) Some t(2) len w1(1) w2(1) by (simp add: JSON_write_def cJSON_PrintUnformatted_def Let_def)
    have live: "h_live (deallocate h1) = h_live h" using t(3) by (simp add: deallocate_def)
    have o1: "n_out os1 = n_out os @ take n1 ?hd @ take 0 t" "n1 \<le> 4" "n_in os1 = n_in os"
      and o2: "n_out os2 = n_out os @ take n1 ?hd @ take n2 t" "n2 \<le> length t" "n_in os2 = n_in os"
      using w1(2) w2(2) by (simp_all add: handed_def)
    show ?thesis
    proof (cases "r1 < 0")
      case True
      then show ?thesis unfolding run t(1) option.case using live o1
        by (intro exI [of _ "- 1"] exI [of _ os1] exI [of _ "deallocate h1"] conjI exI [of _ n1] exI [of _ "0::nat"]) simp_all
    next
      case False
      then show ?thesis unfolding run t(1) option.case using live o1(2) o2
        by (intro exI [of _ "if r2 < 0 then - 1 else 0"] exI [of _ os2] exI [of _ "deallocate h1"] conjI exI [of _ n1] exI [of _ n2]) simp_all
    qed
  qed
qed


subsection \<open>Reading\<close>

lemma Nread_stream:
  assumes "n_in os = Stream s" "count \<le> length buf"
  obtains r n os' where "Nread now buf count os = Some (r, take n s @ drop n buf, os')" "n \<le> count" "n \<le> length s"
    "n_in os' = Stream (drop n s)" "r = int n \<or> r = NET_HARDERROR"
  using Nrecv_stream [OF assms, of now] by (auto simp: Nread_def read_result_ok_def received_def)

lemma parse_live:
  "\<exists>r. cJSON_Parse (Some t) h = Some r \<and>
     h_live (pr_heap r) = h_live h + (case pr_item r of None \<Rightarrow> 0 | Some item \<Rightarrow> owned [item])"
proof -
  obtain r where "cJSON_ParseWithLengthOpts (Some (t @ [0])) False h = Some r" "result_ok (t @ [0]) h r"
    using cJSON_ParseWithLengthOpts_ok [of "t @ [0]" False h] by auto
  then show ?thesis
    by (auto simp: cJSON_Parse_def cJSON_ParseWithOpts_def result_ok_def split: option.splits)
qed

text \<open>What follows the length: the text is read into a zeroed block that is one byte longer.\<close>

lemma read_text:
  assumes "n_in os = Stream s" "hsize + 1 \<noteq> (0 :: uint32)"
  obtains rc n os' where "Nread now (replicate (unat (hsize + 1)) 0) (unat hsize) os = Some (rc, take n s @ replicate (unat hsize + 1 - n) 0, os')"
    "n \<le> unat hsize" "n \<le> length s" "n_in os' = Stream (drop n s)" "rc = int n \<or> rc = NET_HARDERROR"
    "0 \<le> rc \<and> word_of_int rc = hsize \<longleftrightarrow> rc = int (unat hsize)"
proof -
  have u: "unat (hsize + 1) = unat hsize + 1" using unatSuc [of hsize] assms(2) by (simp add: add.commute)
  from Nread_stream [OF assms(1), of "unat hsize" "replicate (unat (hsize + 1)) 0" now] u obtain rc n os' where
    r: "Nread now (replicate (unat (hsize + 1)) 0) (unat hsize) os = Some (rc, take n s @ drop n (replicate (unat (hsize + 1)) 0), os')"
    "n \<le> unat hsize" "n \<le> length s" "n_in os' = Stream (drop n s)" "rc = int n \<or> rc = NET_HARDERROR" by auto
  have "0 \<le> rc \<and> word_of_int rc = hsize \<longleftrightarrow> rc = int (unat hsize)"
  proof
    assume a: "0 \<le> rc \<and> word_of_int rc = hsize"
    then have rc: "rc = int n" using r(5) by (auto simp: net_errors)
    have "n < 4294967296" using r(2) unat_lt_uint32 [of hsize] by linarith
    then have "unat (word_of_int (int n) :: uint32) = n" by (simp add: unat_of_nat)
    then show "rc = int (unat hsize)" using a rc by simp
  qed simp
  moreover have "drop n (replicate (unat (hsize + 1)) 0) = replicate (unat hsize + 1 - n) 0" by (simp only: u drop_replicate)
  ultimately show ?thesis using that [of rc n os'] r by metis
qed

lemma JSON_text_total:
  assumes "n_in os = Stream s" "hsize + 1 \<noteq> (0 :: uint32)"
  shows "\<exists>j os' h' n. JSON_text now hsize os h = Some (j, os', h') \<and> n_in os' = Stream (drop n s) \<and>
     h_live h' = h_live h - 1 + (case j of None \<Rightarrow> 0 | Some item \<Rightarrow> owned [item])"
proof -
  obtain rc n os1 where 2: "Nread now (replicate (unat (hsize + 1)) 0) (unat hsize) os = Some (rc, take n s @ replicate (unat hsize + 1 - n) 0, os1)"
    "n \<le> unat hsize" "n_in os1 = Stream (drop n s)"
    by (rule read_text [OF assms])
  let ?str = "take n s @ replicate (unat hsize + 1 - n) 0"
  obtain r where r: "cJSON_Parse (Some (strlen_text ?str)) h = Some r"
    "h_live (pr_heap r) = h_live h + (case pr_item r of None \<Rightarrow> 0 | Some item \<Rightarrow> owned [item])" using parse_live by blast
  have z: "0 \<in> set ?str" using 2(2) by simp
  show ?thesis
  proof (cases "0 \<le> rc \<and> word_of_int rc = hsize")
    case True
    then have "JSON_text now hsize os h = Some (pr_item r, os1, deallocate (pr_heap r))"
      using 2(1) r(1) z by (simp add: JSON_text_def)
    then show ?thesis using 2(3) r(2) by (auto simp: deallocate_def)
  next
    case False
    then have "JSON_text now hsize os h = Some (None, os1, deallocate h)"
      using 2(1) by (auto simp: JSON_text_def)
    then show ?thesis using 2(3) by (auto simp: deallocate_def)
  qed
qed

lemma JSON_read_total:
  assumes "n_in os = Stream s" "length nsize = 4"
  shows "\<exists>j os' h' n. JSON_read (now, nsize) max_size (os, h) = Some (j, os', h') \<and> n_in os' = Stream (drop n s) \<and>
     h_live h' = h_live h + (case j of None \<Rightarrow> 0 | Some item \<Rightarrow> owned [item])"
proof -
  obtain rc n os1 where 1: "Nread now nsize 4 os = Some (rc, take n s @ drop n nsize, os1)" "n_in os1 = Stream (drop n s)"
    by (rule Nread_stream [OF assms(1), of 4 nsize now]) (use assms(2) in auto)
  define hsize where "hsize = ntohl (take n s @ drop n nsize)"
  obtain ok h1 where a: "allocate h = (ok, h1)" by fastforce
  have live: "h_live h1 = h_live h + (if ok then 1 else 0)" using a by (auto simp: allocate_def Let_def)
  have run: "JSON_read (now, nsize) max_size (os, h) =
     (if rc \<noteq> 4 \<or> \<not> (0 < hsize \<and> (max_size = 0 \<or> hsize \<le> word_of_int max_size)) \<or> hsize + 1 = 0 then Some (None, os1, h)
      else if \<not> ok then Some (None, os1, h1) else JSON_text now hsize os1 h1)"
    using 1(1) a by (simp add: JSON_read_def hsize_def Let_def)
  show ?thesis
  proof (cases "rc \<noteq> 4 \<or> \<not> (0 < hsize \<and> (max_size = 0 \<or> hsize \<le> word_of_int max_size)) \<or> hsize + 1 = 0 \<or> \<not> ok")
    case True
    then show ?thesis using run 1(2) live by (auto split: if_splits)
  next
    case False
    then have "JSON_read (now, nsize) max_size (os, h) = JSON_text now hsize os1 h1" "hsize + 1 \<noteq> 0" using run by auto
    then show ?thesis using JSON_text_total [OF 1(2), of hsize now h1] live False by (auto simp: ac_simps)
  qed
qed


text \<open>A socket that is always ready and hands over everything at once.\<close>

definition prompt :: "nat \<Rightarrow> net_os \<Rightarrow> bool" where
  "prompt B os \<longleftrightarrow> (\<forall>k. \<exists>m. n_select os k = Inr (Suc m)) \<and> (\<forall>k. \<exists>m \<ge> B. n_recv os k = Inr m)"

lemma Nread_prompt:
  assumes "n_in os = Stream s" "prompt B os" "count \<le> B" "count \<le> length s" "count \<le> length buf" "0 < count"
  shows "\<exists>os'. Nread now buf count os = Some (int count, take count s @ drop count buf, os') \<and>
     n_in os' = Stream (drop count s) \<and> prompt B os'"
proof -
  obtain m where m: "n_select os (n_tick os) = Inr (Suc m)" using assms(2) by (auto simp: prompt_def)
  obtain c where c: "n_recv os (Suc (n_tick os)) = Inr c" "B \<le> c" using assms(2) by (auto simp: prompt_def)
  have k: "min count (max 1 c) = count" using assms(3) c(2) by simp
  show ?thesis
    using m c k assms
    by (simp add: Nread_def Nrecv_def sock_select_def ticked_def select_loop.simps sock_read_def store_at_def Let_def prompt_def)
qed

lemma JSON_text_reads:
  assumes "n_in os = Stream (t @ rest)" "length t < 2 ^ 32 - 1" "0 \<notin> set t" "cJSON_Parse (Some t) h = Some r"
  shows "\<exists>j os' h'. JSON_text now (of_nat (length t)) os h = Some (j, os', h') \<and>
     (j = None \<or> j = pr_item r \<and> n_in os' = Stream rest) \<and>
     (prompt B os \<and> length t \<le> B \<and> t \<noteq> [] \<longrightarrow> j = pr_item r \<and> n_in os' = Stream rest)"
proof -
  let ?n = "of_nat (length t) :: uint32"
  have u: "unat ?n = length t" using assms(2) by (simp add: unat_of_nat)
  have "unat ?n + 1 < 2 ^ 32" using u assms(2) by simp
  then have "unat (?n + 1) = unat ?n + 1" by (subst unat_add_no_wrap) simp_all
  then have n1: "?n + 1 \<noteq> 0" by (metis add_is_0 unat_0 zero_neq_one)
  obtain rc n os1 where 1: "Nread now (replicate (unat (?n + 1)) 0) (unat ?n) os = Some (rc, take n (t @ rest) @ replicate (unat ?n + 1 - n) 0, os1)"
    "n \<le> unat ?n" "n_in os1 = Stream (drop n (t @ rest))" "rc = int n \<or> rc = NET_HARDERROR"
    "0 \<le> rc \<and> word_of_int rc = ?n \<longleftrightarrow> rc = int (unat ?n)"
    by (rule read_text [OF assms(1) n1])
  show ?thesis
  proof (cases "rc = int (unat ?n)")
    case True
    then have n: "n = length t" using 1(4) u by (auto simp: net_errors)
    have str: "strlen_text (t @ [0]) = t" by (rule strlen_text_nz [OF assms(3)])
    have "JSON_text now ?n os h = Some (pr_item r, os1, deallocate (pr_heap r))"
      using 1(1,5) True n u str assms(4) by (simp add: JSON_text_def)
    then show ?thesis using 1(3) n by simp
  next
    case False
    then have "JSON_text now ?n os h = Some (None, os1, deallocate h)"
      using 1(1,5) by (auto simp: JSON_text_def)
    moreover have "\<not> (prompt B os \<and> length t \<le> B \<and> t \<noteq> [])"
      using Nread_prompt [OF assms(1), of B "length t" "replicate (unat (?n + 1)) 0" now] 1(1) False u
        \<open>unat (?n + 1) = unat ?n + 1\<close> by auto
    ultimately show ?thesis by blast
  qed
qed


subsection \<open>Messages\<close>

definition empty_object :: cJSON where
  "empty_object = Item cJSON_Object None 0 (Fin 0) None []"

lemma empty_object_text: "json_ok empty_object" "render False 0 empty_object = Some [123, 125]"
  by (simp add: empty_object_def cstring_ok_def number_ok_def double_range_def, code_simp)

lemma empty_object_printed: "\<exists>h. print empty_object False ample_heap = Some (Some [123, 125, 0], h)"
proof -
  note r = empty_object_text(2)
  from print_renders [OF empty_object_text(1), of False ample_heap] obtain p h where
    p: "print empty_object False ample_heap = Some (p, h)"
    "case p of Some s \<Rightarrow> (\<exists>t. render False 0 empty_object = Some t \<and> s = t @ [0]) \<and> h_live h = h_live ample_heap + 1
      | None \<Rightarrow> h_live h = h_live ample_heap"
    "\<forall>t. (\<forall>k. h_ok ample_heap k) \<longrightarrow> render False 0 empty_object = Some t \<longrightarrow> length t + 2 \<le> SIZE_MAX div 2 \<longrightarrow> p \<noteq> None"
    by (elim exE conjE) (rule that)
  have "p = Some [123, 125, 0]" using p(2,3) r by (auto simp: ample_heap_def SIZE_MAX_def split: option.splits)
  then show ?thesis using p(1) by blast
qed

lemmas empty_object_write = JSON_write_def cJSON_PrintUnformatted_def strlen_text_def htonl_bytes frame_of_def Nwrite_def
  sample_net_def write_loop.simps sock_write_def ticked_def retry_errno_def Let_def

text \<open>
  C?. \<open>JSON_read\<close> on whatever a peer sends, with any size limit and any allocation failures: it
  returns without an invalid memory access, consumes a prefix of the stream, and has allocated
  nothing but the item it returns.
\<close>

theorem JSON_read_safe:
  assumes "n_in os = Stream s" "length nsize = 4"
  shows "\<exists>j os' h' n. JSON_read (now, nsize) max_size (os, h) = Some (j, os', h') \<and> n_in os' = Stream (drop n s) \<and>
     (case j of None \<Rightarrow> h_live h' = h_live h | Some item \<Rightarrow> h_live (cJSON_Delete [item] h') = h_live h)"
  using JSON_read_total [OF assms, of now max_size h] by (force split: option.splits)

theorem JSON_read_safe_witness:
  "\<exists>j os' h' n. JSON_read (time0, [9, 9, 9, 9]) 100 (sample_net (Stream [0, 0, 0, 2, 123]) (\<lambda>_. Inr 0), ample_heap) = Some (j, os', h') \<and>
     n_in os' = Stream (drop n [0, 0, 0, 2, 123])"
  using JSON_read_safe [of "sample_net (Stream [0, 0, 0, 2, 123]) (\<lambda>_. Inr 0)" "[0, 0, 0, 2, 123]" "[9, 9, 9, 9]" time0 100 ample_heap]
  by (auto simp: sample_net_def)

text \<open>
  C?. A message that \<open>JSON_write\<close> puts on the control connection completely is the message that
  \<open>JSON_read\<close> of the other side returns: for every item in the form the parser builds, however
  writing and reading are cut into chunks, the reader returns that very item and leaves the
  stream behind the message, or reports an error; it reports none when the data is there.
\<close>

theorem JSON_message_roundtrip:
  assumes "json_ok item" "canonical item" "c_string item = None" "nesting item \<le> CJSON_NESTING_LIMIT"
    and "render False 0 item = Some t" "length t < 2 ^ 31" "max_size = 0 \<or> int (length t) \<le> max_size \<and> max_size < 2 ^ 31"
    and "JSON_write item (os, h) = Some (0, os1, h1)" "n_out os1 = n_out os @ sent" "length sent = length t + 4"
    and "n_in os2 = Stream (sent @ rest)" "length nsize = 4" "\<forall>k. h_ok h2 k"
  shows "\<exists>j os3 h3. JSON_read (now, nsize) max_size (os2, h2) = Some (j, os3, h3) \<and>
     (j = None \<or> j = Some item \<and> n_in os3 = Stream rest) \<and>
     (prompt (length sent) os2 \<longrightarrow> j = Some item \<and> n_in os3 = Stream rest)"
proof -
  let ?n = "of_nat (length t) :: uint32"
  have small: "length t < 2 ^ 32 - 1" using assms(6) by simp
  have u: "unat ?n = length t" using small by (simp add: unat_of_nat)
  have nz: "0 \<notin> set t" by (rule render_nz [OF assms(1,5)])
  have ne: "t \<noteq> []" using render_first [OF assms(2,5)] by auto
  have sent: "sent = htonl ?n @ t"
  proof -
    from JSON_write_sent [OF assms(1), of os h] assms(5) small obtain r' os' h' i j where
      w: "JSON_write item (os, h) = Some (r', os', h')" "i \<le> 4" "j \<le> length t" "n_out os' = n_out os @ take i (htonl ?n) @ take j t"
      by auto
    then have "sent = take i (htonl ?n) @ take j t" using assms(8,9) by simp
    moreover from this have "i = 4" "j = length t" using assms(10) w(2,3) by auto
    ultimately show ?thesis by simp
  qed
  have guard: "0 < ?n \<and> (max_size = 0 \<or> ?n \<le> word_of_int max_size)"
  proof -
    have "unat (word_of_int max_size :: uint32) = nat max_size" if "0 \<le> max_size" "max_size < 2 ^ 31"
      using that by (simp add: unat_eq_nat_uint uint_word_of_int_eq take_bit_eq_mod)
    then show ?thesis using u ne assms(7) by (auto simp: word_less_nat_alt word_le_nat_alt)
  qed
  have n1: "?n + 1 \<noteq> 0"
  proof -
    have "unat (?n + 1) = unat ?n + 1" using u small by (subst unat_add_no_wrap) simp_all
    then show ?thesis by (metis add_is_0 unat_0 zero_neq_one)
  qed
  obtain rc n os3 where 1: "Nread now nsize 4 os2 = Some (rc, take n (sent @ rest) @ drop n nsize, os3)" "n \<le> 4"
    "n_in os3 = Stream (drop n (sent @ rest))" "rc = int n \<or> rc = NET_HARDERROR"
    by (rule Nread_stream [OF assms(11), of 4 nsize now]) (use assms(12) in auto)
  define h3 where "h3 = h2\<lparr>h_calls := h_calls h2 + 1, h_live := h_live h2 + 1\<rparr>"
  have a: "allocate h2 = (True, h3)" using assms(13) by (simp add: allocate_def h3_def)
  show ?thesis
  proof (cases "rc = 4")
    case False
    then have "\<not> prompt (length sent) os2"
      using Nread_prompt [OF assms(11), of "length sent" 4 nsize now] 1(1) assms(10,12) by auto
    then show ?thesis using 1(1) False by (simp add: JSON_read_def)
  next
    case True
    then have n: "n = 4" using 1(4) by (auto simp: net_errors)
    have buf: "take n (sent @ rest) @ drop n nsize = htonl ?n" "n_in os3 = Stream (t @ rest)"
      using 1(3) assms(12) by (simp_all add: n sent)
    have run: "JSON_read (now, nsize) max_size (os2, h2) = JSON_text now ?n os3 h3"
      using 1(1) buf(1) True guard n1 a by (auto simp: JSON_read_def Let_def)
    obtain r where r: "cJSON_Parse (Some t) h3 = Some r" "pr_item r = Some item"
      using parse_rendered [OF assms(2-5), of h3] assms(13) by (auto simp: h3_def)
    have p: "prompt (length sent) os2 \<Longrightarrow> prompt (length sent) os3"
      using Nread_prompt [OF assms(11), of "length sent" 4 nsize now] 1(1) assms(10,12) by auto
    from JSON_text_reads [OF buf(2) small nz r(1), where B = "length sent" and now = now]
    show ?thesis unfolding run using r(2) p ne assms(10) by auto
  qed
qed

theorem JSON_message_roundtrip_witness:
  "\<exists>j os3 h3. JSON_read (time0, [0, 0, 0, 0]) 100 ((sample_net (Stream [0, 0, 0, 2, 123, 125, 7]) (\<lambda>_. Inr 0))\<lparr>n_recv := \<lambda>_. Inr 6\<rparr>, ample_heap) =
     Some (j, os3, h3) \<and> j = Some empty_object \<and> n_in os3 = Stream [7]"
proof -
  let ?os = "sample_net (Stream []) (\<lambda>_. Inr 2)"
  obtain h where "print empty_object False ample_heap = Some (Some [123, 125, 0], h)" using empty_object_printed by blast
  then have w: "JSON_write empty_object (?os, ample_heap) = Some (0, ?os\<lparr>n_tick := 3, n_out := [0, 0, 0, 2, 123, 125]\<rparr>, deallocate h)"
    by (simp add: empty_object_write)
  have c: "canonical empty_object" "nesting empty_object = 1" "c_string empty_object = None"
    by (simp_all add: empty_object_def cJSON_Object_def cJSON_Number_def cJSON_NULL_def cJSON_False_def cJSON_True_def cJSON_String_def cJSON_Array_def)
  show ?thesis
    using JSON_message_roundtrip [OF empty_object_text(1) c(1,3) _ empty_object_text(2) _ _ w,
        of 100 "[0, 0, 0, 2, 123, 125]" "(sample_net (Stream [0, 0, 0, 2, 123, 125, 7]) (\<lambda>_. Inr 0))\<lparr>n_recv := \<lambda>_. Inr 6\<rparr>" "[7]" "[0, 0, 0, 0]" ample_heap time0] c(2)
    by (simp add: sample_net_def CJSON_NESTING_LIMIT_def ample_heap_def prompt_def)
qed

text \<open>
  C?. The premise that the message went out completely is needed: \<open>JSON_write\<close> only looks at the
  sign of what \<open>Nwrite\<close> returns. When a signal interrupts the write of the length after two of
  its four bytes, \<open>JSON_write\<close> goes on with the text, reports success, and what reaches the peer
  is not a prefix of the message.
\<close>

theorem JSON_write_ignores_short_writes:
  "\<exists>os' h'. JSON_write empty_object (sample_net (Stream []) (\<lambda>k. if k = 1 then Inl EINTR else Inr 2), ample_heap) =
     Some (0, os', h') \<and> n_out os' = [0, 0, 123, 125] \<and> n_out os' \<noteq> take 4 (frame_of [123, 125])"
proof -
  obtain h where "print empty_object False ample_heap = Some (Some [123, 125, 0], h)" using empty_object_printed by blast
  then show ?thesis by (simp add: empty_object_write)
qed

end
