(* ===== verification/Spec2Isabelle.thy ===== *)
theory Spec2Isabelle
  imports Timer Bounded_Log Cjson_Items Cjson_Roundtrip Bounded_Socket_Safe Output_Budget_Safe Json_Channel
begin

text \<open>header\<close>

end
